(* ===== verification/Prelude.thy ===== *)
theory Prelude
  imports Main "HOL-Library.Word"
begin

text \<open>
  Shared vocabulary of the development: the machine integers the sources use
  (\<open>std::uint8_t\<close> to \<open>std::uint64_t\<close> as words, \<open>std::int64_t\<close> as integers with an
  explicit range), little-endian decomposition of a word into bytes, and the
  generic facts on lists and words that several components need.

  Unsigned integers are words, so that every \<open>+\<close>, \<open>-\<close> and \<open>++\<close> of the sources
  wraps exactly where C++ wraps.  Signed 64-bit integers are \<open>int\<close>: signed
  overflow is undefined in C++, and \<open>i64\<close> is the range outside of which
  an execution has no meaning.
\<close>

type_synonym u8 = "8 word"
type_synonym u16 = "16 word"
type_synonym u32 = "32 word"
type_synonym u64 = "64 word"

unbundle bit_operations_syntax

named_theorems model_defs \<open>definitions unfolded to evaluate the model\<close>

definition i64 :: "int \<Rightarrow> bool" where
  "i64 x \<longleftrightarrow> - (2 ^ 63) \<le> x \<and> x < 2 ^ 63"

lemma i64_diff: "0 \<le> x \<Longrightarrow> 0 \<le> y \<Longrightarrow> i64 x \<Longrightarrow> i64 y \<Longrightarrow> i64 (x - y)"
  by (auto simp: i64_def)

text \<open>Position of the highest set bit, which \<open>std::bit_width\<close> exceeds by one.\<close>

fun nlog2 :: "nat \<Rightarrow> nat" where
  "nlog2 n = (if n < 2 then 0 else Suc (nlog2 (n div 2)))"

declare nlog2.simps [simp del]

lemma nlog2_bounds: "0 < n \<Longrightarrow> 2 ^ nlog2 n \<le> n \<and> n < 2 ^ Suc (nlog2 n)"
proof (induction n rule: nlog2.induct)
  case (1 n)
  show ?case
  proof (cases "n < 2")
    case True
    with 1 show ?thesis by (subst (1 2) nlog2.simps) simp
  next
    case False
    with 1 have "2 ^ nlog2 (n div 2) \<le> n div 2" "n div 2 < 2 ^ Suc (nlog2 (n div 2))"
      by simp_all
    then have "2 * 2 ^ nlog2 (n div 2) \<le> n" "n < 4 * 2 ^ nlog2 (n div 2)"
      by simp_all
    with False show ?thesis by (subst (1 2) nlog2.simps) simp
  qed
qed

lemma nlog2_unique:
  assumes "2 ^ k \<le> n" and "n < 2 ^ Suc k"
  shows "nlog2 n = k"
proof -
  have "0 < (2 :: nat) ^ k" by simp
  then have "0 < n" using assms(1) by linarith
  then have "2 ^ nlog2 n < (2 :: nat) ^ Suc k" "(2 :: nat) ^ k < 2 ^ Suc (nlog2 n)"
    using nlog2_bounds [of n] assms by linarith+
  then have "nlog2 n < Suc k" "k < Suc (nlog2 n)"
    by (simp_all only: power_strict_increasing_iff one_less_numeral_iff semiring_norm)
  then show ?thesis by simp
qed

definition countl_zero :: "u64 \<Rightarrow> nat" where
  "countl_zero w = (if w = 0 then 64 else 63 - nlog2 (unat w))"

subsection \<open>Lists\<close>

lemma list_update_append_here [simp]:
  "(xs @ y # ys)[length xs := z] = xs @ z # ys"
  by (induction xs) auto

subsection \<open>Words\<close>

lemma xor_right_cancel [simp]: "x XOR z = y XOR z \<longleftrightarrow> x = y" for x y z :: "'a::len word"
proof
  assume "x XOR z = y XOR z"
  then have "(x XOR z) XOR z = (y XOR z) XOR z" by simp
  then show "x = y" by (simp add: xor.assoc)
qed simp

lemma xor_left_cancel [simp]: "z XOR x = z XOR y \<longleftrightarrow> x = y" for x y z :: "'a::len word"
  by (simp add: xor.commute [of z])

lemma xor_eq_iff: "x XOR y = z \<longleftrightarrow> y = x XOR z" for x y z :: "'a::len word"
proof -
  have "x XOR (x XOR z) = z"
    by (simp add: xor.left_commute)
  then show ?thesis
    by (metis xor_left_cancel)
qed

lemma unat_of_nat_small: "n < 2 ^ LENGTH('a) \<Longrightarrow> unat (of_nat n :: 'a::len word) = n"
  by (simp add: unsigned_of_nat take_bit_nat_eq_self)

lemma word_of_unat: "unat w = n \<Longrightarrow> w = of_nat n" for w :: "'a::len word"
  by auto

lemma ucast_and_FF: "(ucast (w AND 0xFF) :: u8) = ucast w" for w :: "'a::len word"
proof -
  have "w AND 0xFF = take_bit 8 w"
    by (simp add: take_bit_eq_mask mask_eq_exp_minus_1)
  then show ?thesis
    by (simp only:) (rule bit_eqI, auto simp: bit_simps dest: bit_imp_le_length)
qed

subsection \<open>Decimal text\<close>

fun decimal :: "nat \<Rightarrow> string" where
  "decimal n =
     (if n < 10 then [char_of (48 + n)] else decimal (n div 10) @ [char_of (48 + n mod 10)])"

declare decimal.simps [simp del]

definition decimal_int :: "int \<Rightarrow> string" where
  "decimal_int i = (if i < 0 then CHR 0x2D # decimal (nat (- i)) else decimal (nat i))"

definition undecimal :: "string \<Rightarrow> nat" where
  "undecimal s = foldl (\<lambda>a c. 10 * a + (of_char c - 48)) 0 s"

lemma undecimal_snoc: "undecimal (s @ [c]) = 10 * undecimal s + (of_char c - 48)"
  by (simp add: undecimal_def)

lemma undecimal_decimal [simp]: "undecimal (decimal n) = n"
proof (induction n rule: decimal.induct)
  case (1 n)
  show ?case
  proof (cases "n < 10")
    case True
    then show ?thesis by (subst decimal.simps) (simp add: undecimal_def)
  next
    case False
    have "(48 + n mod 10) mod 256 = 48 + n mod 10" by simp
    with 1 False show ?thesis by (subst decimal.simps) (simp add: undecimal_snoc)
  qed
qed

lemma decimal_inj: "decimal m = decimal n \<longleftrightarrow> m = n"
  by (metis undecimal_decimal)

lemma decimal_digits: "c \<in> set (decimal n) \<Longrightarrow> 48 \<le> (of_char c :: nat) \<and> (of_char c :: nat) \<le> 57"
proof (induction n arbitrary: c rule: decimal.induct)
  case (1 n)
  then show ?case
    by (subst (asm) (2) decimal.simps) (auto split: if_splits)
qed

lemma decimal_length: "n < 10 ^ Suc k \<Longrightarrow> length (decimal n) \<le> Suc k"
proof (induction k arbitrary: n)
  case 0
  then show ?case by (subst decimal.simps) simp
next
  case (Suc k)
  then have "n div 10 < 10 ^ Suc k" by (simp add: less_mult_imp_div_less)
  from Suc.IH [OF this] show ?case by (subst decimal.simps) simp
qed

lemma unat_u64: "unat w < 18446744073709551616" for w :: u64
  using unsigned_less [of w, where 'a = nat] by simp

lemma decimal_u64_length: "length (decimal (unat w)) \<le> 20" for w :: u64
proof -
  show ?thesis using unat_u64 [of w] decimal_length [of "unat w" 19] by simp
qed

subsection \<open>Character buffers\<close>

text \<open>\<open>memcpy\<close> of a text to a place in a buffer, and the C string a buffer holds.\<close>

definition copy_at :: "nat \<Rightarrow> string \<Rightarrow> string \<Rightarrow> string" where
  "copy_at offset txt buffer = take offset buffer @ txt @ drop (offset + length txt) buffer"

definition c_string :: "string \<Rightarrow> string" where
  "c_string buffer = takeWhile (\<lambda>c. c \<noteq> CHR 0x00) buffer"

lemma c_string_terminated: "CHR 0x00 \<notin> set xs \<Longrightarrow> c_string (xs @ CHR 0x00 # ys) = xs"
  unfolding c_string_def by (subst takeWhile_append2) auto

text \<open>\<open>strncpy\<close>: at most \<open>n\<close> characters, padded with null characters.\<close>

definition strncpy :: "nat \<Rightarrow> string \<Rightarrow> string" where
  "strncpy n txt = take n txt @ replicate (n - length txt) (CHR 0x00)"

lemma length_strncpy [simp]: "length (strncpy n txt) = n"
  by (simp add: strncpy_def)

lemma c_string_no_nul: "CHR 0x00 \<notin> set (c_string b)"
  by (auto simp: c_string_def dest: set_takeWhileD)

lemma c_string_prefix: "take (length (c_string b)) b = c_string b"
  by (simp add: c_string_def takeWhile_eq_take [symmetric])

lemma c_string_strncpy:
  assumes "CHR 0x00 \<notin> set xs" and "CHR 0x00 \<notin> set txt"
  shows "c_string (xs @ strncpy n txt @ [CHR 0x00]) = xs @ take n txt"
proof -
  have no: "CHR 0x00 \<notin> set (xs @ take n txt)" using assms by (auto dest: in_set_takeD)
  show ?thesis
  proof (cases "n - length txt")
    case 0
    then show ?thesis using c_string_terminated [OF no, of "[]"] by (simp add: strncpy_def)
  next
    case (Suc k)
    then show ?thesis using c_string_terminated [OF no] by (simp add: strncpy_def)
  qed
qed

end
