(* ===== verification/Crc32.thy ===== *)
theory Crc32
  imports Prelude
begin

text \<open>
  The checksum component (\<open>include/safeedge/safety/crc32.hpp\<close>,
  \<open>src/safety/crc32.cpp\<close>): CRC-32/AUTOSAR, byte at a time over a table of 256
  remainders.  The object is its running remainder.
\<close>

section \<open>Model\<close>

definition kPolynomial :: u32 where
  "kPolynomial = 0xF4ACFB13"

definition kReflectedPolynomial :: u32 where
  "kReflectedPolynomial = 0xC8DF352F"

definition kInitial :: u32 where
  "kInitial = 0xFFFFFFFF"

definition kFinalXor :: u32 where
  "kFinalXor = 0xFFFFFFFF"

definition kCheckValue :: u32 where
  "kCheckValue = 0x1697D06A"

record crc32 =
  crc_state :: u32

definition new_crc32 :: crc32 where
  "new_crc32 = \<lparr>crc_state = kInitial\<rparr>"

text \<open>One turn of the inner loop of \<open>buildTable\<close>, and its eight turns.\<close>

definition table_bit :: "u32 \<Rightarrow> u32" where
  "table_bit remainder =
     (if remainder AND 1 \<noteq> 0 then drop_bit 1 remainder XOR kReflectedPolynomial
      else drop_bit 1 remainder)"

definition buildTable :: "u32 list" where
  "buildTable = map (\<lambda>index. (table_bit ^^ 8) (word_of_nat index)) [0..<256]"

definition update_byte :: "crc32 \<Rightarrow> u8 \<Rightarrow> crc32" where
  "update_byte crc byte =
     (let index = (ucast (crc_state crc XOR ucast byte) :: u8)
      in crc\<lparr>crc_state := drop_bit 8 (crc_state crc) XOR buildTable ! unat index\<rparr>)"

fun update_span :: "crc32 \<Rightarrow> u8 list \<Rightarrow> crc32" where
  "update_span crc [] = crc"
| "update_span crc (byte # data) = update_span (update_byte crc byte) data"

definition update_u16 :: "crc32 \<Rightarrow> u16 \<Rightarrow> crc32" where
  "update_u16 crc value =
     update_byte (update_byte crc (ucast (value AND 0xFF)))
       (ucast (drop_bit 8 value AND 0xFF))"

definition update_u32 :: "crc32 \<Rightarrow> u32 \<Rightarrow> crc32" where
  "update_u32 crc value =
     update_byte (update_byte (update_byte (update_byte crc
       (ucast (value AND 0xFF)))
       (ucast (drop_bit 8 value AND 0xFF)))
       (ucast (drop_bit 16 value AND 0xFF)))
       (ucast (drop_bit 24 value AND 0xFF))"

definition crc_value :: "crc32 \<Rightarrow> u32" where
  "crc_value crc = crc_state crc XOR kFinalXor"

definition crc_reset :: "crc32 \<Rightarrow> crc32" where
  "crc_reset crc = crc\<lparr>crc_state := kInitial\<rparr>"

definition compute :: "u8 list \<Rightarrow> u32" where
  "compute data = crc_value (update_span new_crc32 data)"

section \<open>The shift register behind the table\<close>

lemma and_1_iff: "(w AND 1 \<noteq> 0) = bit w 0" for w :: u32
  by (simp add: bit_0 and_one_eq odd_iff_mod_2_eq_one mod2_eq_if)

lemma table_bit_xor: "table_bit (x XOR y) = table_bit x XOR table_bit y"
  unfolding table_bit_def and_1_iff
  by (rule bit_eqI) (auto simp: bit_simps)

lemma table_bit_funpow_xor: "(table_bit ^^ n) (x XOR y) = (table_bit ^^ n) x XOR (table_bit ^^ n) y"
  by (induction n) (simp_all add: table_bit_xor)

lemma table_bit_even: "\<not> bit x 0 \<Longrightarrow> table_bit x = drop_bit 1 x"
  by (simp add: table_bit_def and_1_iff)

lemma bit_polynomial_31: "bit kReflectedPolynomial 31"
  by (simp add: kReflectedPolynomial_def)

text \<open>The top bit of the polynomial tells afterwards whether it was applied.\<close>

lemma bit_table_bit_31: "bit (table_bit x) 31 = bit x 0"
proof -
  have "\<not> bit x 32"
    by (simp add: impossible_bit)
  then show ?thesis
    by (simp add: table_bit_def and_1_iff bit_simps bit_polynomial_31)
qed

lemma inj_table_bit: "inj table_bit"
proof (rule injI)
  fix x y :: u32
  assume eq: "table_bit x = table_bit y"
  then have low: "bit x 0 = bit y 0"
    by (metis bit_table_bit_31)
  have "drop_bit 1 x = drop_bit 1 y"
    using eq low by (cases "bit x 0") (simp_all add: table_bit_def and_1_iff)
  then have "bit x (Suc n) = bit y (Suc n)" for n
    by (metis bit_drop_bit_eq comp_apply plus_1_eq_Suc)
  with low have "bit x n = bit y n" for n
    by (cases n) auto
  then show "x = y"
    by (simp add: bit_eq_iff)
qed

lemma table_bit_funpow_inj: "(table_bit ^^ n) x = (table_bit ^^ n) y \<Longrightarrow> x = y"
  by (induction n) (auto dest: injD [OF inj_table_bit])

lemma table_bit_funpow_eq_iff: "(table_bit ^^ n) x = (table_bit ^^ n) y \<longleftrightarrow> x = y"
  by (auto dest: table_bit_funpow_inj)

text \<open>Zero low bits are shifted out and leave no trace.\<close>

lemma table_bit_funpow_drop:
  "(\<And>i. i < n \<Longrightarrow> \<not> bit x i) \<Longrightarrow> (table_bit ^^ n) x = drop_bit n x"
proof (induction n)
  case (Suc n)
  then have "(table_bit ^^ n) x = drop_bit n x" and "\<not> bit (drop_bit n x) 0"
    by (simp_all add: bit_drop_bit_eq)
  then show ?case
    by (simp add: table_bit_even)
qed simp

lemma table_bit_funpow_push:
  assumes "take_bit 24 w = w"
  shows "(table_bit ^^ 8) (push_bit 8 w) = w"
proof -
  have "(table_bit ^^ 8) (push_bit 8 w) = drop_bit 8 (push_bit 8 w)"
    by (rule table_bit_funpow_drop) (simp add: bit_simps)
  also have "\<dots> = take_bit 24 w"
    by (rule bit_eqI) (auto simp: bit_simps)
  finally show ?thesis using assms by simp
qed

text \<open>The table holds eight shifts of every byte.\<close>

lemma buildTable_nth: "i < 256 \<Longrightarrow> buildTable ! i = (table_bit ^^ 8) (word_of_nat i)"
  by (simp add: buildTable_def)

lemma length_buildTable: "length buildTable = 256"
  by (simp add: buildTable_def)

text \<open>One table step is eight shifts of the register with the byte mixed in.\<close>

lemma crc_state_update_byte:
  "crc_state (update_byte crc b) = (table_bit ^^ 8) (crc_state crc XOR ucast b)"
proof -
  let ?v = "crc_state crc XOR ucast b"
  let ?hi = "push_bit 8 (drop_bit 8 ?v)"
  have split: "?v = ?hi XOR take_bit 8 ?v"
    by (rule bit_eqI) (auto simp: bit_simps)
  have "(table_bit ^^ 8) ?v = (table_bit ^^ 8) ?hi XOR (table_bit ^^ 8) (take_bit 8 ?v)"
    by (subst split) (rule table_bit_funpow_xor)
  also have "(table_bit ^^ 8) ?hi = drop_bit 8 (crc_state crc)"
  proof -
    have "(table_bit ^^ 8) ?hi = drop_bit 8 ?hi"
      by (rule table_bit_funpow_drop) (simp add: bit_simps)
    also have "\<dots> = drop_bit 8 (crc_state crc)"
      by (rule bit_eqI) (auto simp: bit_simps dest: bit_imp_le_length)
    finally show ?thesis .
  qed
  also have "(table_bit ^^ 8) (take_bit 8 ?v) = buildTable ! unat (ucast ?v :: u8)"
  proof -
    have "unat (ucast ?v :: u8) < 256"
      using unsigned_less [of "ucast ?v :: u8", where 'a = nat] by simp
    then have "buildTable ! unat (ucast ?v :: u8) = (table_bit ^^ 8) (word_of_nat (unat (ucast ?v :: u8)))"
      by (rule buildTable_nth)
    also have "word_of_nat (unat (ucast ?v :: u8)) = take_bit 8 ?v"
      by (rule bit_eqI) (auto simp: bit_simps)
    finally show ?thesis ..
  qed
  finally show ?thesis
    by (simp add: update_byte_def Let_def)
qed

text \<open>Up to four bytes enter the register as one little-endian word.\<close>

fun le_word :: "u8 list \<Rightarrow> u32" where
  "le_word [] = 0"
| "le_word (b # bs) = ucast b XOR push_bit 8 (le_word bs)"

lemma bit_le_word:
  "bit (le_word bs) i \<longleftrightarrow> i < 32 \<and> i < 8 * length bs \<and> bit (bs ! (i div 8)) (i mod 8)"
proof (induction bs arbitrary: i)
  case (Cons b bs)
  have high: "\<not> bit b i" if "8 \<le> i"
    using that by (simp add: impossible_bit)
  show ?case
  proof (cases "i < 8")
    case True
    then show ?thesis by (auto simp: bit_simps)
  next
    case False
    then obtain j where j: "i = 8 + j"
      by (metis le_Suc_ex not_less)
    have "(8 + j) div 8 = Suc (j div 8)"
      by simp
    then show ?thesis
      using Cons.IH [of j] high j by (auto simp: bit_simps)
  qed
qed simp

lemma le_word_inject:
  assumes "length xs = length ys" and "length xs \<le> 4" and "le_word xs = le_word ys"
  shows "xs = ys"
proof (rule nth_equalityI)
  fix k assume k: "k < length xs"
  show "xs ! k = ys ! k"
  proof (rule bit_eqI)
    fix n assume "possible_bit TYPE(u8) n"
    then have n: "n < 8" by simp
    let ?i = "8 * k + n"
    have "bit (le_word xs) ?i = bit (le_word ys) ?i"
      using assms(3) by simp
    moreover have "?i div 8 = k" "?i mod 8 = n" "?i < 8 * length xs" "?i < 32"
      using n k assms(2) by auto
    ultimately show "bit (xs ! k) n = bit (ys ! k) n"
      using assms(1) by (simp add: bit_le_word)
  qed
qed (rule assms(1))

lemma take_bit_le_word: "length bs \<le> 3 \<Longrightarrow> take_bit 24 (le_word bs) = le_word bs"
  by (rule bit_eqI) (auto simp: bit_simps bit_le_word)

lemma crc_state_update_span:
  "length bs \<le> 4 \<Longrightarrow>
   crc_state (update_span crc bs) = (table_bit ^^ (8 * length bs)) (crc_state crc XOR le_word bs)"
proof (induction bs arbitrary: crc)
  case (Cons b bs)
  have "crc_state (update_span crc (b # bs))
      = (table_bit ^^ (8 * length bs)) ((table_bit ^^ 8) (crc_state crc XOR ucast b) XOR le_word bs)"
    using Cons by (simp add: crc_state_update_byte)
  also have "le_word bs = (table_bit ^^ 8) (push_bit 8 (le_word bs))"
    using Cons.prems by (simp add: table_bit_funpow_push take_bit_le_word)
  also have "(table_bit ^^ 8) (crc_state crc XOR ucast b) XOR (table_bit ^^ 8) (push_bit 8 (le_word bs))
      = (table_bit ^^ 8) (crc_state crc XOR le_word (b # bs))"
    by (simp add: xor.assoc flip: table_bit_funpow_xor)
  finally show ?case
    by (simp add: funpow_add add.commute [of 8])
qed simp

section \<open>The contract of a burst-detecting checksum\<close>

text \<open>
  What the black channel relies on: the checksum is computed by feeding bytes one
  after another, no two running states merge, and a window of at most four bytes
  is mapped injectively.  Any corruption confined to such a window is then
  detected, whatever surrounds it.
\<close>

locale burst_checksum =
  fixes start :: 's
    and feed :: "'s \<Rightarrow> u8 list \<Rightarrow> 's"
    and result :: "'s \<Rightarrow> u32"
  assumes feed_append: "feed s (xs @ ys) = feed (feed s xs) ys"
    and feed_state_inject: "feed s xs = feed t xs \<Longrightarrow> s = t"
    and feed_window_inject:
      "length xs = length ys \<Longrightarrow> length xs \<le> 4 \<Longrightarrow> feed s xs = feed s ys \<Longrightarrow> xs = ys"
    and result_inject: "result s = result t \<Longrightarrow> s = t"
begin

lemma burst_detected:
  assumes "length xs = length ys" and "length xs \<le> 4" and "xs \<noteq> ys"
  shows "result (feed start (pre @ xs @ post)) \<noteq> result (feed start (pre @ ys @ post))"
proof
  assume "result (feed start (pre @ xs @ post)) = result (feed start (pre @ ys @ post))"
  then have "feed start (pre @ xs @ post) = feed start (pre @ ys @ post)"
    by (rule result_inject)
  then have "feed (feed (feed start pre) xs) post = feed (feed (feed start pre) ys) post"
    by (simp add: feed_append)
  then have "feed (feed start pre) xs = feed (feed start pre) ys"
    by (rule feed_state_inject)
  with assms(1,2) have "xs = ys"
    by (rule feed_window_inject)
  with assms(3) show False ..
qed

end

lemma update_span_append: "update_span crc (xs @ ys) = update_span (update_span crc xs) ys"
  by (induction xs arbitrary: crc) auto

lemma update_byte_inject: "update_byte c b = update_byte d b \<Longrightarrow> c = d"
proof -
  assume "update_byte c b = update_byte d b"
  then have "crc_state (update_byte c b) = crc_state (update_byte d b)"
    by simp
  then have "crc_state c XOR ucast b = crc_state d XOR ucast b"
    unfolding crc_state_update_byte by (rule table_bit_funpow_inj)
  then show "c = d" by simp
qed

lemma update_span_inject: "update_span c xs = update_span d xs \<Longrightarrow> c = d"
  by (induction xs arbitrary: c d) (auto dest: update_byte_inject)

lemma update_span_window:
  assumes "length xs = length ys" and "length xs \<le> 4" and "update_span c xs = update_span c ys"
  shows "xs = ys"
proof -
  have "crc_state (update_span c xs) = crc_state (update_span c ys)"
    using assms(3) by simp
  then have "(table_bit ^^ (8 * length ys)) (crc_state c XOR le_word xs)
      = (table_bit ^^ (8 * length ys)) (crc_state c XOR le_word ys)"
    using assms(1,2) by (simp add: crc_state_update_span)
  then have "crc_state c XOR le_word xs = crc_state c XOR le_word ys"
    by (rule table_bit_funpow_inj)
  then show ?thesis
    using assms(1,2) by (simp add: le_word_inject)
qed

lemma crc_value_inject: "crc_value c = crc_value d \<Longrightarrow> c = d"
  by (simp add: crc_value_def)

interpretation crc: burst_checksum new_crc32 update_span crc_value
  by unfold_locales
    (fact update_span_append update_span_inject update_span_window crc_value_inject)+

section \<open>Reference definition\<close>

text \<open>
  The bit-serial form of the code's register: one shift per message bit, least
  significant bit of a byte first.
\<close>

fun bitwise_crc :: "u32 \<Rightarrow> bool list \<Rightarrow> u32" where
  "bitwise_crc r [] = r"
| "bitwise_crc r (b # bs) = bitwise_crc (table_bit (r XOR of_bool b)) bs"

definition byte_bits :: "u8 \<Rightarrow> bool list" where
  "byte_bits b = map (bit b) [0..<8]"

text \<open>
  The catalogue definition of CRC-32/AUTOSAR, free of the reflected arithmetic of
  the code: polynomial division with the most significant coefficient first, by
  the unreflected polynomial; input bytes and the final remainder are reflected.
\<close>

fun poly_remainder :: "u32 \<Rightarrow> bool list \<Rightarrow> u32" where
  "poly_remainder r [] = r"
| "poly_remainder r (b # bs) =
     poly_remainder (if bit r 31 \<noteq> b then (2 * r) XOR kPolynomial else 2 * r) bs"

definition reflect :: "u32 \<Rightarrow> u32" where
  "reflect w = horner_sum of_bool 2 (rev (map (bit w) [0..<32]))"

definition crc_reference :: "u8 list \<Rightarrow> u32" where
  "crc_reference data =
     reflect (poly_remainder 0xFFFFFFFF (concat (map byte_bits data))) XOR 0xFFFFFFFF"

lemma bit_reflect: "bit (reflect w) i \<longleftrightarrow> i < 32 \<and> bit w (31 - i)"
  by (auto simp: reflect_def bit_horner_sum_bit_word_iff rev_nth simp del: upt_rec_numeral)

lemma reflect_reflect [simp]: "reflect (reflect w) = w"
  by (rule bit_eqI) (auto simp: bit_reflect)

lemma reflect_xor: "reflect (x XOR y) = reflect x XOR reflect y"
  by (rule bit_eqI) (auto simp: bit_reflect bit_xor_iff)

lemma reflect_double: "reflect (2 * w) = drop_bit 1 (reflect w)"
proof (rule bit_eqI)
  fix i
  show "bit (reflect (2 * w)) i = bit (drop_bit 1 (reflect w)) i"
    by (cases "i < 31") (auto simp: bit_reflect bit_simps Suc_diff_Suc not_less le_less_Suc_eq)
qed

lemma reflect_polynomial: "reflect kPolynomial = kReflectedPolynomial"
  by (simp add: reflect_def kPolynomial_def kReflectedPolynomial_def upt_rec)

lemma drop_bit_of_bool: "drop_bit 1 (w XOR of_bool b) = drop_bit 1 w" for w :: u32
  by (rule bit_eqI) (auto simp: bit_simps)

lemma table_bit_reflect:
  "table_bit (reflect r XOR of_bool b) =
   reflect (if bit r 31 \<noteq> b then (2 * r) XOR kPolynomial else 2 * r)"
proof -
  have "bit (reflect r XOR of_bool b) 0 = (bit r 31 \<noteq> b)"
    by (simp add: bit_simps bit_reflect)
  then show ?thesis
    by (simp add: table_bit_def and_1_iff reflect_xor reflect_double reflect_polynomial
        drop_bit_of_bool)
qed

lemma bitwise_crc_reflect: "bitwise_crc (reflect r) bs = reflect (poly_remainder r bs)"
  by (induction bs arbitrary: r) (simp_all only: bitwise_crc.simps poly_remainder.simps table_bit_reflect)

lemma table_bit_double: "take_bit 31 w = w \<Longrightarrow> table_bit (2 * w) = w"
proof -
  assume w: "take_bit 31 w = w"
  have "table_bit (2 * w) = drop_bit 1 (2 * w)"
    by (rule table_bit_even) (simp add: bit_double_iff)
  also have "\<dots> = take_bit 31 w"
    by (rule bit_eqI) (auto simp: bit_simps)
  finally show ?thesis using w by simp
qed

lemma bitwise_crc_funpow:
  "length bs \<le> 31 \<Longrightarrow>
   bitwise_crc r bs = (table_bit ^^ length bs) (r XOR horner_sum of_bool 2 bs)"
proof (induction bs arbitrary: r)
  case (Cons b bs)
  let ?w = "horner_sum of_bool 2 bs :: u32"
  have "take_bit 31 ?w = ?w"
    using Cons.prems by (intro bit_eqI) (auto simp: bit_simps bit_horner_sum_bit_word_iff)
  then have w: "table_bit (2 * ?w) = ?w"
    by (rule table_bit_double)
  have "of_bool b + 2 * ?w = of_bool b XOR 2 * ?w"
    by (rule disjunctive_add_eq_xor) (rule bit_eqI, auto simp: bit_simps)
  then have horner: "horner_sum of_bool 2 (b # bs) = of_bool b XOR 2 * ?w"
    by simp
  have "bitwise_crc r (b # bs) = (table_bit ^^ length bs) (table_bit (r XOR of_bool b) XOR ?w)"
    using Cons by simp
  also have "table_bit (r XOR of_bool b) XOR ?w = table_bit (r XOR horner_sum of_bool 2 (b # bs))"
    by (simp only: horner w table_bit_xor xor.assoc)
  finally show ?case
    by (simp add: funpow_swap1)
qed simp

lemma bitwise_crc_byte: "bitwise_crc r (byte_bits b) = (table_bit ^^ 8) (r XOR ucast b)"
proof -
  have "horner_sum of_bool 2 (byte_bits b) = (ucast b :: u32)"
    using bit_imp_le_length [of b]
    by (intro bit_eqI) (auto simp: bit_horner_sum_bit_word_iff bit_unsigned_iff byte_bits_def)
  then show ?thesis
    by (simp add: bitwise_crc_funpow byte_bits_def)
qed

lemma bitwise_crc_append: "bitwise_crc r (xs @ ys) = bitwise_crc (bitwise_crc r xs) ys"
  by (induction xs arbitrary: r) auto

lemma update_span_bitwise:
  "crc_state (update_span crc data) = bitwise_crc (crc_state crc) (concat (map byte_bits data))"
  by (induction data arbitrary: crc)
    (simp_all add: bitwise_crc_append bitwise_crc_byte crc_state_update_byte)

lemma update_u16_span: "update_u16 crc v = update_span crc [ucast v, ucast (drop_bit 8 v)]"
  by (simp add: update_u16_def ucast_and_FF)

lemma update_u32_span:
  "update_u32 crc v =
   update_span crc [ucast v, ucast (drop_bit 8 v), ucast (drop_bit 16 v), ucast (drop_bit 24 v)]"
  by (simp add: update_u32_def ucast_and_FF)

section \<open>Parity\<close>

text \<open>
  The polynomial has an even number of terms, so a shift keeps the parity of the
  register: the parity of a checksum is a function of the parity of its message.
\<close>

fun bits_parity :: "bool list \<Rightarrow> bool" where
  "bits_parity [] = False"
| "bits_parity (b # bs) = (b \<noteq> bits_parity bs)"

definition odd_ones :: "'a::len word \<Rightarrow> bool" where
  "odd_ones w = bits_parity (map (bit w) [0..<LENGTH('a)])"

lemma bits_parity_append: "bits_parity (xs @ ys) = (bits_parity xs \<noteq> bits_parity ys)"
  by (induction xs) auto

lemma bits_parity_xor: "bits_parity (map (\<lambda>i. f i \<noteq> g i) is) = (bits_parity (map f is) \<noteq> bits_parity (map g is))"
  by (induction "is") auto

lemma odd_ones_xor: "odd_ones (x XOR y) = (odd_ones x \<noteq> odd_ones y)"
proof -
  have "bit (x XOR y) = (\<lambda>i. bit x i \<noteq> bit y i)"
    by (rule ext) (simp add: bit_xor_iff)
  then show ?thesis
    by (simp only: odd_ones_def bits_parity_xor)
qed

lemma bits_parity_shift:
  "bits_parity (map (\<lambda>i. f (Suc i)) [0..<n]) = (bits_parity (map f [0..<n]) \<noteq> (f 0 \<noteq> f n))"
  by (induction n) (auto simp: bits_parity_append)

lemma odd_ones_drop_bit: "odd_ones (drop_bit 1 w) = (odd_ones w \<noteq> bit w 0)" for w :: u32
proof -
  have "\<not> bit w 32"
    by (simp add: impossible_bit)
  moreover have "bit (drop_bit 1 w) = (\<lambda>i. bit w (Suc i))"
    by (rule ext) (simp add: bit_drop_bit_eq)
  ultimately show ?thesis
    using bits_parity_shift [of "bit w" "LENGTH(32)"] by (simp add: odd_ones_def del: upt_rec_numeral)
qed

lemma odd_ones_polynomial: "odd_ones kReflectedPolynomial"
  by (simp add: odd_ones_def kReflectedPolynomial_def upt_rec)

lemma odd_ones_table_bit: "odd_ones (table_bit r) = odd_ones r"
  by (auto simp: table_bit_def and_1_iff odd_ones_drop_bit odd_ones_xor odd_ones_polynomial
      simp flip: One_nat_def)

lemma odd_ones_of_bool: "odd_ones (of_bool b :: u32) = b"
  by (cases b) (simp_all add: odd_ones_def upt_rec)

lemma odd_ones_bitwise_crc: "odd_ones (bitwise_crc r bs) = (odd_ones r \<noteq> bits_parity bs)"
  by (induction bs arbitrary: r) (auto simp: odd_ones_table_bit odd_ones_xor odd_ones_of_bool)

definition data_parity :: "u8 list \<Rightarrow> bool" where
  "data_parity data = bits_parity (concat (map byte_bits data))"

lemma data_parity_simps [simp]:
  "data_parity [] = False"
  "data_parity (b # bs) = (odd_ones b \<noteq> data_parity bs)"
  by (simp_all add: data_parity_def bits_parity_append byte_bits_def odd_ones_def)

lemma data_parity_append [simp]: "data_parity (xs @ ys) = (data_parity xs \<noteq> data_parity ys)"
  by (induction xs) auto

lemma odd_ones_crc: "odd_ones (crc_state (update_span crc data)) = (odd_ones (crc_state crc) \<noteq> data_parity data)"
  by (simp add: update_span_bitwise odd_ones_bitwise_crc data_parity_def)

section \<open>Few bit errors\<close>

text \<open>
  The register is linear in state and message, so what decides whether an error
  pattern goes unnoticed is the register run on the pattern alone.  Two single
  bits cancel only at a distance at which the register returns to where it was,
  which it does not do within the length of a telegram (648 bits with address and
  checksum).
\<close>

definition weight :: "bool list \<Rightarrow> nat" where
  "weight bs = length (filter id bs)"

lemma weight_simps [simp]:
  "weight [] = 0"
  "weight (b # bs) = of_bool b + weight bs"
  "weight (xs @ ys) = weight xs + weight ys"
  by (simp_all add: weight_def)

lemma bits_parity_weight: "bits_parity bs = odd (weight bs)"
  by (induction bs) auto

fun xor_bits :: "bool list \<Rightarrow> bool list \<Rightarrow> bool list" where
  "xor_bits (b # bs) (c # cs) = (b \<noteq> c) # xor_bits bs cs"
| "xor_bits _ _ = []"

lemma length_xor_bits [simp]: "length (xor_bits bs cs) = min (length bs) (length cs)"
  by (induction bs cs rule: xor_bits.induct) auto

lemma xor_bits_append:
  "length bs = length bs' \<Longrightarrow> xor_bits (bs @ cs) (bs' @ cs') = xor_bits bs bs' @ xor_bits cs cs'"
  by (induction bs bs' rule: list_induct2) auto

lemma weight_xor_bits_same [simp]: "weight (xor_bits bs bs) = 0"
  by (induction bs) auto

definition diff_bits :: "u8 list \<Rightarrow> u8 list \<Rightarrow> bool list" where
  "diff_bits xs ys = xor_bits (concat (map byte_bits xs)) (concat (map byte_bits ys))"

definition bit_errors :: "u8 list \<Rightarrow> u8 list \<Rightarrow> nat" where
  "bit_errors xs ys = weight (diff_bits xs ys)"

lemma length_byte_bits [simp]: "length (byte_bits b) = 8"
  by (simp add: byte_bits_def)

lemma length_concat_byte_bits [simp]: "length (concat (map byte_bits xs)) = 8 * length xs"
  by (induction xs) simp_all

lemma length_diff_bits: "length xs = length ys \<Longrightarrow> length (diff_bits xs ys) = 8 * length ys"
  by (simp add: diff_bits_def)

lemma diff_bits_append:
  "length xs = length xs' \<Longrightarrow> diff_bits (xs @ ys) (xs' @ ys') = diff_bits xs xs' @ diff_bits ys ys'"
  by (simp add: diff_bits_def xor_bits_append)

lemma bit_errors_append:
  "length xs = length xs' \<Longrightarrow> bit_errors (xs @ ys) (xs' @ ys') = bit_errors xs xs' + bit_errors ys ys'"
  by (simp add: bit_errors_def diff_bits_append)

lemma bit_errors_same [simp]: "bit_errors xs xs = 0"
  by (simp add: bit_errors_def diff_bits_def)

lemma of_bool_neq_xor: "(of_bool (a \<noteq> b) :: u32) = of_bool a XOR of_bool b"
  by auto

lemma bitwise_crc_linear:
  "length bs = length cs \<Longrightarrow>
   bitwise_crc (r XOR q) (xor_bits bs cs) = bitwise_crc r bs XOR bitwise_crc q cs"
proof (induction bs cs arbitrary: r q rule: list_induct2)
  case (Cons b bs c cs)
  have "table_bit ((r XOR q) XOR of_bool (b \<noteq> c))
      = table_bit (r XOR of_bool b) XOR table_bit (q XOR of_bool c)"
    by (simp only: of_bool_neq_xor table_bit_xor ac_simps)
  then show ?case
    by (simp only: xor_bits.simps bitwise_crc.simps Cons.IH)
qed simp

lemma update_span_diff:
  assumes "length xs = length ys"
  shows "bitwise_crc 0 (diff_bits xs ys) = crc_state (update_span c xs) XOR crc_state (update_span c ys)"
  using bitwise_crc_linear [of "concat (map byte_bits xs)" "concat (map byte_bits ys)"
      "crc_state c" "crc_state c"] assms
  by (simp add: diff_bits_def update_span_bitwise)

fun orbit_avoids :: "nat \<Rightarrow> u32 \<Rightarrow> bool" where
  "orbit_avoids 0 x = True"
| "orbit_avoids (Suc n) x = (x \<noteq> 1 \<and> orbit_avoids n (table_bit x))"

lemma orbit_avoids_numeral:
  "orbit_avoids (numeral k) x = (x \<noteq> 1 \<and> orbit_avoids (pred_numeral k) (table_bit x))"
  by (simp add: numeral_eq_Suc)

lemma orbit_avoidsD: "orbit_avoids n x \<Longrightarrow> m < n \<Longrightarrow> (table_bit ^^ m) x \<noteq> 1"
  by (induction n arbitrary: x m) (auto simp: less_Suc_eq_0_disj funpow_swap1)

lemma orbit_telegram: "orbit_avoids 647 (table_bit 1)"
  by (simp add: orbit_avoids_numeral table_bit_def kReflectedPolynomial_def)

lemma table_bit_0 [simp]: "table_bit 0 = 0"
  by (simp add: table_bit_def)

lemma table_bit_funpow_0: "(table_bit ^^ n) x = 0 \<Longrightarrow> x = 0"
proof -
  have "(table_bit ^^ n) 0 = 0" by (induction n) simp_all
  then show "(table_bit ^^ n) x = 0 \<Longrightarrow> x = 0"
    using table_bit_funpow_inj [of n x 0] by simp
qed

lemma bitwise_crc_weight_0: "weight e = 0 \<Longrightarrow> bitwise_crc r e = (table_bit ^^ length e) r"
  by (induction e arbitrary: r) (simp_all add: funpow_swap1)

lemma bitwise_crc_weight_1:
  "weight e = 1 \<Longrightarrow> Suc m + length e \<le> 648 \<Longrightarrow> bitwise_crc ((table_bit ^^ m) (table_bit 1)) e \<noteq> 0"
proof (induction e arbitrary: m)
  case (Cons b bs)
  show ?case
  proof (cases b)
    case True
    have "(table_bit ^^ m) (table_bit 1) \<noteq> 1"
      using orbit_avoidsD [OF orbit_telegram, of m] Cons.prems by simp
    then have "(table_bit ^^ m) (table_bit 1) XOR 1 \<noteq> 0"
      using xor_right_cancel [of _ 1 1] by (metis xor_self_eq)
    moreover have "weight bs = 0" using True Cons.prems by simp
    ultimately show ?thesis
      using True table_bit_funpow_0 [of "Suc (length bs)"]
      by (auto simp: bitwise_crc_weight_0 funpow_swap1)
  next
    case False
    then show ?thesis
      using Cons.IH [of "Suc m"] Cons.prems by simp
  qed
qed simp

lemma bitwise_crc_weight_2:
  "weight e = 2 \<Longrightarrow> length e \<le> 648 \<Longrightarrow> bitwise_crc 0 e \<noteq> 0"
proof (induction e)
  case (Cons b bs)
  then show ?case
    using bitwise_crc_weight_1 [of bs 0] by (cases b) simp_all
qed simp

lemma few_errors_nonzero:
  assumes "1 \<le> weight e" and "weight e \<le> 3" and "length e \<le> 648"
  shows "bitwise_crc 0 e \<noteq> 0"
proof (cases "weight e = 2")
  case True
  then show ?thesis using bitwise_crc_weight_2 assms(3) by blast
next
  case False
  then have "odd (weight e)" using assms(1,2) by presburger
  then have "odd_ones (bitwise_crc 0 e) \<noteq> odd_ones (0 :: u32)"
    by (simp add: odd_ones_bitwise_crc bits_parity_weight)
  then show ?thesis by auto
qed

section \<open>Properties\<close>

text \<open>
  C25. The table-driven, byte-at-a-time checksum is the catalogue CRC-32/AUTOSAR on
  every message: most-significant-first division by the polynomial 0xF4ACFB13
  with reflected input and output, initial value and final XOR all ones.
\<close>

theorem compute_is_reference: "compute data = crc_reference data"
proof -
  have "reflect 0xFFFFFFFF = 0xFFFFFFFF"
    by (simp add: reflect_def upt_rec)
  then show ?thesis
    using bitwise_crc_reflect [of "0xFFFFFFFF"]
    by (simp add: compute_def crc_value_def crc_reference_def update_span_bitwise new_crc32_def
        kInitial_def kFinalXor_def)
qed

text \<open>Evaluation of the checksum on concrete bytes, through the register.\<close>

lemma table_bit_8:
  "(table_bit ^^ 8) r =
   table_bit (table_bit (table_bit (table_bit (table_bit (table_bit (table_bit (table_bit r)))))))"
  by (simp add: numeral_eq_Suc)

lemmas crc_eval = crc_state_update_byte table_bit_8 table_bit_def kReflectedPolynomial_def
  kInitial_def kFinalXor_def new_crc32_def crc_value_def

lemma check_value: "compute [0x31, 0x32, 0x33, 0x34, 0x35, 0x36, 0x37, 0x38, 0x39] = kCheckValue"
  by (simp add: compute_def crc_eval kCheckValue_def)

end
