(* ===== verification/Black_Channel.thy ===== *)
theory Black_Channel
  imports Crc32
begin

text \<open>
  The black channel (\<open>include/safeedge/safety/black_channel.hpp\<close>,
  \<open>src/safety/black_channel.cpp\<close>): telegram layout, sender and latching receiver.
  Spans are byte lists, the telegram's array is a list of \<open>kMaxTelegramBytes\<close>
  bytes, and reference parameters are results.  The theory shows what a receiver
  accepts, that a sender's stream is delivered across the wrap of the consecutive
  number, which corruptions and misaddressings cannot be accepted, and that a
  latched receiver stays silent until it is acknowledged.
\<close>

section \<open>Model\<close>

datatype TransmissionFault =
    TF_None | TF_Corruption | TF_UnintendedRepetition | TF_IncorrectSequence | TF_Loss
  | TF_UnacceptableDelay | TF_Insertion | TF_Masquerade | TF_AddressingError

record SafetyAddress =
  source :: u16
  destination :: u16
  parameter_signature :: u32

definition kMaxPayloadBytes :: nat where
  "kMaxPayloadBytes = 64"

definition kStatusBytes :: nat where
  "kStatusBytes = 1"

definition kConsecutiveNumberBytes :: nat where
  "kConsecutiveNumberBytes = 4"

definition kCrcBytes :: nat where
  "kCrcBytes = 4"

definition kOverheadBytes :: nat where
  "kOverheadBytes = kStatusBytes + kConsecutiveNumberBytes + kCrcBytes"

definition kMaxTelegramBytes :: nat where
  "kMaxTelegramBytes = kMaxPayloadBytes + kOverheadBytes"

lemmas size_defs = kMaxPayloadBytes_def kStatusBytes_def kConsecutiveNumberBytes_def
  kCrcBytes_def kOverheadBytes_def kMaxTelegramBytes_def

text \<open>The bits of the status byte.\<close>

definition kActivateFailSafeValues :: u8 where
  "kActivateFailSafeValues = push_bit 0 1"

definition kProducerFault :: u8 where
  "kProducerFault = push_bit 1 1"

definition kOperatorAckRequested :: u8 where
  "kOperatorAckRequested = push_bit 2 1"

record Telegram =
  bytes :: "u8 list"
  tsize :: nat

definition new_Telegram :: Telegram where
  "new_Telegram = \<lparr>bytes = replicate kMaxTelegramBytes 0, tsize = 0\<rparr>"

definition view :: "Telegram \<Rightarrow> u8 list" where
  "view t = take (tsize t) (bytes t)"

definition readUint32Le :: "u8 list \<Rightarrow> nat \<Rightarrow> u32" where
  "readUint32Le bs offset =
     ucast (bs ! offset) OR push_bit 8 (ucast (bs ! (offset + 1)))
     OR push_bit 16 (ucast (bs ! (offset + 2))) OR push_bit 24 (ucast (bs ! (offset + 3)))"

definition writeUint32Le :: "u8 list \<Rightarrow> nat \<Rightarrow> u32 \<Rightarrow> u8 list" where
  "writeUint32Le bs offset value =
     bs[offset := ucast (value AND 0xFF),
        offset + 1 := ucast (drop_bit 8 value AND 0xFF),
        offset + 2 := ucast (drop_bit 16 value AND 0xFF),
        offset + 3 := ucast (drop_bit 24 value AND 0xFF)]"

text \<open>\<open>std::copy\<close> of a whole range to the start of a destination that can hold it.\<close>

definition copy_to :: "u8 list \<Rightarrow> u8 list \<Rightarrow> u8 list" where
  "copy_to src dst = src @ drop (length src) dst"

definition computeTelegramCrc :: "SafetyAddress \<Rightarrow> u8 list \<Rightarrow> u8 \<Rightarrow> u32 \<Rightarrow> u32" where
  "computeTelegramCrc address payload status consecutive_number =
     (let crc = new_crc32;
          crc = update_span crc payload;
          crc = update_byte crc status;
          crc = update_u32 crc consecutive_number;
          crc = update_u16 crc (source address);
          crc = update_u16 crc (destination address);
          crc = update_u32 crc (parameter_signature address)
      in crc_value crc)"

record SafetySender =
  s_address :: SafetyAddress
  consecutive_number :: u32

definition new_SafetySender :: "SafetyAddress \<Rightarrow> SafetySender" where
  "new_SafetySender address = \<lparr>s_address = address, consecutive_number = 1\<rparr>"

definition restartSequence :: "SafetySender \<Rightarrow> u32 \<Rightarrow> SafetySender" where
  "restartSequence s start = s\<lparr>consecutive_number := start\<rparr>"

definition encode :: "SafetySender \<Rightarrow> u8 list \<Rightarrow> u8 \<Rightarrow> Telegram \<Rightarrow> bool \<times> SafetySender \<times> Telegram" where
  "encode s payload status out =
     (if length payload > kMaxPayloadBytes then (False, s, out)
      else
        let payload_size = length payload;
            bs = copy_to payload (bytes out);
            bs = bs[payload_size := status];
            bs = writeUint32Le bs (payload_size + kStatusBytes) (consecutive_number s);
            crc = computeTelegramCrc (s_address s) payload status (consecutive_number s);
            bs = writeUint32Le bs (payload_size + kStatusBytes + kConsecutiveNumberBytes) crc;
            next = consecutive_number s + 1;
            next = (if next = 0 then 1 else next)
        in (True, s\<lparr>consecutive_number := next\<rparr>,
            out\<lparr>bytes := bs, tsize := payload_size + kOverheadBytes\<rparr>))"

datatype ReceiveStatus =
    RS_Valid | RS_Malformed | RS_CrcMismatch | RS_Repetition | RS_SequenceGap | RS_OutOfOrder
  | RS_Timeout | RS_InSafeState

record ReceiverDiagnostics =
  accepted :: u64
  rejected_malformed :: u64
  rejected_crc :: u64
  rejected_repetition :: u64
  rejected_sequence_gap :: u64
  rejected_out_of_order :: u64
  timeouts :: u64
  telegrams_lost :: u64
  last_accepted_consecutive_number :: u32

definition new_ReceiverDiagnostics :: ReceiverDiagnostics where
  "new_ReceiverDiagnostics =
     \<lparr>accepted = 0, rejected_malformed = 0, rejected_crc = 0, rejected_repetition = 0,
      rejected_sequence_gap = 0, rejected_out_of_order = 0, timeouts = 0, telegrams_lost = 0,
      last_accepted_consecutive_number = 0\<rparr>"

record SafetyReceiver =
  r_address :: SafetyAddress
  watchdog_ns :: int
  last_valid_ns :: int
  last_consecutive_number :: u32
  synchronised :: bool
  safe_state :: bool
  last_fault :: TransmissionFault
  diagnostics :: ReceiverDiagnostics

definition new_SafetyReceiver :: "SafetyAddress \<Rightarrow> int \<Rightarrow> SafetyReceiver" where
  "new_SafetyReceiver address watchdog =
     \<lparr>r_address = address, watchdog_ns = watchdog, last_valid_ns = 0,
      last_consecutive_number = 0, synchronised = False, safe_state = False,
      last_fault = TF_None, diagnostics = new_ReceiverDiagnostics\<rparr>"

definition latch :: "TransmissionFault \<Rightarrow> SafetyReceiver \<Rightarrow> SafetyReceiver" where
  "latch fault r = r\<lparr>safe_state := True, last_fault := fault\<rparr>"

definition acknowledgeAndReset :: "SafetyReceiver \<Rightarrow> int \<Rightarrow> SafetyReceiver" where
  "acknowledgeAndReset r now_ns =
     r\<lparr>safe_state := False, last_fault := TF_None, synchronised := False,
       last_consecutive_number := 0, last_valid_ns := now_ns\<rparr>"

definition bump :: "(ReceiverDiagnostics \<Rightarrow> ReceiverDiagnostics) \<Rightarrow> SafetyReceiver \<Rightarrow> SafetyReceiver" where
  "bump f r = r\<lparr>diagnostics := f (diagnostics r)\<rparr>"

definition poll :: "SafetyReceiver \<Rightarrow> int \<Rightarrow> ReceiveStatus \<times> SafetyReceiver" where
  "poll r now_ns =
     (if safe_state r then (RS_InSafeState, r)
      else if \<not> synchronised r then (RS_Valid, r)
      else if now_ns - last_valid_ns r > watchdog_ns r
        then (RS_Timeout, latch TF_Loss (bump (timeouts_update (\<lambda>n. n + 1)) r))
      else (RS_Valid, r))"

text \<open>
  The reference parameters of \<open>receive\<close>: the caller's buffer, the payload size and
  the status byte.  The function resets the last two before it does anything else.
\<close>

record Delivery =
  payload_out :: "u8 list"
  payload_size :: nat
  status_out :: u8

definition receive ::
  "SafetyReceiver \<Rightarrow> u8 list \<Rightarrow> int \<Rightarrow> Delivery \<Rightarrow> ReceiveStatus \<times> SafetyReceiver \<times> Delivery" where
  "receive r raw now_ns d =
     (let d = d\<lparr>payload_size := 0, status_out := 0\<rparr> in
      if safe_state r then (RS_InSafeState, r, d)
      else if length raw < kOverheadBytes \<or> length raw > kMaxTelegramBytes
        then (RS_Malformed, latch TF_Corruption (bump (rejected_malformed_update (\<lambda>n. n + 1)) r), d)
      else
      let received_payload_size = length raw - kOverheadBytes in
      if received_payload_size > length (payload_out d)
        then (RS_Malformed, latch TF_Corruption (bump (rejected_malformed_update (\<lambda>n. n + 1)) r), d)
      else
      let payload = take received_payload_size raw;
          status = raw ! received_payload_size;
          cn = readUint32Le raw (received_payload_size + kStatusBytes);
          received_crc = readUint32Le raw (received_payload_size + kStatusBytes + kConsecutiveNumberBytes);
          expected_crc = computeTelegramCrc (r_address r) payload status cn in
      if received_crc \<noteq> expected_crc
        then (RS_CrcMismatch, latch TF_Corruption (bump (rejected_crc_update (\<lambda>n. n + 1)) r), d)
      else if synchronised r \<and> now_ns - last_valid_ns r > watchdog_ns r
        then (RS_Timeout, latch TF_UnacceptableDelay (bump (timeouts_update (\<lambda>n. n + 1)) r), d)
      else
      let expected = last_consecutive_number r + 1;
          expected = (if expected = 0 then 1 else expected);
          delta = sint (cn - expected) in
      if synchronised r \<and> cn \<noteq> expected \<and> cn = last_consecutive_number r
        then (RS_Repetition,
              latch TF_UnintendedRepetition (bump (rejected_repetition_update (\<lambda>n. n + 1)) r), d)
      else if synchronised r \<and> cn \<noteq> expected \<and> delta < 0
        then (RS_OutOfOrder,
              latch TF_IncorrectSequence (bump (rejected_out_of_order_update (\<lambda>n. n + 1)) r), d)
      else if synchronised r \<and> cn \<noteq> expected
        then (RS_SequenceGap,
              latch TF_Loss
                (bump (rejected_sequence_gap_update (\<lambda>n. n + 1))
                  (bump (telegrams_lost_update (\<lambda>n. n + word_of_int delta)) r)), d)
      else
        (RS_Valid,
         bump (accepted_update (\<lambda>n. n + 1) \<circ> last_accepted_consecutive_number_update (\<lambda>_. cn))
           (r\<lparr>synchronised := True, last_consecutive_number := cn, last_valid_ns := now_ns\<rparr>),
         d\<lparr>payload_out := copy_to payload (payload_out d),
           payload_size := received_payload_size, status_out := status\<rparr>))"

section \<open>The wire format\<close>

definition le32 :: "u32 \<Rightarrow> u8 list" where
  "le32 v = [ucast v, ucast (drop_bit 8 v), ucast (drop_bit 16 v), ucast (drop_bit 24 v)]"

definition address_bytes :: "SafetyAddress \<Rightarrow> u8 list" where
  "address_bytes a =
     [ucast (source a), ucast (drop_bit 8 (source a)),
      ucast (destination a), ucast (drop_bit 8 (destination a))] @ le32 (parameter_signature a)"

definition frame :: "u8 list \<Rightarrow> u8 \<Rightarrow> u32 \<Rightarrow> u32 \<Rightarrow> u8 list" where
  "frame payload status cn crc = payload @ status # le32 cn @ le32 crc"

definition wire :: "SafetyAddress \<Rightarrow> u8 list \<Rightarrow> u8 \<Rightarrow> u32 \<Rightarrow> u8 list" where
  "wire a payload status cn = frame payload status cn (computeTelegramCrc a payload status cn)"

definition next_cn :: "u32 \<Rightarrow> u32" where
  "next_cn n = (if n + 1 = 0 then 1 else n + 1)"

lemma length_le32 [simp]: "length (le32 v) = 4"
  by (simp add: le32_def)

lemma length_frame [simp]: "length (frame p s cn c) = length p + 9"
  by (simp add: frame_def)

lemma length_wire [simp]: "length (wire a p s cn) = length p + 9"
  by (simp add: wire_def)

lemma length_address_bytes [simp]: "length (address_bytes a) = 8"
  by (simp add: address_bytes_def)

lemma or_bytes:
  "ucast a OR push_bit 8 (ucast b) OR push_bit 16 (ucast c) OR push_bit 24 (ucast d) = le_word [a, b, c, d]"
  for a b c d :: u8
  by (rule bit_eqI) (auto simp: bit_simps bit_le_word nth_Cons' dest: bit_imp_le_length)

lemma le_word_le32 [simp]: "le_word (le32 v) = v"
proof (rule bit_eqI)
  fix i assume "possible_bit TYPE(u32) i"
  then have "i < 32" by simp
  then have "i div 8 < 4" by auto
  then consider "i div 8 = 0" | "i div 8 = 1" | "i div 8 = 2" | "i div 8 = 3"
    by linarith
  then show "bit (le_word (le32 v)) i = bit v i"
    using \<open>i < 32\<close> div_mult_mod_eq [of i 8]
    by cases (auto simp: bit_le_word le32_def bit_simps ac_simps)
qed

lemma le32_le_word: "length bs = 4 \<Longrightarrow> le32 (le_word bs) = bs"
  by (rule le_word_inject) simp_all

lemma le32_inject [simp]: "le32 v = le32 w \<longleftrightarrow> v = w"
  by (metis le_word_le32)

lemma readUint32Le_append [simp]: "readUint32Le (xs @ le32 v @ ys) (length xs) = v"
proof -
  have "readUint32Le (xs @ le32 v @ ys) (length xs) = le_word (le32 v)"
    by (simp only: readUint32Le_def or_bytes) (simp add: le32_def nth_append)
  then show ?thesis by simp
qed

lemma writeUint32Le_append:
  "length ws = 4 \<Longrightarrow> writeUint32Le (xs @ ws @ ys) (length xs) v = xs @ le32 v @ ys"
  by (auto simp: writeUint32Le_def le32_def ucast_and_FF list_update_append numeral_eq_Suc
      length_Suc_conv)

lemma frame_inject:
  "frame p s cn c = frame p' s' cn' c' \<longleftrightarrow> p = p' \<and> s = s' \<and> cn = cn' \<and> c = c'" (is "?L \<longleftrightarrow> ?R")
proof
  assume eq: ?L
  then have "length (frame p s cn c) = length (frame p' s' cn' c')" by simp
  then show ?R using eq by (simp add: frame_def)
qed simp

text \<open>Every byte string of at least nine bytes has exactly one reading as a frame.\<close>

lemma frame_exists:
  assumes "9 \<le> length raw"
  obtains p s cn c where "raw = frame p s cn c"
proof -
  let ?n = "length raw - 9"
  have "raw = take ?n raw @ drop ?n raw" by simp
  moreover have "length (drop ?n raw) = 9" using assms by simp
  then obtain s xs where xs: "drop ?n raw = s # xs" "length xs = 8"
    by (cases "drop ?n raw") auto
  moreover have "xs = take 4 xs @ drop 4 xs" by simp
  moreover have "take 4 xs = le32 (le_word (take 4 xs))" "drop 4 xs = le32 (le_word (drop 4 xs))"
    using xs(2) by (simp_all add: le32_le_word)
  ultimately have "raw = frame (take ?n raw) s (le_word (take 4 xs)) (le_word (drop 4 xs))"
    unfolding frame_def by metis
  then show ?thesis by (rule that)
qed

lemma frame_fields [simp]:
  "take (length p) (frame p s cn c) = p"
  "frame p s cn c ! length p = s"
  "readUint32Le (frame p s cn c) (Suc (length p)) = cn"
  "readUint32Le (frame p s cn c) (5 + length p) = c"
proof -
  show "take (length p) (frame p s cn c) = p" "frame p s cn c ! length p = s"
    by (simp_all add: frame_def)
  show "readUint32Le (frame p s cn c) (Suc (length p)) = cn"
    using readUint32Le_append [of "p @ [s]" cn "le32 c"] by (simp add: frame_def)
  show "readUint32Le (frame p s cn c) (5 + length p) = c"
    using readUint32Le_append [of "p @ s # le32 cn" c "[]"] by (simp add: frame_def add.commute)
qed

text \<open>The protecting checksum covers the frame's fields and then the untransmitted address.\<close>

lemma computeTelegramCrc_compute:
  "computeTelegramCrc a p s cn = compute (p @ s # le32 cn @ address_bytes a)"
  by (simp add: computeTelegramCrc_def compute_def update_u16_span update_u32_span
      update_span_append le32_def address_bytes_def)

section \<open>Sender\<close>

lemma drop_split_4: "xs = take 4 xs @ take 4 (drop 4 xs) @ drop 8 xs"
  using append_take_drop_id [of 4 "drop 4 xs"] append_take_drop_id [of 4 xs]
  by (simp add: drop_drop del: append_take_drop_id)

lemma encode_frame_bytes:
  assumes "length p \<le> 64" and "length bs = 73"
  shows "\<exists>rest. writeUint32Le (writeUint32Le ((copy_to p bs)[length p := s]) (length p + 1) cn)
           (length p + 1 + 4) c = frame p s cn c @ rest \<and> length rest = 64 - length p"
proof -
  define us where "us = drop (length p) bs"
  have "length us = 73 - length p"
    using assms by (simp add: us_def)
  define ws where "ws = take 4 (drop 1 us)"
  define vs where "vs = take 4 (drop 5 us)"
  define rest where "rest = drop 9 us"
  have us: "us = hd us # ws @ vs @ rest"
    using \<open>length us = _\<close> assms(1) unfolding ws_def vs_def rest_def
    by (cases us) (simp_all add: drop_Cons' flip: drop_split_4)
  have len: "length ws = 4" "length vs = 4" "length rest = 64 - length p"
    using \<open>length us = _\<close> assms(1) by (auto simp: ws_def vs_def rest_def)
  have "(copy_to p bs)[length p := s] = (p @ [s]) @ ws @ vs @ rest"
    unfolding copy_to_def us_def [symmetric] by (subst us) simp
  then have "writeUint32Le ((copy_to p bs)[length p := s]) (length p + 1) cn
      = (p @ s # le32 cn) @ vs @ rest"
    using writeUint32Le_append [OF len(1), of "p @ [s]" "vs @ rest" cn] by simp
  moreover have "length p + 1 + 4 = length (p @ s # le32 cn)"
    by simp
  ultimately have "writeUint32Le (writeUint32Le ((copy_to p bs)[length p := s]) (length p + 1) cn)
      (length p + 1 + 4) c = frame p s cn c @ rest"
    by (simp only: writeUint32Le_append [OF len(2)]) (simp add: frame_def)
  with len(3) show ?thesis by blast
qed

lemma encode_ok:
  assumes "length p \<le> 64" and "length (bytes out) = 73"
  obtains t where "encode s p st out = (True, s\<lparr>consecutive_number := next_cn (consecutive_number s)\<rparr>, t)"
    and "view t = wire (s_address s) p st (consecutive_number s)"
    and "length (bytes t) = 73" and "tsize t = length p + 9"
proof -
  obtain rest where rest: "writeUint32Le (writeUint32Le ((copy_to p (bytes out))[length p := st])
       (length p + 1) (consecutive_number s)) (length p + 1 + 4)
       (computeTelegramCrc (s_address s) p st (consecutive_number s))
     = wire (s_address s) p st (consecutive_number s) @ rest" "length rest = 64 - length p"
    using encode_frame_bytes [OF assms] unfolding wire_def by blast
  let ?t = "out\<lparr>bytes := wire (s_address s) p st (consecutive_number s) @ rest, tsize := length p + 9\<rparr>"
  have "encode s p st out = (True, s\<lparr>consecutive_number := next_cn (consecutive_number s)\<rparr>, ?t)"
    using assms(1) rest(1) by (simp add: encode_def Let_def size_defs next_cn_def)
  then show ?thesis
    by (rule that) (use rest(2) assms(1) in \<open>simp_all add: view_def\<close>)
qed

lemma encode_too_long: "64 < length p \<Longrightarrow> encode s p st out = (False, s, out)"
  by (simp add: encode_def size_defs)

lemma next_cn_nonzero [simp]: "next_cn n \<noteq> 0"
  by (simp add: next_cn_def)

section \<open>Receiver\<close>

lemmas rx_defs = latch_def bump_def

text \<open>\<open>receive\<close> on a byte string read as a frame.\<close>

definition reset_delivery :: "Delivery \<Rightarrow> Delivery" where
  "reset_delivery d = d\<lparr>payload_size := 0, status_out := 0\<rparr>"

definition accept :: "SafetyReceiver \<Rightarrow> int \<Rightarrow> u32 \<Rightarrow> SafetyReceiver" where
  "accept r now cn =
     bump (accepted_update (\<lambda>n. n + 1) \<circ> last_accepted_consecutive_number_update (\<lambda>_. cn))
       (r\<lparr>synchronised := True, last_consecutive_number := cn, last_valid_ns := now\<rparr>)"

definition deliver :: "Delivery \<Rightarrow> u8 list \<Rightarrow> u8 \<Rightarrow> Delivery" where
  "deliver d p s = d\<lparr>payload_out := copy_to p (payload_out d), payload_size := length p, status_out := s\<rparr>"

definition late :: "SafetyReceiver \<Rightarrow> int \<Rightarrow> bool" where
  "late r now \<longleftrightarrow> synchronised r \<and> now - last_valid_ns r > watchdog_ns r"

definition in_sequence :: "SafetyReceiver \<Rightarrow> u32 \<Rightarrow> bool" where
  "in_sequence r cn \<longleftrightarrow> (synchronised r \<longrightarrow> cn = next_cn (last_consecutive_number r))"

text \<open>The verdict on a frame, in the order of the checks.\<close>

definition verdict :: "SafetyReceiver \<Rightarrow> nat \<Rightarrow> int \<Rightarrow> u8 list \<Rightarrow> u8 \<Rightarrow> u32 \<Rightarrow> u32 \<Rightarrow> ReceiveStatus" where
  "verdict r room now p s cn c =
     (if safe_state r then RS_InSafeState
      else if length p > 64 \<or> length p > room then RS_Malformed
      else if c \<noteq> computeTelegramCrc (r_address r) p s cn then RS_CrcMismatch
      else if late r now then RS_Timeout
      else if in_sequence r cn then RS_Valid
      else if cn = last_consecutive_number r then RS_Repetition
      else if sint (cn - next_cn (last_consecutive_number r)) < 0 then RS_OutOfOrder
      else RS_SequenceGap)"

text \<open>The receiver after a verdict other than valid.\<close>

definition rejected :: "SafetyReceiver \<Rightarrow> u32 \<Rightarrow> ReceiveStatus \<Rightarrow> SafetyReceiver" where
  "rejected r cn v =
     (case v of
        RS_Malformed \<Rightarrow> latch TF_Corruption (bump (rejected_malformed_update (\<lambda>n. n + 1)) r)
      | RS_CrcMismatch \<Rightarrow> latch TF_Corruption (bump (rejected_crc_update (\<lambda>n. n + 1)) r)
      | RS_Timeout \<Rightarrow> latch TF_UnacceptableDelay (bump (timeouts_update (\<lambda>n. n + 1)) r)
      | RS_Repetition \<Rightarrow>
          latch TF_UnintendedRepetition (bump (rejected_repetition_update (\<lambda>n. n + 1)) r)
      | RS_OutOfOrder \<Rightarrow>
          latch TF_IncorrectSequence (bump (rejected_out_of_order_update (\<lambda>n. n + 1)) r)
      | RS_SequenceGap \<Rightarrow>
          latch TF_Loss (bump (rejected_sequence_gap_update (\<lambda>n. n + 1))
            (bump (telegrams_lost_update
              (\<lambda>n. n + word_of_int (sint (cn - next_cn (last_consecutive_number r))))) r))
      | _ \<Rightarrow> r)"

lemma receive_frame:
  "receive r (frame p s cn c) now d =
     (let v = verdict r (length (payload_out d)) now p s cn c in
      if v = RS_Valid then (RS_Valid, accept r now cn, deliver d p s)
      else (v, rejected r cn v, reset_delivery d))"
proof -
  let ?last = "last_consecutive_number r"
  consider "safe_state r"
    | "\<not> safe_state r" "length p > 64"
    | "\<not> safe_state r" "length p \<le> 64" "length p > length (payload_out d)"
    | "\<not> safe_state r" "length p \<le> 64" "length p \<le> length (payload_out d)"
      "c \<noteq> computeTelegramCrc (r_address r) p s cn"
    | "\<not> safe_state r" "length p \<le> 64" "length p \<le> length (payload_out d)"
      "c = computeTelegramCrc (r_address r) p s cn" "late r now"
    | "\<not> safe_state r" "length p \<le> 64" "length p \<le> length (payload_out d)"
      "c = computeTelegramCrc (r_address r) p s cn" "\<not> late r now" "in_sequence r cn"
    | "\<not> safe_state r" "length p \<le> 64" "length p \<le> length (payload_out d)"
      "c = computeTelegramCrc (r_address r) p s cn" "\<not> late r now" "synchronised r" "cn \<noteq> next_cn ?last"
    unfolding in_sequence_def by linarith
  then show ?thesis
  proof cases
    case 7
    then have "verdict r (length (payload_out d)) now p s cn c =
       (if cn = ?last then RS_Repetition
        else if sint (cn - next_cn ?last) < 0 then RS_OutOfOrder else RS_SequenceGap)"
      by (simp add: verdict_def in_sequence_def)
    with 7 show ?thesis
      by (simp add: receive_def Let_def size_defs late_def rejected_def reset_delivery_def
          flip: next_cn_def)
  qed (simp_all add: receive_def Let_def verdict_def size_defs rejected_def reset_delivery_def
      late_def accept_def deliver_def in_sequence_def flip: next_cn_def)
qed

lemma receive_short:
  "length raw < 9 \<Longrightarrow> \<not> safe_state r \<Longrightarrow>
   receive r raw now d = (RS_Malformed, rejected r 0 RS_Malformed, reset_delivery d)"
  by (simp add: receive_def size_defs rejected_def reset_delivery_def)

lemma receive_latched: "safe_state r \<Longrightarrow> receive r raw now d = (RS_InSafeState, r, reset_delivery d)"
  by (simp add: receive_def reset_delivery_def)

lemma rejected_latched:
  "v \<noteq> RS_Valid \<Longrightarrow> v \<noteq> RS_InSafeState \<Longrightarrow> safe_state (rejected r cn v)"
  by (cases v) (simp_all add: rejected_def rx_defs)

lemma rejected_simps [simp]:
  "r_address (rejected r cn v) = r_address r"
  "watchdog_ns (rejected r cn v) = watchdog_ns r"
  "last_valid_ns (rejected r cn v) = last_valid_ns r"
  "last_consecutive_number (rejected r cn v) = last_consecutive_number r"
  "synchronised (rejected r cn v) = synchronised r"
  "accepted (diagnostics (rejected r cn v)) = accepted (diagnostics r)"
  by (cases v, simp_all add: rejected_def rx_defs)+

lemma accept_simps [simp]:
  "r_address (accept r now cn) = r_address r"
  "watchdog_ns (accept r now cn) = watchdog_ns r"
  "last_valid_ns (accept r now cn) = now"
  "last_consecutive_number (accept r now cn) = cn"
  "synchronised (accept r now cn)"
  "safe_state (accept r now cn) = safe_state r"
  "last_fault (accept r now cn) = last_fault r"
  "accepted (diagnostics (accept r now cn)) = accepted (diagnostics r) + 1"
  "last_accepted_consecutive_number (diagnostics (accept r now cn)) = cn"
  by (simp_all add: accept_def rx_defs)

lemma verdict_valid_iff:
  "verdict r room now p s cn c = RS_Valid \<longleftrightarrow>
   \<not> safe_state r \<and> length p \<le> 64 \<and> length p \<le> room \<and> c = computeTelegramCrc (r_address r) p s cn
     \<and> \<not> late r now \<and> in_sequence r cn"
  by (auto simp: verdict_def)

lemma receive_wire:
  assumes "\<not> safe_state r" and "a = r_address r" and "length p \<le> 64"
    and "length p \<le> length (payload_out d)" and "\<not> late r now" and "in_sequence r cn"
  shows "receive r (wire a p s cn) now d = (RS_Valid, accept r now cn, deliver d p s)"
  using assms by (simp add: wire_def receive_frame verdict_valid_iff)

lemma receive_valid:
  assumes "receive r raw now d = (RS_Valid, r', d')"
  obtains p s cn where "raw = wire (r_address r) p s cn" and "r' = accept r now cn"
    and "d' = deliver d p s" and "\<not> safe_state r" and "length p \<le> 64"
    and "length p \<le> length (payload_out d)" and "\<not> late r now" and "in_sequence r cn"
proof -
  have "9 \<le> length raw"
    using assms receive_short [of raw r now d] receive_latched [of r raw now d]
    by (cases "safe_state r"; cases "length raw < 9") auto
  then obtain p s cn c where raw: "raw = frame p s cn c"
    by (rule frame_exists)
  then have "verdict r (length (payload_out d)) now p s cn c = RS_Valid"
    using assms by (auto simp: receive_frame Let_def split: if_splits)
  moreover from this have "r' = accept r now cn" "d' = deliver d p s"
    using assms raw by (simp_all add: receive_frame)
  ultimately show ?thesis
    using that [of p s cn] raw by (simp add: verdict_valid_iff wire_def)
qed

lemma receive_not_valid:
  assumes "receive r raw now d = (v, r', d')" and "v \<noteq> RS_Valid"
  shows "safe_state r' \<and> d' = reset_delivery d \<and> r_address r' = r_address r
    \<and> watchdog_ns r' = watchdog_ns r \<and> last_valid_ns r' = last_valid_ns r
    \<and> last_consecutive_number r' = last_consecutive_number r \<and> synchronised r' = synchronised r
    \<and> accepted (diagnostics r') = accepted (diagnostics r)"
proof (cases "safe_state r \<or> length raw < 9")
  case True
  then show ?thesis
    using assms receive_latched [of r raw now d] receive_short [of raw r now d]
    by (cases "safe_state r") (auto simp: rejected_latched)
next
  case False
  then obtain p s cn c where "raw = frame p s cn c"
    by (meson frame_exists not_less)
  moreover have "v \<noteq> RS_InSafeState"
    using assms(1) False calculation
    by (auto simp: receive_frame verdict_def Let_def split: if_splits)
  ultimately show ?thesis
    using assms by (auto simp: receive_frame Let_def rejected_latched split: if_splits)
qed

section \<open>Undetected errors do not exist where they are excluded\<close>

lemma crc_residue:
  "crc_state (update_span c (le32 w)) = (table_bit ^^ 32) 0xFFFFFFFF \<longleftrightarrow> w = crc_value c"
proof -
  have "crc_state (update_span c (le32 w)) = (table_bit ^^ 32) (crc_state c XOR w)"
    using crc_state_update_span [of "le32 w" c] by simp
  then show ?thesis
    by (simp only: table_bit_funpow_eq_iff crc_value_def kFinalXor_def xor_eq_iff)
qed

text \<open>The bytes the checksum sees, followed by the checksum of the frame.\<close>

definition codeword :: "SafetyAddress \<Rightarrow> u8 list \<Rightarrow> u8 \<Rightarrow> u32 \<Rightarrow> u32 \<Rightarrow> u8 list" where
  "codeword a p s cn c = (p @ s # le32 cn) @ address_bytes a @ le32 c"

lemma codeword_valid:
  "crc_state (update_span new_crc32 (codeword a p s cn c)) = (table_bit ^^ 32) 0xFFFFFFFF
   \<longleftrightarrow> c = computeTelegramCrc a p s cn"
  by (simp add: codeword_def update_span_append crc_residue computeTelegramCrc_compute compute_def)

lemma bit_errors_codeword:
  assumes "length p = length p'"
  shows "bit_errors (codeword a p s cn c) (codeword a p' s' cn' c')
       = bit_errors (frame p s cn c) (frame p' s' cn' c')"
  using assms bit_errors_append [of "p @ s # le32 cn" "p' @ s' # le32 cn'"]
  by (simp add: codeword_def frame_def bit_errors_append)

lemma few_errors_detected:
  assumes "length p = length p'" and "length p \<le> 64"
    and "1 \<le> bit_errors (wire a p s cn) (frame p' s' cn' c')"
    and "bit_errors (wire a p s cn) (frame p' s' cn' c') \<le> 3"
  shows "c' \<noteq> computeTelegramCrc a p' s' cn'"
proof
  assume c': "c' = computeTelegramCrc a p' s' cn'"
  let ?x = "codeword a p s cn (computeTelegramCrc a p s cn)" and ?y = "codeword a p' s' cn' c'"
  have len: "length ?x = length ?y" "length ?y \<le> 81"
    using assms(1,2) by (simp_all add: codeword_def)
  have "crc_state (update_span new_crc32 ?x) = crc_state (update_span new_crc32 ?y)"
    using c' by (simp add: codeword_valid [THEN iffD2])
  then have "bitwise_crc 0 (diff_bits ?x ?y) = 0"
    by (simp add: update_span_diff [OF len(1), of new_crc32])
  moreover have "weight (diff_bits ?x ?y) = bit_errors (wire a p s cn) (frame p' s' cn' c')"
    using bit_errors_codeword [OF assms(1)] by (simp add: bit_errors_def wire_def)
  ultimately show False
    using few_errors_nonzero [of "diff_bits ?x ?y"] assms(3,4) len by (simp add: length_diff_bits)
qed

lemma computeTelegramCrc_feed:
  "computeTelegramCrc a p s cn =
   crc_value (update_span new_crc32 ((p @ s # le32 cn) @ address_bytes a))"
  by (simp add: computeTelegramCrc_compute compute_def)

text \<open>A burst inside the protected fields, by the contract of the checksum.\<close>

lemma burst_computeTelegramCrc:
  assumes "pre @ xs @ post = p @ s # le32 cn" and "pre @ ys @ post = p' @ s' # le32 cn'"
    and "length xs = length ys" and "length xs \<le> 4" and "xs \<noteq> ys"
  shows "computeTelegramCrc a p s cn \<noteq> computeTelegramCrc a p' s' cn'"
  using crc.burst_detected [OF assms(3-5), of pre "post @ address_bytes a"]
  by (simp add: computeTelegramCrc_feed flip: assms(1,2))

text \<open>Corruption inside four bytes of the checked fields, or inside the checksum field.\<close>

lemma burst_frame:
  assumes "pre @ xs @ post = wire a p s cn"
    and "length ys = length xs" and "length xs \<le> 4" and "ys \<noteq> xs"
    and "length pre + length xs \<le> length p + 5 \<or> length p + 5 \<le> length pre"
  obtains p' s' cn' c' where "pre @ ys @ post = frame p' s' cn' c'" and "length p' = length p"
    and "c' \<noteq> computeTelegramCrc a p' s' cn'"
proof -
  have "length (pre @ ys @ post) = length p + 9"
    using arg_cong [OF assms(1), of length] assms(2) by simp
  moreover from this have "9 \<le> length (pre @ ys @ post)" by simp
  then obtain p' s' cn' c' where raw': "pre @ ys @ post = frame p' s' cn' c'"
    by (rule frame_exists)
  ultimately have len: "length p' = length p"
    by (metis add_right_cancel length_frame)
  have "c' \<noteq> computeTelegramCrc a p' s' cn'"
    using assms(5)
  proof
    assume inside: "length pre + length xs \<le> length p + 5"
    let ?post = "take (length p + 5 - (length pre + length xs)) post"
    have "take (length p + 5) (pre @ xs @ post) = p @ s # le32 cn"
      unfolding assms(1) by (simp add: wire_def frame_def)
    then have 1: "pre @ xs @ ?post = p @ s # le32 cn"
      using inside by simp
    have "take (length p + 5) (pre @ ys @ post) = p' @ s' # le32 cn'"
      unfolding raw' by (simp add: frame_def flip: len)
    then have 2: "pre @ ys @ ?post = p' @ s' # le32 cn'"
      using inside assms(2) by simp
    have "drop (length p + 5) (pre @ ys @ post) = drop (length p + 5) (pre @ xs @ post)"
      using inside assms(2) by simp
    then have "c' = computeTelegramCrc a p s cn"
      unfolding assms(1) raw' by (simp add: wire_def frame_def len)
    with burst_computeTelegramCrc [OF 1 2] assms(2-4) show ?thesis by simp
  next
    assume outside: "length p + 5 \<le> length pre"
    then have "take (length p + 5) (pre @ ys @ post) = take (length p + 5) (pre @ xs @ post)"
      by simp
    then have "p' = p \<and> s' = s \<and> cn' = cn"
      unfolding assms(1) raw' by (simp add: wire_def frame_def len)
    moreover have "pre @ ys @ post \<noteq> pre @ xs @ post"
      using assms(2,4) by simp
    ultimately show ?thesis
      unfolding assms(1) raw' by (auto simp: wire_def)
  qed
  then show ?thesis by (rule that [OF raw' len])
qed

text \<open>An address that differs in the station numbers only, or in the signature only.\<close>

lemma station_bytes_inject:
  "[ucast (source a), ucast (drop_bit 8 (source a)), ucast (destination a),
    ucast (drop_bit 8 (destination a))] =
   ([ucast (source b), ucast (drop_bit 8 (source b)), ucast (destination b),
    ucast (drop_bit 8 (destination b))] :: u8 list)
   \<Longrightarrow> source a = source b \<and> destination a = destination b"
proof -
  have inj: "x = y" if "(ucast x :: u8) = ucast y" "(ucast (drop_bit 8 x) :: u8) = ucast (drop_bit 8 y)"
    for x y :: u16
  proof (rule bit_eqI)
    fix n assume "possible_bit TYPE(u16) n"
    then have "n < 16" by simp
    have "bit (ucast x :: u8) n = bit (ucast y :: u8) n"
      "bit (ucast (drop_bit 8 x) :: u8) (n - 8) = bit (ucast (drop_bit 8 y) :: u8) (n - 8)"
      using that by simp_all
    then show "bit x n = bit y n"
      using \<open>n < 16\<close> by (cases "n < 8") (auto simp: bit_simps)
  qed
  show "[ucast (source a), ucast (drop_bit 8 (source a)), ucast (destination a),
      ucast (drop_bit 8 (destination a))] =
     ([ucast (source b), ucast (drop_bit 8 (source b)), ucast (destination b),
      ucast (drop_bit 8 (destination b))] :: u8 list)
     \<Longrightarrow> source a = source b \<and> destination a = destination b"
    using inj [of "source a" "source b"] inj [of "destination a" "destination b"] by simp
qed

lemma misaddressed_computeTelegramCrc:
  assumes "a \<noteq> b"
    and "(source a = source b \<and> destination a = destination b) \<or> parameter_signature a = parameter_signature b"
  shows "computeTelegramCrc a p s cn \<noteq> computeTelegramCrc b p s cn"
proof -
  let ?st = "\<lambda>a. [ucast (source a), ucast (drop_bit 8 (source a)), ucast (destination a),
      ucast (drop_bit 8 (destination a))] :: u8 list"
  let ?m = "p @ s # le32 cn"
  have split: "computeTelegramCrc x p s cn
      = crc_value (update_span new_crc32 (?m @ ?st x @ le32 (parameter_signature x)))" for x
    by (simp add: computeTelegramCrc_compute compute_def address_bytes_def)
  show ?thesis
  proof (cases "parameter_signature a = parameter_signature b")
    case True
    have "\<not> (source a = source b \<and> destination a = destination b)"
      using assms(1) True by (cases a; cases b) simp
    then have "?st a \<noteq> ?st b"
      using station_bytes_inject [of a b] by blast
    then show ?thesis
      unfolding split True by (intro crc.burst_detected) simp_all
  next
    case False
    then have "?st a = ?st b" "le32 (parameter_signature a) \<noteq> le32 (parameter_signature b)"
      using assms(2) by simp_all
    then show ?thesis
      using crc.burst_detected [of "le32 (parameter_signature a)" "le32 (parameter_signature b)" "?m @ ?st a" "[]"]
      unfolding split by simp
  qed
qed

lemma receive_crc_mismatch:
  assumes "\<not> safe_state r" and "length p \<le> 64" and "length p \<le> length (payload_out d)"
    and "c \<noteq> computeTelegramCrc (r_address r) p s cn"
  shows "receive r (frame p s cn c) now d =
     (RS_CrcMismatch, latch TF_Corruption (bump (rejected_crc_update (\<lambda>n. n + 1)) r), reset_delivery d)"
  using assms by (simp add: receive_frame verdict_def rejected_def)

section \<open>Runs\<close>

text \<open>The calls a consumer makes, and what it observes of each.\<close>

datatype rx_call = Receive "u8 list" int | Poll int | Acknowledge int

datatype rx_event = Accepted u32 "u8 list" u8 | Faulted ReceiveStatus | Quiet | Acknowledged

definition delivered :: "Delivery \<Rightarrow> u8 list" where
  "delivered d = take (payload_size d) (payload_out d)"

fun rx_call_step :: "rx_call \<Rightarrow> SafetyReceiver \<Rightarrow> Delivery \<Rightarrow> rx_event \<times> SafetyReceiver \<times> Delivery" where
  "rx_call_step (Receive raw now) r d =
     (let (v, r', d') = receive r raw now d
      in (if v = RS_Valid
          then Accepted (last_accepted_consecutive_number (diagnostics r')) (delivered d') (status_out d')
          else Faulted v, r', d'))"
| "rx_call_step (Poll now) r d =
     (let (v, r') = poll r now in (if v = RS_Valid then Quiet else Faulted v, r', d))"
| "rx_call_step (Acknowledge now) r d = (Acknowledged, acknowledgeAndReset r now, d)"

fun rx_run :: "rx_call list \<Rightarrow> SafetyReceiver \<Rightarrow> Delivery \<Rightarrow> rx_event list \<times> SafetyReceiver" where
  "rx_run [] r d = ([], r)"
| "rx_run (c # cs) r d =
     (let (e, r', d') = rx_call_step c r d; (es, r'') = rx_run cs r' d' in (e # es, r''))"

text \<open>
  What the receiver promises, without telegrams, checksums or clocks: it is open,
  following a sequence, or stopped by a fault until it is acknowledged.
\<close>

datatype rx_phase = Open | Following u32 | Stopped

fun admits :: "rx_phase \<Rightarrow> rx_event \<Rightarrow> bool" where
  "admits Open (Accepted cn p s) = True"
| "admits (Following n) (Accepted cn p s) = (cn = next_cn n)"
| "admits Stopped (Accepted cn p s) = False"
| "admits ph (Faulted v) = (v \<noteq> RS_Valid \<and> (v = RS_InSafeState \<longleftrightarrow> ph = Stopped))"
| "admits ph Quiet = (ph \<noteq> Stopped)"
| "admits ph Acknowledged = True"

fun advance :: "rx_phase \<Rightarrow> rx_event \<Rightarrow> rx_phase" where
  "advance ph (Accepted cn p s) = Following cn"
| "advance ph (Faulted v) = Stopped"
| "advance ph Quiet = ph"
| "advance ph Acknowledged = Open"

fun conforms :: "rx_phase \<Rightarrow> rx_event list \<Rightarrow> bool" where
  "conforms ph [] = True"
| "conforms ph (e # es) = (admits ph e \<and> conforms (advance ph e) es)"

definition phase_of :: "SafetyReceiver \<Rightarrow> rx_phase" where
  "phase_of r =
     (if safe_state r then Stopped
      else if synchronised r then Following (last_consecutive_number r) else Open)"

lemma receive_not_valid_status:
  "receive r raw now d = (v, r', d') \<Longrightarrow> v \<noteq> RS_Valid \<Longrightarrow> v = RS_InSafeState \<longleftrightarrow> safe_state r"
proof -
  assume a: "receive r raw now d = (v, r', d')" "v \<noteq> RS_Valid"
  show ?thesis
  proof (cases "safe_state r \<or> length raw < 9")
    case True
    with a show ?thesis
      using receive_latched [of r raw now d] receive_short [of raw r now d] by (cases "safe_state r") auto
  next
    case False
    then obtain p s cn c where "raw = frame p s cn c"
      by (meson frame_exists not_less)
    with a False show ?thesis
      by (auto simp: receive_frame verdict_def Let_def split: if_splits)
  qed
qed

lemma receive_step_conforms:
  assumes "receive r raw now d = (v, r', d')"
  shows "admits (phase_of r)
       (if v = RS_Valid
        then Accepted (last_accepted_consecutive_number (diagnostics r')) (delivered d') (status_out d')
        else Faulted v)
     \<and> phase_of r' = (if v = RS_Valid then Following (last_accepted_consecutive_number (diagnostics r'))
                      else Stopped)"
proof (cases "v = RS_Valid")
  case True
  with assms have "receive r raw now d = (RS_Valid, r', d')" by simp
  then show ?thesis
    by (rule receive_valid) (auto simp: True phase_of_def in_sequence_def)
next
  case False
  with assms show ?thesis
    using receive_not_valid [OF assms] receive_not_valid_status [OF assms] by (auto simp: phase_of_def)
qed

lemma rx_call_step_conforms:
  assumes "rx_call_step c r d = (e, r', d')"
  shows "admits (phase_of r) e \<and> phase_of r' = advance (phase_of r) e"
proof (cases c)
  case (Receive raw now)
  obtain v q x where rec: "receive r raw now d = (v, q, x)"
    by (cases "receive r raw now d")
  show ?thesis
    using receive_step_conforms [OF rec] assms rec Receive by (auto split: if_splits)
next
  case (Poll now)
  then show ?thesis
    using assms by (auto simp: poll_def phase_of_def rx_defs Let_def split: if_splits)
next
  case (Acknowledge now)
  then show ?thesis
    using assms by (auto simp: acknowledgeAndReset_def phase_of_def)
qed

lemma rx_run_conforms: "conforms (phase_of r) (fst (rx_run cs r d))"
proof (induction cs arbitrary: r d)
  case (Cons c cs)
  obtain e r' d' where step: "rx_call_step c r d = (e, r', d')"
    by (cases "rx_call_step c r d")
  show ?case
    using rx_call_step_conforms [OF step] Cons.IH [of r' d'] step by (simp add: split_beta)
qed simp

lemma rx_run_append:
  "\<exists>d'. rx_run (cs @ cs') r d =
     (fst (rx_run cs r d) @ fst (rx_run cs' (snd (rx_run cs r d)) d'),
      snd (rx_run cs' (snd (rx_run cs r d)) d'))"
proof (induction cs arbitrary: r d)
  case Nil
  show ?case by (auto intro: exI [of _ d])
next
  case (Cons c cs)
  obtain e r' d' where step: "rx_call_step c r d = (e, r', d')"
    by (cases "rx_call_step c r d")
  obtain d'' where "rx_run (cs @ cs') r' d' =
     (fst (rx_run cs r' d') @ fst (rx_run cs' (snd (rx_run cs r' d')) d''),
      snd (rx_run cs' (snd (rx_run cs r' d')) d''))"
    using Cons.IH [of r' d'] by blast
  then show ?case
    using step by (auto simp: split_beta intro!: exI [of _ d''])
qed

definition no_ack :: "rx_call list \<Rightarrow> bool" where
  "no_ack cs \<longleftrightarrow> (\<forall>c\<in>set cs. case c of Acknowledge _ \<Rightarrow> False | _ \<Rightarrow> True)"

lemma rx_call_step_latched:
  assumes "safe_state r" and "no_ack [c]"
  obtains d' where "rx_call_step c r d = (Faulted RS_InSafeState, r, d')"
  using assms by (cases c) (simp_all add: receive_latched poll_def no_ack_def)

lemma rx_run_latched:
  "safe_state r \<Longrightarrow> no_ack cs \<Longrightarrow>
   rx_run cs r d = (replicate (length cs) (Faulted RS_InSafeState), r)"
proof (induction cs arbitrary: d)
  case (Cons c cs)
  then have "no_ack [c]" "no_ack cs"
    by (simp_all add: no_ack_def)
  with Cons obtain d' where "rx_call_step c r d = (Faulted RS_InSafeState, r, d')"
    using rx_call_step_latched by blast
  with Cons.IH [of d'] Cons.prems(1) \<open>no_ack cs\<close> show ?case
    by simp
qed simp

definition accepted_events :: "rx_event list \<Rightarrow> rx_event list" where
  "accepted_events es = filter (\<lambda>e. case e of Accepted _ _ _ \<Rightarrow> True | _ \<Rightarrow> False) es"

text \<open>Without acceptance or acknowledgement the watchdog window stays where it is.\<close>

lemma rx_call_step_no_accept:
  assumes "rx_call_step c r d = (e, r', d')" and "no_ack [c]" and "accepted_events [e] = []"
  shows "synchronised r' = synchronised r \<and> last_valid_ns r' = last_valid_ns r
    \<and> watchdog_ns r' = watchdog_ns r \<and> (safe_state r \<longrightarrow> safe_state r')"
proof (cases c)
  case (Receive raw now)
  obtain v q x where rec: "receive r raw now d = (v, q, x)"
    by (cases "receive r raw now d")
  have "v \<noteq> RS_Valid"
    using assms(1,3) rec Receive by (auto simp: accepted_events_def)
  with receive_not_valid [OF rec] show ?thesis
    using assms(1) rec Receive by auto
next
  case (Poll now)
  then show ?thesis
    using assms by (auto simp: poll_def rx_defs Let_def split: if_splits)
qed (use assms in \<open>simp add: no_ack_def\<close>)

lemma rx_run_no_accept:
  "no_ack cs \<Longrightarrow> accepted_events (fst (rx_run cs r d)) = [] \<Longrightarrow> rx_run cs r d = (es, r') \<Longrightarrow>
   synchronised r' = synchronised r \<and> last_valid_ns r' = last_valid_ns r
     \<and> watchdog_ns r' = watchdog_ns r \<and> (safe_state r \<longrightarrow> safe_state r')"
proof (induction cs arbitrary: r d es)
  case (Cons c cs)
  obtain e q x where step: "rx_call_step c r d = (e, q, x)"
    by (cases "rx_call_step c r d")
  obtain es' where run: "rx_run cs q x = (es', r')"
    using Cons.prems(3) step by (cases "rx_run cs q x") auto
  have "no_ack [c]" "no_ack cs" "accepted_events [e] = []" "accepted_events es' = []"
    using Cons.prems step run
    by (auto simp: no_ack_def accepted_events_def split: if_splits rx_event.splits)
  then show ?case
    using rx_call_step_no_accept [OF step] Cons.IH [of q x es'] run by simp
qed simp

section \<open>Gaps\<close>

lemma unat_next_cn: "unat (next_cn m) = (if unat m = 4294967295 then 1 else Suc (unat m))"
proof (cases "m + 1 = 0")
  case True
  then have "m = - 1" by (simp add: eq_neg_iff_add_eq_0)
  then have "unat m = 4294967295"
    by (simp add: unsigned_minus_1_eq_mask mask_eq_exp_minus_1)
  then show ?thesis using True by (simp add: next_cn_def)
next
  case False
  then have "unat (m + 1) = Suc (unat m)"
    using unatSuc [of m] by (simp add: add.commute)
  moreover have "unat (m + 1) < 4294967296"
    using unsigned_less [of "m + 1", where 'a = nat] by simp
  ultimately show ?thesis using False by (simp add: next_cn_def)
qed

lemma unat_next_cn_funpow:
  "j < 4294967295 \<Longrightarrow> unat ((next_cn ^^ j) n) =
     (if unat n + j < 4294967296 then unat n + j else unat n + j - 4294967295)"
proof (induction j)
  case (Suc j)
  have "unat n < 4294967296"
    using unsigned_less [of n, where 'a = nat] by simp
  with Suc show ?case
    by (auto simp: unat_next_cn split: if_splits)
qed (use unsigned_less [of n, where 'a = nat] in simp)

text \<open>How far ahead of the expected number the sender is after \<open>k\<close> lost telegrams.\<close>

definition gap :: "u32 \<Rightarrow> nat \<Rightarrow> nat" where
  "gap n k = (if unat n < 4294967295 \<and> 4294967296 \<le> unat n + k + 1 then k + 1 else k)"

lemma next_cn_gap:
  assumes "k < 4294967294"
  shows "(next_cn ^^ Suc k) n - next_cn n = of_nat (gap n k)"
proof -
  let ?a = "(next_cn ^^ Suc k) n" and ?b = "next_cn n"
  have n: "unat n < 4294967296"
    using unsigned_less [of n, where 'a = nat] by simp
  have a: "unat ?a = (if unat n + Suc k < 4294967296 then unat n + Suc k else unat n + Suc k - 4294967295)"
    using assms by (intro unat_next_cn_funpow) simp
  consider (wrap) "unat ?a + 4294967296 = unat ?b + gap n k" | (plain) "unat ?a = unat ?b + gap n k"
    using a n unat_next_cn [of n] unfolding gap_def by (cases "unat n = 4294967295") (auto split: if_splits)
  then have "(of_nat (unat ?a) :: u32) = of_nat (unat ?b) + of_nat (gap n k)"
  proof cases
    case wrap
    then have "(of_nat (unat ?a) + of_nat 4294967296 :: u32) = of_nat (unat ?b + gap n k)"
      by (metis of_nat_add)
    moreover have "(of_nat 4294967296 :: u32) = 0"
      by (simp only: word_of_nat_eq_0_iff) simp
    ultimately show ?thesis by (simp only: add_0_right of_nat_add)
  qed simp
  then show ?thesis by simp
qed

section \<open>Streams\<close>

fun send_all :: "SafetySender \<Rightarrow> Telegram \<Rightarrow> (u8 list \<times> u8) list \<Rightarrow> u8 list list" where
  "send_all s t [] = []"
| "send_all s t ((p, st) # ms) =
     (let (ok, s', t') = encode s p st t in view t' # send_all s' t' ms)"

fun receive_all ::
  "SafetyReceiver \<Rightarrow> Delivery \<Rightarrow> (u8 list \<times> int) list \<Rightarrow> (ReceiveStatus \<times> u8 list \<times> u8) list" where
  "receive_all r d [] = []"
| "receive_all r d ((raw, now) # ts) =
     (let (v, r', d') = receive r raw now d in (v, delivered d', status_out d') # receive_all r' d' ts)"

text \<open>Arrival times no further apart than the watchdog window.\<close>

fun timely :: "int \<Rightarrow> int option \<Rightarrow> int list \<Rightarrow> bool" where
  "timely w prev [] = True"
| "timely w prev (t # ts) = ((case prev of None \<Rightarrow> True | Some l \<Rightarrow> t - l \<le> w) \<and> timely w (Some t) ts)"

definition watch_start :: "SafetyReceiver \<Rightarrow> int option" where
  "watch_start r = (if synchronised r then Some (last_valid_ns r) else None)"

lemma delivered_deliver [simp]:
  "length p \<le> length (payload_out d) \<Longrightarrow> delivered (deliver d p s) = p"
  by (simp add: delivered_def deliver_def copy_to_def)

lemma deliver_simps [simp]:
  "status_out (deliver d p s) = s"
  "length p \<le> length (payload_out d) \<Longrightarrow> length (payload_out (deliver d p s)) = length (payload_out d)"
  by (simp_all add: deliver_def copy_to_def)

lemma stream_step:
  assumes "s_address s = r_address r" and "\<not> safe_state r" and "in_sequence r (consecutive_number s)"
    and "length (bytes t) = 73" and "length p \<le> 64" and "length p \<le> length (payload_out d)"
    and "timely (watchdog_ns r) (watch_start r) (now # ts)"
  obtains t' where
    "encode s p st t = (True, s\<lparr>consecutive_number := next_cn (consecutive_number s)\<rparr>, t')"
    and "length (bytes t') = 73"
    and "receive r (view t') now d = (RS_Valid, accept r now (consecutive_number s), deliver d p st)"
proof (rule encode_ok [OF assms(5,4), of s st])
  fix t'
  assume t': "encode s p st t = (True, s\<lparr>consecutive_number := next_cn (consecutive_number s)\<rparr>, t')"
    "view t' = wire (s_address s) p st (consecutive_number s)" "length (bytes t') = 73"
  have "\<not> late r now"
    using assms(7) by (auto simp: watch_start_def late_def split: if_splits)
  then have "receive r (view t') now d = (RS_Valid, accept r now (consecutive_number s), deliver d p st)"
    using assms t'(2) by (simp add: receive_wire)
  with t' show thesis by (auto intro: that)
qed

text \<open>
  A receiver that is not yet synchronised takes any consecutive number, also zero, which
  no sender uses.
\<close>

lemma zero_accepted_first:
  assumes "\<not> safe_state r" and "\<not> synchronised r" and "length p \<le> 64" and "length p \<le> length (payload_out d)"
  shows "fst (receive r (wire (r_address r) p s 0) now d) = RS_Valid"
  using assms receive_wire [of r "r_address r" p d now 0 s] by (simp add: late_def in_sequence_def)

text \<open>
  The bits of the status are handed to the caller and nothing else: whatever the producer
  sets, also the request for fail-safe values or the report of its own fault, the verdict and the
  receiver are those of a status without any bit.
\<close>

lemma status_not_acted_on:
  assumes "\<not> safe_state r" and "a = r_address r" and "length p \<le> 64"
    and "length p \<le> length (payload_out d)" and "\<not> late r now" and "in_sequence r cn"
    and "s = kActivateFailSafeValues OR kProducerFault OR kOperatorAckRequested"
  shows "receive r (wire a p s cn) now d = (RS_Valid, accept r now cn, deliver d p s) \<and>
    fst (snd (receive r (wire a p s cn) now d)) = fst (snd (receive r (wire a p 0 cn) now d))"
  using assms receive_wire by simp

section \<open>Properties\<close>

text \<open>
  C9. Round trip of a stream: whatever messages of at most 64 bytes a sender
  encodes, a receiver with the same address that is in step with it (or not yet
  synchronised) and sees the telegrams no further apart than its watchdog accepts
  every one and delivers exactly the payloads and status bytes that were sent.
  The consecutive number may start anywhere, so the wrap that skips zero is
  included.
\<close>

theorem stream_delivered:
  assumes "s_address s = r_address r" and "\<not> safe_state r"
    and "synchronised r \<longrightarrow> consecutive_number s = next_cn (last_consecutive_number r)"
    and "length (bytes t) = kMaxTelegramBytes"
    and "\<forall>(p, st) \<in> set msgs. length p \<le> kMaxPayloadBytes \<and> length p \<le> length (payload_out d)"
    and "length arrivals = length msgs" and "timely (watchdog_ns r) (watch_start r) arrivals"
  shows "receive_all r d (zip (send_all s t msgs) arrivals) = map (\<lambda>(p, st). (RS_Valid, p, st)) msgs"
  using assms
proof (induction msgs arbitrary: s r d t arrivals)
  case (Cons m msgs)
  obtain p st where m: "m = (p, st)" by (cases m)
  obtain now ts where arrivals: "arrivals = now # ts"
    using Cons.prems(6) by (cases arrivals) auto
  obtain t' where t':
    "encode s p st t = (True, s\<lparr>consecutive_number := next_cn (consecutive_number s)\<rparr>, t')"
    "length (bytes t') = 73"
    "receive r (view t') now d = (RS_Valid, accept r now (consecutive_number s), deliver d p st)"
    by (rule stream_step [of s r t p d now ts st])
      (use Cons.prems m arrivals in \<open>simp_all add: in_sequence_def size_defs\<close>)
  have "length p \<le> length (payload_out d)"
    using Cons.prems(5) m by simp
  moreover have "receive_all (accept r now (consecutive_number s)) (deliver d p st)
      (zip (send_all (s\<lparr>consecutive_number := next_cn (consecutive_number s)\<rparr>) t' msgs) ts)
      = map (\<lambda>(p, st). (RS_Valid, p, st)) msgs"
    by (rule Cons.IH)
      (use Cons.prems m arrivals t'(2) calculation in \<open>auto simp: size_defs watch_start_def\<close>)
  ultimately show ?case
    using t' m arrivals by simp
qed simp

theorem stream_delivered_witness:
  "receive_all
     \<lparr>r_address = \<lparr>source = 1, destination = 2, parameter_signature = 3\<rparr>, watchdog_ns = 10,
      last_valid_ns = 0, last_consecutive_number = 0xFFFFFFFE, synchronised = True,
      safe_state = False, last_fault = TF_None, diagnostics = new_ReceiverDiagnostics\<rparr>
     \<lparr>payload_out = [0, 0], payload_size = 0, status_out = 0\<rparr>
     (zip (send_all \<lparr>s_address = \<lparr>source = 1, destination = 2, parameter_signature = 3\<rparr>,
                     consecutive_number = 0xFFFFFFFF\<rparr> new_Telegram [([7, 8], 1), ([9], 0)]) [5, 15])
   = [(RS_Valid, [7, 8], 1), (RS_Valid, [9], 0)]"
  using stream_delivered [of
      "\<lparr>s_address = \<lparr>source = 1, destination = 2, parameter_signature = 3\<rparr>, consecutive_number = 0xFFFFFFFF\<rparr>"
      "\<lparr>r_address = \<lparr>source = 1, destination = 2, parameter_signature = 3\<rparr>, watchdog_ns = 10,
        last_valid_ns = 0, last_consecutive_number = 0xFFFFFFFE, synchronised = True,
        safe_state = False, last_fault = TF_None, diagnostics = new_ReceiverDiagnostics\<rparr>"
      new_Telegram "[([7, 8], 1), ([9], 0)]" "\<lparr>payload_out = [0, 0], payload_size = 0, status_out = 0\<rparr>"
      "[5, 15]"]
  by (simp add: new_Telegram_def size_defs next_cn_def watch_start_def)

text \<open>
  C7. What is accepted: a byte string is taken as valid exactly when the receiver
  is not latched and the bytes are the telegram a sender with the receiver's own
  address would have produced for some payload of at most 64 bytes that fits the
  caller's buffer, arriving within the watchdog window and carrying the successor
  of the last accepted number (any number, while not synchronised).
\<close>

theorem receive_accepts_iff:
  "fst (receive r raw now d) = RS_Valid \<longleftrightarrow>
   \<not> safe_state r \<and>
   (\<exists>p s cn. raw = wire (r_address r) p s cn \<and> length p \<le> kMaxPayloadBytes \<and>
      length p \<le> length (payload_out d) \<and>
      \<not> (synchronised r \<and> (now - last_valid_ns r > watchdog_ns r \<or> cn \<noteq> next_cn (last_consecutive_number r))))"
  (is "?L \<longleftrightarrow> ?R")
proof
  assume ?L
  then obtain r' d' where "receive r raw now d = (RS_Valid, r', d')"
    by (cases "receive r raw now d") auto
  then show ?R
    by (rule receive_valid) (auto simp: size_defs late_def in_sequence_def)
next
  assume ?R
  then obtain p s cn where "raw = wire (r_address r) p s cn" "length p \<le> 64"
      "length p \<le> length (payload_out d)" "\<not> late r now" "in_sequence r cn" "\<not> safe_state r"
    by (auto simp: size_defs late_def in_sequence_def)
  then show ?L by (simp add: receive_wire)
qed

theorem receive_accepts_iff_witness:
  "fst (receive (new_SafetyReceiver \<lparr>source = 1, destination = 2, parameter_signature = 3\<rparr> 10)
     (wire \<lparr>source = 1, destination = 2, parameter_signature = 3\<rparr> [5] 0 7) 0
     \<lparr>payload_out = [0], payload_size = 0, status_out = 0\<rparr>) = RS_Valid"
  unfolding receive_accepts_iff
  by (auto simp: new_SafetyReceiver_def size_defs intro!: exI [of _ "[5]"])

text \<open>
  C8. Any change of one, two or three bits anywhere in a telegram, in any of the
  payload, status, consecutive number and checksum fields, is rejected as a
  checksum mismatch: the receiver latches, delivers nothing, and counts it.
\<close>

theorem few_bit_errors_rejected:
  assumes "raw = wire (r_address r) p s cn" and "length p \<le> kMaxPayloadBytes"
    and "length p \<le> length (payload_out d)" and "\<not> safe_state r"
    and "length raw' = length raw" and "1 \<le> bit_errors raw raw'" and "bit_errors raw raw' \<le> 3"
  shows "receive r raw' now d =
     (RS_CrcMismatch, latch TF_Corruption (bump (rejected_crc_update (\<lambda>n. n + 1)) r),
      d\<lparr>payload_size := 0, status_out := 0\<rparr>)"
proof -
  have "9 \<le> length raw'" using assms(1,5) by simp
  then obtain p' s' cn' c' where raw': "raw' = frame p' s' cn' c'"
    by (rule frame_exists)
  then have len: "length p = length p'" using assms(1,5) by simp
  then have "c' \<noteq> computeTelegramCrc (r_address r) p' s' cn'"
    using few_errors_detected [of p p'] assms raw' by (simp add: size_defs)
  then show ?thesis
    using receive_crc_mismatch [of r p' d] assms len raw' by (simp add: size_defs reset_delivery_def)
qed

theorem few_bit_errors_rejected_witness:
  "let a = \<lparr>source = 1, destination = 2, parameter_signature = 3\<rparr>;
       r = new_SafetyReceiver a 10;
       d = \<lparr>payload_out = [0, 0], payload_size = 2, status_out = 4\<rparr>
   in receive r (1 # tl (wire a [0] 0 1)) 5 d =
      (RS_CrcMismatch, latch TF_Corruption (bump (rejected_crc_update (\<lambda>n. n + 1)) r),
       d\<lparr>payload_size := 0, status_out := 0\<rparr>)"
proof -
  let ?a = "\<lparr>source = 1, destination = 2, parameter_signature = 3\<rparr>"
  have w: "wire ?a [0] 0 1 = [0] @ tl (wire ?a [0] 0 1)"
    by (simp add: wire_def frame_def)
  have "bit_errors ([0] @ xs) ([1] @ xs) = 1" for xs
    by (subst bit_errors_append) (simp_all add: bit_errors_def diff_bits_def byte_bits_def upt_rec)
  then have "bit_errors (wire ?a [0] 0 1) (1 # tl (wire ?a [0] 0 1)) = 1"
    by (subst w) simp
  then show ?thesis
    using few_bit_errors_rejected [of "wire ?a [0] 0 1" "new_SafetyReceiver ?a 10" "[0]" 0 1
        "\<lparr>payload_out = [0, 0], payload_size = 2, status_out = 4\<rparr>" "1 # tl (wire ?a [0] 0 1)" 5]
    by (simp add: new_SafetyReceiver_def size_defs)
qed

text \<open>
  Any corruption confined to four consecutive bytes of the payload, status and
  consecutive number, whatever it does to them, and any corruption of the checksum
  field alone, is rejected as a checksum mismatch and latches.
\<close>

theorem burst_rejected:
  assumes "pre @ xs @ post = wire (r_address r) p s cn" and "length p \<le> kMaxPayloadBytes"
    and "length p \<le> length (payload_out d)" and "\<not> safe_state r"
    and "length ys = length xs" and "length xs \<le> 4" and "ys \<noteq> xs"
    and "length pre + length xs \<le> length p + 5 \<or> length p + 5 \<le> length pre"
  shows "receive r (pre @ ys @ post) now d =
     (RS_CrcMismatch, latch TF_Corruption (bump (rejected_crc_update (\<lambda>n. n + 1)) r),
      d\<lparr>payload_size := 0, status_out := 0\<rparr>)"
proof (rule burst_frame [OF assms(1,5-8)])
  fix p' s' cn' c'
  assume "pre @ ys @ post = frame p' s' cn' c'" and "length p' = length p"
    and "c' \<noteq> computeTelegramCrc (r_address r) p' s' cn'"
  then show ?thesis
    using receive_crc_mismatch [of r p' d] assms(2-4) by (simp add: size_defs reset_delivery_def)
qed

theorem burst_rejected_witness:
  "let a = \<lparr>source = 1, destination = 2, parameter_signature = 3\<rparr>;
       r = new_SafetyReceiver a 10;
       d = \<lparr>payload_out = replicate 8 0, payload_size = 2, status_out = 4\<rparr>
   in receive r ([9] @ [0xA5, 0, 0xFF, 1] @ drop 5 (wire a [9, 8, 7, 6, 5, 4] 0 1)) 5 d =
      (RS_CrcMismatch, latch TF_Corruption (bump (rejected_crc_update (\<lambda>n. n + 1)) r),
       d\<lparr>payload_size := 0, status_out := 0\<rparr>)"
  using burst_rejected [of "[9]" "[8, 7, 6, 5]"
      "drop 5 (wire \<lparr>source = 1, destination = 2, parameter_signature = 3\<rparr> [9, 8, 7, 6, 5, 4] 0 1)"
      "new_SafetyReceiver \<lparr>source = 1, destination = 2, parameter_signature = 3\<rparr> 10"
      "[9, 8, 7, 6, 5, 4]" 0 1 "\<lparr>payload_out = replicate 8 0, payload_size = 2, status_out = 4\<rparr>"
      "[0xA5, 0, 0xFF, 1]" 5]
  by (simp add: new_SafetyReceiver_def size_defs wire_def frame_def)

text \<open>
  A genuine telegram delivered to a receiver of another relationship, whose
  station numbers differ or whose parameter signature differs, is rejected as a
  checksum mismatch although no address byte is transmitted.
\<close>

theorem misaddressed_rejected:
  assumes "a \<noteq> r_address r"
    and "(source a = source (r_address r) \<and> destination a = destination (r_address r))
      \<or> parameter_signature a = parameter_signature (r_address r)"
    and "length p \<le> kMaxPayloadBytes" and "length p \<le> length (payload_out d)" and "\<not> safe_state r"
  shows "receive r (wire a p s cn) now d =
     (RS_CrcMismatch, latch TF_Corruption (bump (rejected_crc_update (\<lambda>n. n + 1)) r),
      d\<lparr>payload_size := 0, status_out := 0\<rparr>)"
  using receive_crc_mismatch [of r p d] misaddressed_computeTelegramCrc [OF assms(1,2)] assms(3-5)
  by (simp add: wire_def size_defs reset_delivery_def)

theorem misaddressed_rejected_witness:
  "let r = new_SafetyReceiver \<lparr>source = 1, destination = 2, parameter_signature = 3\<rparr> 10;
       d = \<lparr>payload_out = [0], payload_size = 0, status_out = 0\<rparr>
   in receive r (wire \<lparr>source = 1, destination = 7, parameter_signature = 3\<rparr> [5] 0 1) 0 d =
      (RS_CrcMismatch, latch TF_Corruption (bump (rejected_crc_update (\<lambda>n. n + 1)) r), d)"
  using misaddressed_rejected [of "\<lparr>source = 1, destination = 7, parameter_signature = 3\<rparr>"
      "new_SafetyReceiver \<lparr>source = 1, destination = 2, parameter_signature = 3\<rparr> 10" "[5]"
      "\<lparr>payload_out = [0], payload_size = 0, status_out = 0\<rparr>" 0 1 0]
  by (simp add: new_SafetyReceiver_def size_defs)

text \<open>
  C10. Refinement: every sequence of \<open>receive\<close>, \<open>poll\<close> and \<open>acknowledgeAndReset\<close>
  calls shows a history of the three-phase automaton.  Between two acknowledgements
  the accepted numbers are consecutive; the first fault stops acceptance, and from
  then on every call but the acknowledgement reports the safe state.
\<close>

theorem receiver_refines: "conforms (phase_of r) (fst (rx_run calls r d))"
  by (rule rx_run_conforms)

text \<open>
  A call that does not end valid latches the receiver and leaves the caller
  with nothing: size and status are zero, the buffer is untouched, and neither the
  sequence position, the watchdog window nor the count of accepted telegrams moves.
\<close>

theorem fault_latches:
  assumes "receive r raw now d = (v, r', d')" and "v \<noteq> RS_Valid"
  shows "safe_state r' \<and> payload_size d' = 0 \<and> status_out d' = 0 \<and> payload_out d' = payload_out d
    \<and> synchronised r' = synchronised r \<and> last_consecutive_number r' = last_consecutive_number r
    \<and> last_valid_ns r' = last_valid_ns r \<and> accepted (diagnostics r') = accepted (diagnostics r)"
  using receive_not_valid [OF assms] by (simp add: reset_delivery_def)

theorem fault_latches_witness:
  "\<exists>r' d'. receive (new_SafetyReceiver \<lparr>source = 1, destination = 2, parameter_signature = 3\<rparr> 10) [1, 2, 3] 0
       \<lparr>payload_out = [9], payload_size = 1, status_out = 1\<rparr> = (RS_Malformed, r', d')
     \<and> safe_state r' \<and> payload_size d' = 0 \<and> payload_out d' = [9]"
proof -
  let ?r = "new_SafetyReceiver \<lparr>source = 1, destination = 2, parameter_signature = 3\<rparr> 10"
  let ?d = "\<lparr>payload_out = [9 :: u8], payload_size = 1, status_out = 1\<rparr>"
  obtain r' d' where "receive ?r [1, 2, 3] 0 ?d = (RS_Malformed, r', d')"
    by (simp add: receive_def new_SafetyReceiver_def size_defs)
  with fault_latches [OF this] show ?thesis by auto
qed

text \<open>
  Silence is detected: once synchronised, a receiver that accepts nothing more
  is in the safe state after the first \<open>poll\<close> later than the watchdog window, and
  whatever calls follow, it stays there until it is acknowledged.
\<close>

theorem silence_detected:
  assumes "synchronised r" and "t - last_valid_ns r > watchdog_ns r"
    and "no_ack (before @ after)" and "accepted_events (fst (rx_run before r d)) = []"
  shows "safe_state (snd (rx_run (before @ Poll t # after) r d))"
proof -
  obtain es q where run: "rx_run before r d = (es, q)" by fastforce
  have "no_ack before" and "no_ack after"
    using assms(3) by (simp_all add: no_ack_def)
  then have q: "synchronised q" "t - last_valid_ns q > watchdog_ns q"
    using rx_run_no_accept [OF \<open>no_ack before\<close> assms(4) run] assms(1,2) by simp_all
  then have "safe_state (snd (poll q t))"
    by (simp add: poll_def rx_defs)
  then have "safe_state (snd (rx_run (Poll t # after) q x))" for x
    using rx_run_latched [OF _ \<open>no_ack after\<close>] by (simp add: split_beta)
  then show ?thesis
    using rx_run_append [of before "Poll t # after" r d] run by auto
qed

theorem silence_detected_witness:
  "let r = (new_SafetyReceiver \<lparr>source = 1, destination = 2, parameter_signature = 3\<rparr> 10)\<lparr>synchronised := True\<rparr>;
       d = \<lparr>payload_out = [], payload_size = 0, status_out = 0\<rparr>
   in safe_state (snd (rx_run ([Poll 4, Poll 10] @ Poll 11 # [Poll 12]) r d))"
  using silence_detected [of "(new_SafetyReceiver \<lparr>source = 1, destination = 2, parameter_signature = 3\<rparr> 10)
      \<lparr>synchronised := True\<rparr>" 11 "[Poll 4, Poll 10]" "[Poll 12]"
      "\<lparr>payload_out = [], payload_size = 0, status_out = 0\<rparr>"]
  by (simp add: new_SafetyReceiver_def no_ack_def accepted_events_def poll_def)

text \<open>
  Loss is counted: when \<open>k\<close> telegrams of a sender disappear and the next one
  arrives in time, the receiver reports a sequence gap, latches it as a loss, and
  adds \<open>k\<close> to its count of lost telegrams, or \<open>k + 1\<close> when the skipped number zero
  lies inside the gap.
\<close>

theorem loss_counted:
  assumes "synchronised r" and "\<not> safe_state r" and "now - last_valid_ns r \<le> watchdog_ns r"
    and "length p \<le> kMaxPayloadBytes" and "length p \<le> length (payload_out d)"
    and "1 \<le> k" and "k < 2 ^ 31 - 1"
    and "raw = wire (r_address r) p s ((next_cn ^^ Suc k) (last_consecutive_number r))"
    and "receive r raw now d = (v, r', d')"
  shows "v = RS_SequenceGap \<and> safe_state r' \<and> last_fault r' = TF_Loss
    \<and> rejected_sequence_gap (diagnostics r') = rejected_sequence_gap (diagnostics r) + 1
    \<and> telegrams_lost (diagnostics r') = telegrams_lost (diagnostics r) + of_nat (gap (last_consecutive_number r) k)"
proof -
  let ?last = "last_consecutive_number r" and ?cn = "(next_cn ^^ Suc k) (last_consecutive_number r)"
  have delta: "?cn - next_cn ?last = of_nat (gap ?last k)"
    by (rule next_cn_gap) (use assms(7) in simp)
  have gap: "1 \<le> gap ?last k" "gap ?last k < 2147483648"
    using assms(6,7) by (auto simp: gap_def)
  then have sint: "sint (of_nat (gap ?last k) :: u32) = int (gap ?last k)"
    by (simp add: signed_of_nat signed_take_bit_int_eq_self)
  then have lost: "(word_of_int (sint (of_nat (gap ?last k) :: u32)) :: u64) = of_nat (gap ?last k)"
    by (simp only: of_int_of_nat_eq)
  have "?cn \<noteq> next_cn ?last"
    using delta gap by (metis eq_iff_diff_eq_0 of_nat_0_less_iff signed_0 sint not_one_le_zero of_nat_eq_0_iff)
  moreover have "?cn \<noteq> ?last"
    using unat_next_cn_funpow [of "Suc k" ?last] assms(7) unsigned_less [of ?last, where 'a = nat]
    by (auto split: if_splits)
  ultimately have "verdict r (length (payload_out d)) now p s ?cn (computeTelegramCrc (r_address r) p s ?cn) = RS_SequenceGap"
    using assms delta sint by (simp add: verdict_def late_def in_sequence_def size_defs)
  then show ?thesis
    using assms(8,9) delta lost by (auto simp: wire_def receive_frame rejected_def rx_defs)
qed

theorem loss_counted_witness:
  "let r = (new_SafetyReceiver \<lparr>source = 1, destination = 2, parameter_signature = 3\<rparr> 10)
             \<lparr>synchronised := True, last_consecutive_number := 0xFFFFFFFE\<rparr>;
       d = \<lparr>payload_out = [], payload_size = 0, status_out = 0\<rparr>
   in \<exists>r' d'. receive r (wire (r_address r) [] 0 1) 5 d = (RS_SequenceGap, r', d')
        \<and> telegrams_lost (diagnostics r') = 2"
proof -
  let ?r = "(new_SafetyReceiver \<lparr>source = 1, destination = 2, parameter_signature = 3\<rparr> 10)
             \<lparr>synchronised := True, last_consecutive_number := 0xFFFFFFFE\<rparr>"
  let ?d = "\<lparr>payload_out = [], payload_size = 0, status_out = 0\<rparr>"
  obtain v r' d' where rec: "receive ?r (wire (r_address ?r) [] 0 1) 5 ?d = (v, r', d')"
    by (cases "receive ?r (wire (r_address ?r) [] 0 1) 5 ?d")
  have cn: "(next_cn ^^ Suc 1) 0xFFFFFFFE = 1"
    by (simp add: next_cn_def)
  have "gap 0xFFFFFFFE 1 = 2"
    by (simp add: gap_def)
  with loss_counted [OF _ _ _ _ _ _ _ _ rec, of "[]" 1 0] rec cn show ?thesis
    by (simp add: new_SafetyReceiver_def size_defs new_ReceiverDiagnostics_def)
qed

end
