(* ===== verification/Float64.thy ===== *)
theory Float64
  imports Complex_Main Prelude
begin

text \<open>
  IEEE 754 binary64 as far as the sources use \<open>double\<close>: the values, rounding to
  nearest with ties to even, and the comparisons and operations that occur.  A
  finite value is the rational number it denotes; the two zeros, which no
  operation of the modelled sources tells apart, are one value.  Rounding is
  executable, so every witness over doubles evaluates.
\<close>

section \<open>Model\<close>

datatype double = NaN | NInf | Fin rat | PInf

definition ilog2 :: "rat \<Rightarrow> int" where
  "ilog2 x =
     (let (n, d) = quotient_of x;
          e = int (nlog2 (nat n)) - int (nlog2 (nat d))
      in if 2 powi e \<le> x then e else e - 1)"

definition round_half_even :: "rat \<Rightarrow> int" where
  "round_half_even q =
     (let f = \<lfloor>q\<rfloor>; r = q - of_int f
      in if r < 1 / 2 then f else if r > 1 / 2 then f + 1 else if even f then f else f + 1)"

definition ulp_of :: "rat \<Rightarrow> rat" where
  "ulp_of x = 2 powi (max (ilog2 \<bar>x\<bar>) (- 1022) - 52)"

definition rounded :: "rat \<Rightarrow> rat" where
  "rounded x = (if x = 0 then 0 else of_int (round_half_even (x / ulp_of x)) * ulp_of x)"

definition fl :: "rat \<Rightarrow> double" where
  "fl x =
     (let y = rounded x
      in if 2 ^ 1024 \<le> y then PInf else if y \<le> - (2 ^ 1024) then NInf else Fin y)"

fun dless :: "double \<Rightarrow> double \<Rightarrow> bool" where
  "dless (Fin a) (Fin b) = (a < b)"
| "dless NInf (Fin b) = True"
| "dless NInf PInf = True"
| "dless (Fin a) PInf = True"
| "dless _ _ = False"

fun dle :: "double \<Rightarrow> double \<Rightarrow> bool" where
  "dle NaN _ = False"
| "dle _ NaN = False"
| "dle (Fin a) (Fin b) = (a \<le> b)"
| "dle NInf _ = True"
| "dle _ PInf = True"
| "dle _ _ = False"

fun dneg :: "double \<Rightarrow> double" where
  "dneg NaN = NaN"
| "dneg NInf = PInf"
| "dneg (Fin a) = Fin (- a)"
| "dneg PInf = NInf"

fun fabs :: "double \<Rightarrow> double" where
  "fabs NaN = NaN"
| "fabs NInf = PInf"
| "fabs (Fin a) = Fin \<bar>a\<bar>"
| "fabs PInf = PInf"

fun dadd :: "double \<Rightarrow> double \<Rightarrow> double" where
  "dadd (Fin a) (Fin b) = fl (a + b)"
| "dadd NaN _ = NaN"
| "dadd _ NaN = NaN"
| "dadd PInf NInf = NaN"
| "dadd NInf PInf = NaN"
| "dadd PInf _ = PInf"
| "dadd _ PInf = PInf"
| "dadd NInf _ = NInf"
| "dadd _ NInf = NInf"

definition dsub :: "double \<Rightarrow> double \<Rightarrow> double" where
  "dsub x y = dadd x (dneg y)"

text \<open>\<open>std::min\<close> and \<open>std::max\<close>: the first argument unless the second compares strictly.\<close>

definition dmin :: "double \<Rightarrow> double \<Rightarrow> double" where
  "dmin x y = (if dless y x then y else x)"

definition dmax :: "double \<Rightarrow> double \<Rightarrow> double" where
  "dmax x y = (if dless x y then y else x)"

definition dclamp :: "double \<Rightarrow> double \<Rightarrow> double \<Rightarrow> double" where
  "dclamp x lo hi = (if dless x lo then lo else if dless hi x then hi else x)"

text \<open>Products and quotients; a zero divisor counts as positive zero.\<close>

fun sign_of :: "double \<Rightarrow> int" where
  "sign_of NaN = 0"
| "sign_of NInf = - 1"
| "sign_of (Fin a) = (if a < 0 then - 1 else if a > 0 then 1 else 0)"
| "sign_of PInf = 1"

definition infinity_of :: "int \<Rightarrow> double" where
  "infinity_of s = (if s > 0 then PInf else if s < 0 then NInf else NaN)"

fun dmul :: "double \<Rightarrow> double \<Rightarrow> double" where
  "dmul (Fin a) (Fin b) = fl (a * b)"
| "dmul x y = infinity_of (sign_of x * sign_of y)"

fun ddiv :: "double \<Rightarrow> double \<Rightarrow> double" where
  "ddiv (Fin a) (Fin b) = (if b = 0 then infinity_of (sign_of (Fin a)) else fl (a / b))"
| "ddiv PInf (Fin b) = (if b < 0 then NInf else PInf)"
| "ddiv NInf (Fin b) = (if b < 0 then PInf else NInf)"
| "ddiv (Fin a) PInf = Fin 0"
| "ddiv (Fin a) NInf = Fin 0"
| "ddiv _ _ = NaN"

fun dceil :: "double \<Rightarrow> double" where
  "dceil (Fin a) = Fin (of_int \<lceil>a\<rceil>)"
| "dceil x = x"

text \<open>Conversions; out of range the conversion to an integer is undefined.\<close>

definition double_of_int :: "int \<Rightarrow> double" where
  "double_of_int n = fl (of_int n)"

fun double_to_u64 :: "double \<Rightarrow> u64 option" where
  "double_to_u64 (Fin a) =
     (let n = (if a < 0 then \<lceil>a\<rceil> else \<lfloor>a\<rfloor>) in if 0 \<le> n \<and> n < 2 ^ 64 then Some (word_of_int n) else None)"
| "double_to_u64 _ = None"

section \<open>Binary logarithm\<close>

lemma ilog2_bounds:
  assumes "0 < x"
  shows "2 powi (ilog2 x) \<le> x" and "x < 2 powi (ilog2 x + 1)"
proof -
  obtain n d where q: "quotient_of x = (n, d)" by (cases "quotient_of x")
  have d: "0 < d" using q by (rule quotient_of_denom_pos)
  have x: "x = of_int n / of_int d" using q by (rule quotient_of_div)
  then have n: "0 < n" using assms d by (simp add: zero_less_divide_iff)
  let ?a = "nlog2 (nat n)" and ?b = "nlog2 (nat d)"
  have bounds: "(2 :: rat) ^ nlog2 (nat m) \<le> of_int m \<and> of_int m < (2 :: rat) ^ Suc (nlog2 (nat m))"
    if "0 < m" for m
  proof -
    have "2 ^ nlog2 (nat m) \<le> nat m" "nat m < 2 ^ Suc (nlog2 (nat m))"
      using that nlog2_bounds [of "nat m"] by simp_all
    then have "(of_nat (2 ^ nlog2 (nat m)) :: rat) \<le> of_nat (nat m)"
      "(of_nat (nat m) :: rat) < of_nat (2 ^ Suc (nlog2 (nat m)))"
      by (simp_all only: of_nat_le_iff of_nat_less_iff)
    then show ?thesis using that by simp
  qed
  note b = bounds [OF n, THEN conjunct1] bounds [OF n, THEN conjunct2]
    bounds [OF d, THEN conjunct1] bounds [OF d, THEN conjunct2]
  let ?e = "int ?a - int ?b"
  have "2 powi (?e - 1) = (2 :: rat) ^ ?a / 2 ^ Suc ?b" "2 powi (?e + 1) = (2 :: rat) ^ Suc ?a / 2 ^ ?b"
    by (simp_all add: power_int_add power_int_diff)
  moreover have "(2 :: rat) ^ ?a / 2 ^ Suc ?b < x"
  proof -
    have "(2 :: rat) ^ ?a / 2 ^ Suc ?b \<le> of_int n / 2 ^ Suc ?b"
      using b(1) by (simp add: divide_right_mono)
    also have "\<dots> < of_int n / of_int d"
      using b(4) n d by (intro divide_strict_left_mono) simp_all
    finally show ?thesis using x by simp
  qed
  moreover have "x < (2 :: rat) ^ Suc ?a / 2 ^ ?b"
  proof -
    have "x \<le> of_int n / 2 ^ ?b"
      unfolding x using b(3) n d by (intro divide_left_mono) simp_all
    also have "\<dots> < 2 ^ Suc ?a / 2 ^ ?b"
      using b(2) by (intro divide_strict_right_mono) simp_all
    finally show ?thesis .
  qed
  ultimately show "2 powi (ilog2 x) \<le> x" "x < 2 powi (ilog2 x + 1)"
    using q by (auto simp: ilog2_def Let_def)
qed

lemma powi_two_mono: "i \<le> j \<Longrightarrow> (2 :: rat) powi i \<le> 2 powi j"
  by (rule power_int_increasing) simp_all

lemma powi_two_less_iff: "(2 :: rat) powi i < 2 powi j \<longleftrightarrow> i < j"
  using power_int_strict_increasing [of i j "2 :: rat"] powi_two_mono [of j i]
  by (cases "i < j") simp_all

lemma ilog2_unique: "2 powi e \<le> x \<Longrightarrow> x < 2 powi (e + 1) \<Longrightarrow> ilog2 x = e"
proof -
  assume e: "2 powi e \<le> x" "x < 2 powi (e + 1)"
  have "0 < (2 :: rat) powi e" by simp
  then have x: "0 < x" using e(1) by linarith
  have "e < ilog2 x + 1" "ilog2 x < e + 1"
    using ilog2_bounds [OF x] e powi_two_less_iff by (meson le_less_trans)+
  then show ?thesis by simp
qed

lemma ilog2_mono: "0 < x \<Longrightarrow> x \<le> y \<Longrightarrow> ilog2 x \<le> ilog2 y"
proof -
  assume "0 < x" "x \<le> y"
  then have "2 powi (ilog2 x) < (2 :: rat) powi (ilog2 y + 1)"
    using ilog2_bounds [of x] ilog2_bounds [of y] by linarith
  then show ?thesis by (simp add: powi_two_less_iff)
qed

section \<open>Rounding\<close>

lemma round_half_even_of_int [simp]: "round_half_even (of_int n) = n"
  by (simp add: round_half_even_def)

lemma round_half_even_error: "\<bar>of_int (round_half_even q) - q\<bar> \<le> 1 / 2"
  using of_int_floor_le [of q] floor_correct [of q]
  by (auto simp: round_half_even_def Let_def abs_le_iff)

lemma round_half_even_uminus: "round_half_even (- q) = - round_half_even q"
proof (cases "q \<in> \<int>")
  case True
  then obtain n where q: "q = of_int n" by (auto elim: Ints_cases)
  show ?thesis
    using round_half_even_of_int [of "- n"] by (simp only: q of_int_minus round_half_even_of_int)
next
  case False
  then have "\<lfloor>- q\<rfloor> = - \<lfloor>q\<rfloor> - 1"
    using floor_correct [of q] by (intro floor_unique) (auto simp: Ints_def image_iff less_le)
  then show ?thesis
    by (auto simp: round_half_even_def Let_def)
qed

lemma round_half_even_mono: "p \<le> q \<Longrightarrow> round_half_even p \<le> round_half_even q"
proof -
  assume "p \<le> q"
  then have "\<lfloor>p\<rfloor> \<le> \<lfloor>q\<rfloor>" by (rule floor_mono)
  then consider "\<lfloor>p\<rfloor> = \<lfloor>q\<rfloor>" | "\<lfloor>p\<rfloor> + 1 \<le> \<lfloor>q\<rfloor>" by linarith
  then show ?thesis
    using \<open>p \<le> q\<close> by cases (auto simp: round_half_even_def Let_def)
qed

lemma ulp_of_pos [simp]: "0 < ulp_of x"
  by (simp add: ulp_of_def)

lemma ulp_of_nonzero [simp]: "ulp_of x \<noteq> 0"
  using ulp_of_pos [of x] by linarith

lemma ulp_of_uminus [simp]: "ulp_of (- x) = ulp_of x"
  by (simp add: ulp_of_def)

lemma rounded_uminus: "rounded (- x) = - rounded x"
  by (simp add: rounded_def round_half_even_uminus)

lemma rounded_0 [simp]: "rounded 0 = 0"
  by (simp add: rounded_def)

text \<open>Rounding moves a number by at most half a unit in the last place.\<close>

lemma rounded_error: "\<bar>rounded x - x\<bar> \<le> ulp_of x / 2"
proof -
  have "rounded x - x = (of_int (round_half_even (x / ulp_of x)) - x / ulp_of x) * ulp_of x"
    using ulp_of_pos [of x] by (simp add: rounded_def left_diff_distrib round_half_even_def)
  then have "\<bar>rounded x - x\<bar> = \<bar>of_int (round_half_even (x / ulp_of x)) - x / ulp_of x\<bar> * ulp_of x"
    by (simp add: abs_mult abs_of_pos)
  also have "\<dots> \<le> 1 / 2 * ulp_of x"
    by (rule mult_right_mono [OF round_half_even_error]) (simp add: less_imp_le)
  finally show ?thesis by simp
qed

lemma rounded_upper:
  assumes "0 < x"
  shows "rounded x \<le> 2 powi (max (ilog2 x) (- 1022) + 1)"
proof -
  let ?e = "max (ilog2 x) (- 1022)"
  have u: "ulp_of x = 2 powi (?e - 52)" using assms by (simp add: ulp_of_def)
  have top: "2 powi (?e + 1) = of_int (2 ^ 53) * ulp_of x"
    unfolding u by (simp add: power_int_add power_int_diff)
  have "x \<le> 2 powi (?e + 1)"
    using ilog2_bounds(2) [OF assms] powi_two_mono [of "ilog2 x + 1" "?e + 1"] by simp
  then have "x / ulp_of x \<le> of_int (2 ^ 53)"
    unfolding top using ulp_of_pos [of x] by (simp add: divide_le_eq)
  then have "round_half_even (x / ulp_of x) \<le> 2 ^ 53"
    using round_half_even_mono round_half_even_of_int by metis
  then have "(of_int (round_half_even (x / ulp_of x)) :: rat) \<le> of_int (2 ^ 53)"
    by (simp only: of_int_le_iff)
  then show ?thesis
    unfolding top using assms by (simp add: rounded_def mult_right_mono less_imp_le)
qed

lemma rounded_lower:
  assumes "0 < x" and "- 1022 \<le> ilog2 x"
  shows "2 powi (ilog2 x) \<le> rounded x"
proof -
  have u: "ulp_of x = 2 powi (ilog2 x - 52)" using assms by (simp add: ulp_of_def max_def)
  have bot: "2 powi (ilog2 x) = of_int (2 ^ 52) * ulp_of x"
    unfolding u by (simp add: power_int_diff)
  have "of_int (2 ^ 52) \<le> x / ulp_of x"
    using ilog2_bounds(1) [OF assms(1)] unfolding bot using ulp_of_pos [of x] by (simp add: le_divide_eq)
  then have "2 ^ 52 \<le> round_half_even (x / ulp_of x)"
    using round_half_even_mono round_half_even_of_int by metis
  then have "(of_int (2 ^ 52) :: rat) \<le> of_int (round_half_even (x / ulp_of x))"
    by (simp only: of_int_le_iff)
  then show ?thesis
    unfolding bot using assms(1) by (simp add: rounded_def mult_right_mono less_imp_le)
qed

lemma rounded_nonneg: "0 \<le> x \<Longrightarrow> 0 \<le> rounded x"
proof -
  assume "0 \<le> x"
  then have "0 \<le> round_half_even (x / ulp_of x)"
    using round_half_even_mono [of 0 "x / ulp_of x"] round_half_even_of_int [of 0]
    by (simp add: less_imp_le)
  then show ?thesis by (simp add: rounded_def less_imp_le)
qed

lemma rounded_mono_pos: "0 < x \<Longrightarrow> x \<le> y \<Longrightarrow> rounded x \<le> rounded y"
proof -
  assume xy: "0 < x" "x \<le> y"
  let ?e = "\<lambda>x. max (ilog2 x) (- 1022)"
  have "?e x \<le> ?e y" using ilog2_mono [OF xy] by simp
  then consider "?e x = ?e y" | "?e x + 1 \<le> ilog2 y" "- 1022 \<le> ilog2 y" by linarith
  then show ?thesis
  proof cases
    case 1
    then have u: "ulp_of x = ulp_of y" using xy by (simp add: ulp_of_def)
    have "round_half_even (x / ulp_of y) \<le> round_half_even (y / ulp_of y)"
      using xy by (intro round_half_even_mono divide_right_mono) (simp_all add: less_imp_le)
    then show ?thesis
      using xy by (simp add: rounded_def u mult_right_mono less_imp_le)
  next
    case 2
    have "rounded x \<le> 2 powi (?e x + 1)" using xy(1) by (rule rounded_upper)
    also have "\<dots> \<le> 2 powi (ilog2 y)" using 2(1) by (rule powi_two_mono)
    also have "\<dots> \<le> rounded y" using 2(2) xy by (intro rounded_lower) simp_all
    finally show ?thesis .
  qed
qed

lemma rounded_mono: "x \<le> y \<Longrightarrow> rounded x \<le> rounded y"
proof -
  assume xy: "x \<le> y"
  consider "0 < x" | "y < 0" | "x \<le> 0" "0 \<le> y" by linarith
  then show ?thesis
  proof cases
    case 2
    then show ?thesis
      using rounded_mono_pos [of "- y" "- x"] xy by (simp add: rounded_uminus)
  next
    case 3
    then show ?thesis
      using rounded_nonneg [of y] rounded_nonneg [of "- x"] by (simp add: rounded_uminus)
  qed (rule rounded_mono_pos [OF _ xy])
qed

text \<open>The finite doubles are the multiples of \<open>2 ^ k\<close> by integers below \<open>2 ^ 53\<close>.\<close>

definition representable :: "rat \<Rightarrow> bool" where
  "representable x \<longleftrightarrow> \<bar>x\<bar> < 2 ^ 1024 \<and> rounded x = x"

lemma fl_representable: "representable x \<Longrightarrow> fl x = Fin x"
  by (auto simp: fl_def representable_def)

lemma rounded_integer_multiple:
  assumes "x = of_int m * ulp_of x"
  shows "rounded x = x"
proof (cases "x = 0")
  case False
  have "x / ulp_of x = of_int m" using assms ulp_of_pos [of x] by (simp add: divide_eq_eq)
  then have "rounded x = of_int m * ulp_of x"
    using False by (simp only: rounded_def round_half_even_of_int if_False)
  with assms show ?thesis by simp
qed simp

text \<open>Integers up to \<open>2 ^ 53\<close> are doubles.\<close>

lemma rounded_small_int:
  assumes "\<bar>m\<bar> < 2 ^ 53"
  shows "rounded (of_int m) = of_int m"
proof (cases "m = 0")
  case False
  let ?x = "of_int m :: rat"
  let ?e = "max (ilog2 \<bar>?x\<bar>) (- 1022)"
  have pos: "0 < \<bar>?x\<bar>" using False by simp
  have "\<bar>?x\<bar> < of_int (2 ^ 53)"
    using assms by (simp only: of_int_less_iff flip: of_int_abs)
  then have "2 powi (ilog2 \<bar>?x\<bar>) < (2 :: rat) powi 53"
    using ilog2_bounds(1) [OF pos] by simp
  then have "ilog2 \<bar>?x\<bar> < 53" by (simp only: powi_two_less_iff)
  then have e: "?e - 52 \<le> 0" by simp
  then obtain k where k: "?e - 52 = - int k"
    by (metis neg_le_0_iff_le nonneg_int_cases minus_minus neg_0_le_iff_le)
  have "?x = of_int (m * 2 ^ k) * ulp_of ?x"
    by (simp add: ulp_of_def k power_int_minus)
  then show ?thesis by (rule rounded_integer_multiple)
qed simp

end
