(* ===== verification/Safety_State_Machine.thy ===== *)
theory Safety_State_Machine
  imports Float64
begin

text \<open>
  The IEC 61800-5-2 supervisor (\<open>include/safeedge/safety/safety_state_machine.hpp\<close>,
  \<open>src/safety/safety_state_machine.cpp\<close>).  The object is a record; \<open>evaluate\<close> is cut
  at the section comments of the source: unconditional demands and the fault latch,
  the per-state monitors, the position monitor and the requests.  An early return of
  a section is \<open>Some\<close>, falling through is \<open>None\<close>.
\<close>

section \<open>Model\<close>

datatype SafetyFunction =
    SF_None | SF_SafeTorqueOff | SF_SafeStop1 | SF_SafeOperatingStop | SF_SafelyLimitedSpeed

datatype SafetyState =
    SafeTorqueOff | SelfTest | Stopping | OperatingStop | LimitedSpeed | Operational

text \<open>The underlying values of the enumeration, which order it by restrictiveness.\<close>

fun state_value :: "SafetyState \<Rightarrow> nat" where
  "state_value SafeTorqueOff = 0"
| "state_value SelfTest = 1"
| "state_value Stopping = 2"
| "state_value OperatingStop = 3"
| "state_value LimitedSpeed = 4"
| "state_value Operational = 5"

lemma state_value_inject [simp]: "state_value s = state_value t \<longleftrightarrow> s = t"
  by (cases s; cases t) simp_all

instantiation SafetyState :: linorder
begin

definition less_eq_SafetyState :: "SafetyState \<Rightarrow> SafetyState \<Rightarrow> bool" where
  "s \<le> t \<longleftrightarrow> state_value s \<le> state_value t"

definition less_SafetyState :: "SafetyState \<Rightarrow> SafetyState \<Rightarrow> bool" where
  "s < t \<longleftrightarrow> state_value s < state_value t"

instance
  by standard (auto simp: less_eq_SafetyState_def less_SafetyState_def)

end

datatype FaultReason =
    FR_None | FR_SelfTestFailed | FR_EmergencyStop | FR_SpeedLimitExceeded
  | FR_PositionLimitExceeded | FR_StandstillDeviation | FR_StopTimeExceeded
  | FR_CommunicationFault | FR_WatchdogTimeout | FR_ChannelDiscrepancy | FR_InvalidRequest

record SafetyLimits =
  limited_speed :: double
  position_min :: double
  position_max :: double
  position_monitoring_enabled :: bool
  standstill_window :: double
  standstill_speed :: double
  stop_time_limit_ns :: int

definition default_SafetyLimits :: SafetyLimits where
  "default_SafetyLimits =
     \<lparr>limited_speed = Fin 0, position_min = NInf, position_max = PInf,
      position_monitoring_enabled = False, standstill_window = Fin 0,
      standstill_speed = Fin 0, stop_time_limit_ns = 0\<rparr>"

record SafetyInputs =
  speed_magnitude :: double
  position :: double
  emergency_stop_asserted :: bool
  communication_ok :: bool
  heartbeat_ok :: bool
  self_test_passed :: bool
  request :: SafetyFunction
  acknowledge :: bool
  timestamp_ns :: int

definition default_SafetyInputs :: SafetyInputs where
  "default_SafetyInputs =
     \<lparr>speed_magnitude = Fin 0, position = Fin 0, emergency_stop_asserted = True,
      communication_ok = False, heartbeat_ok = False, self_test_passed = False,
      request = SF_SafeTorqueOff, acknowledge = False, timestamp_ns = 0\<rparr>"

record SafetyOutputs =
  torque_permitted :: bool
  motion_permitted :: bool
  speed_limit :: double
  brake_engaged :: bool
  out_state :: SafetyState
  out_fault :: FaultReason
  fault_latched :: bool

definition default_SafetyOutputs :: SafetyOutputs where
  "default_SafetyOutputs =
     \<lparr>torque_permitted = False, motion_permitted = False, speed_limit = Fin 0,
      brake_engaged = True, out_state = SafeTorqueOff, out_fault = FR_None,
      fault_latched = False\<rparr>"

record SafetyStateMachine =
  limits :: SafetyLimits
  state :: SafetyState
  fault :: FaultReason
  stop_started_ns :: int
  standstill_reference :: double

definition new_SafetyStateMachine :: "SafetyLimits \<Rightarrow> SafetyStateMachine" where
  "new_SafetyStateMachine ls =
     \<lparr>limits = ls, state = SelfTest, fault = FR_None, stop_started_ns = 0,
      standstill_reference = Fin 0\<rparr>"

definition faultLatched :: "SafetyStateMachine \<Rightarrow> bool" where
  "faultLatched m \<longleftrightarrow> fault m \<noteq> FR_None"

definition setLimits :: "SafetyStateMachine \<Rightarrow> SafetyLimits \<Rightarrow> SafetyStateMachine" where
  "setLimits m ls = m\<lparr>limits := ls\<rparr>"

definition sm_reset :: "SafetyStateMachine \<Rightarrow> SafetyStateMachine" where
  "sm_reset m =
     m\<lparr>state := SelfTest, fault := FR_None, stop_started_ns := 0, standstill_reference := Fin 0\<rparr>"

definition enterSafeTorqueOff :: "FaultReason \<Rightarrow> SafetyStateMachine \<Rightarrow> SafetyStateMachine" where
  "enterSafeTorqueOff reason m =
     (let m = m\<lparr>state := SafeTorqueOff\<rparr>
      in if reason \<noteq> FR_None \<and> fault m = FR_None then m\<lparr>fault := reason\<rparr> else m)"

definition forceFault :: "FaultReason \<Rightarrow> SafetyStateMachine \<Rightarrow> SafetyStateMachine" where
  "forceFault reason m = enterSafeTorqueOff reason m"

definition unconditionalDemandActive :: "SafetyInputs \<Rightarrow> bool" where
  "unconditionalDemandActive i \<longleftrightarrow>
     emergency_stop_asserted i \<or> \<not> communication_ok i \<or> \<not> heartbeat_ok i"

definition unconditionalDemandReason :: "SafetyInputs \<Rightarrow> FaultReason" where
  "unconditionalDemandReason i =
     (if emergency_stop_asserted i then FR_EmergencyStop
      else if \<not> communication_ok i then FR_CommunicationFault
      else if \<not> heartbeat_ok i then FR_WatchdogTimeout
      else FR_None)"

definition outputsFor :: "SafetyStateMachine \<Rightarrow> SafetyState \<Rightarrow> SafetyOutputs" where
  "outputsFor m s =
     (let outputs = default_SafetyOutputs
            \<lparr>out_state := s, out_fault := fault m, fault_latched := fault m \<noteq> FR_None\<rparr>
      in case s of
           SelfTest \<Rightarrow>
             outputs\<lparr>torque_permitted := False, motion_permitted := False, speed_limit := Fin 0,
               brake_engaged := True\<rparr>
         | SafeTorqueOff \<Rightarrow>
             outputs\<lparr>torque_permitted := False, motion_permitted := False, speed_limit := Fin 0,
               brake_engaged := True\<rparr>
         | Stopping \<Rightarrow>
             outputs\<lparr>torque_permitted := True, motion_permitted := False, speed_limit := Fin 0,
               brake_engaged := False\<rparr>
         | OperatingStop \<Rightarrow>
             outputs\<lparr>torque_permitted := True, motion_permitted := False, speed_limit := Fin 0,
               brake_engaged := False\<rparr>
         | LimitedSpeed \<Rightarrow>
             outputs\<lparr>torque_permitted := True, motion_permitted := True,
               speed_limit := limited_speed (limits m), brake_engaged := False\<rparr>
         | Operational \<Rightarrow>
             outputs\<lparr>torque_permitted := True, motion_permitted := True, speed_limit := PInf,
               brake_engaged := False\<rparr>)"

definition stateMonitors :: "SafetyStateMachine \<Rightarrow> SafetyInputs \<Rightarrow> SafetyStateMachine option" where
  "stateMonitors m i =
     (case state m of
        SelfTest \<Rightarrow>
          if \<not> self_test_passed i then Some m else Some (m\<lparr>state := SafeTorqueOff\<rparr>)
      | LimitedSpeed \<Rightarrow>
          if dless (limited_speed (limits m)) (speed_magnitude i)
          then Some (enterSafeTorqueOff FR_SpeedLimitExceeded m) else None
      | OperatingStop \<Rightarrow>
          if dless (standstill_window (limits m)) (fabs (dsub (position i) (standstill_reference m)))
          then Some (enterSafeTorqueOff FR_StandstillDeviation m)
          else if dless (standstill_speed (limits m)) (speed_magnitude i)
          then Some (enterSafeTorqueOff FR_StandstillDeviation m) else None
      | Stopping \<Rightarrow>
          if dle (speed_magnitude i) (standstill_speed (limits m))
          then Some (enterSafeTorqueOff FR_None m)
          else if timestamp_ns i - stop_started_ns m > stop_time_limit_ns (limits m)
          then Some (enterSafeTorqueOff FR_StopTimeExceeded m)
          else Some m
      | SafeTorqueOff \<Rightarrow> None
      | Operational \<Rightarrow> None)"

definition positionMonitor :: "SafetyStateMachine \<Rightarrow> SafetyInputs \<Rightarrow> SafetyStateMachine option" where
  "positionMonitor m i =
     (if position_monitoring_enabled (limits m) \<and> (state m = Operational \<or> state m = LimitedSpeed)
         \<and> (dless (position i) (position_min (limits m)) \<or> dless (position_max (limits m)) (position i))
      then Some (enterSafeTorqueOff FR_PositionLimitExceeded m) else None)"

definition requestedTransition :: "SafetyStateMachine \<Rightarrow> SafetyInputs \<Rightarrow> SafetyStateMachine" where
  "requestedTransition m i =
     (case request i of
        SF_SafeTorqueOff \<Rightarrow> enterSafeTorqueOff FR_None m
      | SF_SafeStop1 \<Rightarrow>
          if state m = Operational \<or> state m = LimitedSpeed \<or> state m = OperatingStop
          then m\<lparr>state := Stopping, stop_started_ns := timestamp_ns i\<rparr>
          else if state m = SafeTorqueOff then m\<lparr>state := SafeTorqueOff\<rparr>
          else m
      | SF_SafeOperatingStop \<Rightarrow>
          if state m = Operational \<or> state m = LimitedSpeed
          then if dless (standstill_speed (limits m)) (speed_magnitude i)
               then enterSafeTorqueOff FR_InvalidRequest m
               else m\<lparr>state := OperatingStop, standstill_reference := position i\<rparr>
          else if state m = SafeTorqueOff then enterSafeTorqueOff FR_InvalidRequest m
          else m
      | SF_SafelyLimitedSpeed \<Rightarrow>
          if state m = SafeTorqueOff \<or> state m = Operational \<or> state m = OperatingStop
          then if dless (limited_speed (limits m)) (speed_magnitude i)
               then enterSafeTorqueOff FR_SpeedLimitExceeded m
               else m\<lparr>state := LimitedSpeed\<rparr>
          else m
      | SF_None \<Rightarrow>
          if state m = SafeTorqueOff \<or> state m = LimitedSpeed \<or> state m = OperatingStop
          then m\<lparr>state := Operational\<rparr>
          else m)"

text \<open>
  \<open>evaluate\<close> as a change of the object, and as the call: every return statement
  returns \<open>outputsFor(state_)\<close> of the object as it is then.
\<close>

definition evaluate_object :: "SafetyStateMachine \<Rightarrow> SafetyInputs \<Rightarrow> SafetyStateMachine" where
  "evaluate_object m i =
     (if unconditionalDemandActive i then enterSafeTorqueOff (unconditionalDemandReason i) m
      else if fault m \<noteq> FR_None
        then (if acknowledge i then m\<lparr>fault := FR_None\<rparr> else m)\<lparr>state := SafeTorqueOff\<rparr>
      else case stateMonitors m i of Some m' \<Rightarrow> m'
           | None \<Rightarrow> (case positionMonitor m i of Some m' \<Rightarrow> m'
                     | None \<Rightarrow> requestedTransition m i))"

definition evaluate :: "SafetyStateMachine \<Rightarrow> SafetyInputs \<Rightarrow> SafetyOutputs \<times> SafetyStateMachine" where
  "evaluate m i = (let m' = evaluate_object m i in (outputsFor m' (state m'), m'))"

fun toString_state :: "SafetyState \<Rightarrow> string" where
  "toString_state SelfTest = ''SelfTest''"
| "toString_state SafeTorqueOff = ''STO''"
| "toString_state Stopping = ''SS1-Stopping''"
| "toString_state OperatingStop = ''SOS''"
| "toString_state LimitedSpeed = ''SLS''"
| "toString_state Operational = ''Operational''"

fun toString_fault :: "FaultReason \<Rightarrow> string" where
  "toString_fault FR_None = ''none''"
| "toString_fault FR_SelfTestFailed = ''self-test failed''"
| "toString_fault FR_EmergencyStop = ''emergency stop''"
| "toString_fault FR_SpeedLimitExceeded = ''speed limit exceeded''"
| "toString_fault FR_PositionLimitExceeded = ''position limit exceeded''"
| "toString_fault FR_StandstillDeviation = ''standstill deviation''"
| "toString_fault FR_StopTimeExceeded = ''stop time exceeded''"
| "toString_fault FR_CommunicationFault = ''communication fault''"
| "toString_fault FR_WatchdogTimeout = ''watchdog timeout''"
| "toString_fault FR_ChannelDiscrepancy = ''channel discrepancy''"
| "toString_fault FR_InvalidRequest = ''invalid request''"

fun toString_function :: "SafetyFunction \<Rightarrow> string" where
  "toString_function SF_None = ''none''"
| "toString_function SF_SafeTorqueOff = ''STO''"
| "toString_function SF_SafeStop1 = ''SS1''"
| "toString_function SF_SafeOperatingStop = ''SOS''"
| "toString_function SF_SafelyLimitedSpeed = ''SLS''"

section \<open>The operations\<close>

lemma enterSafeTorqueOff_simps [simp]:
  "state (enterSafeTorqueOff r m) = SafeTorqueOff"
  "fault (enterSafeTorqueOff r m) = (if fault m = FR_None then r else fault m)"
  "limits (enterSafeTorqueOff r m) = limits m"
  "stop_started_ns (enterSafeTorqueOff r m) = stop_started_ns m"
  "standstill_reference (enterSafeTorqueOff r m) = standstill_reference m"
  by (auto simp: enterSafeTorqueOff_def Let_def)

lemma outputsFor_simps [simp]:
  "torque_permitted (outputsFor m s) \<longleftrightarrow> s \<noteq> SafeTorqueOff \<and> s \<noteq> SelfTest"
  "motion_permitted (outputsFor m s) \<longleftrightarrow> s = LimitedSpeed \<or> s = Operational"
  "brake_engaged (outputsFor m s) \<longleftrightarrow> s = SafeTorqueOff \<or> s = SelfTest"
  "speed_limit (outputsFor m s) =
     (if s = Operational then PInf else if s = LimitedSpeed then limited_speed (limits m) else Fin 0)"
  "out_state (outputsFor m s) = s"
  "out_fault (outputsFor m s) = fault m"
  "fault_latched (outputsFor m s) = faultLatched m"
  by (cases s; simp add: outputsFor_def default_SafetyOutputs_def faultLatched_def)+

lemma unconditionalDemandReason_iff [simp]:
  "unconditionalDemandReason i = FR_None \<longleftrightarrow> \<not> unconditionalDemandActive i"
  by (simp add: unconditionalDemandReason_def unconditionalDemandActive_def)

lemma evaluate_eq: "evaluate m i = (outputsFor (evaluate_object m i) (state (evaluate_object m i)), evaluate_object m i)"
  by (simp add: evaluate_def Let_def)

lemma evaluate_demand:
  "unconditionalDemandActive i \<Longrightarrow>
   evaluate_object m i = enterSafeTorqueOff (unconditionalDemandReason i) m"
  by (simp add: evaluate_object_def)

lemma evaluate_latched:
  "fault m \<noteq> FR_None \<Longrightarrow> state (evaluate_object m i) = SafeTorqueOff
     \<and> fault (evaluate_object m i) =
         (if acknowledge i \<and> \<not> unconditionalDemandActive i then FR_None else fault m)"
  by (simp add: evaluate_object_def)

text \<open>A cycle without demand and without latched fault, by state.\<close>

lemmas section_defs = stateMonitors_def positionMonitor_def requestedTransition_def

definition healthy :: "SafetyStateMachine \<Rightarrow> SafetyInputs \<Rightarrow> bool" where
  "healthy m i \<longleftrightarrow> \<not> unconditionalDemandActive i \<and> fault m = FR_None"

lemma evaluate_healthy:
  "healthy m i \<Longrightarrow> evaluate_object m i =
     (case stateMonitors m i of Some m' \<Rightarrow> m'
      | None \<Rightarrow> (case positionMonitor m i of Some m' \<Rightarrow> m' | None \<Rightarrow> requestedTransition m i))"
  by (simp add: healthy_def evaluate_object_def)

lemma torque_needs_health:
  "state (evaluate_object m i) \<noteq> SafeTorqueOff \<Longrightarrow> healthy m i"
  using evaluate_demand [of i m] evaluate_latched [of m i] by (auto simp: healthy_def)

lemma limits_evaluate [simp]: "limits (evaluate_object m i) = limits m"
  by (auto simp: evaluate_object_def section_defs split: SafetyState.split SafetyFunction.split option.split)

lemma fault_means_sto:
  assumes "fault m \<noteq> FR_None \<longrightarrow> state m = SafeTorqueOff" and "fault (evaluate_object m i) \<noteq> FR_None"
  shows "state (evaluate_object m i) = SafeTorqueOff"
proof (rule ccontr)
  assume sto: "state (evaluate_object m i) \<noteq> SafeTorqueOff"
  then have h: "healthy m i" by (rule torque_needs_health)
  then have "fault (evaluate_object m i) = FR_None"
    using sto unfolding evaluate_healthy [OF h]
    by (auto simp: section_defs healthy_def split: SafetyState.splits SafetyFunction.splits option.splits if_splits)
  with assms(2) show False by simp
qed

text \<open>The transition diagram.\<close>

fun transition_allowed :: "SafetyState \<Rightarrow> SafetyState \<Rightarrow> bool" where
  "transition_allowed s SafeTorqueOff = True"
| "transition_allowed s SelfTest = (s = SelfTest)"
| "transition_allowed s Stopping = (s \<in> {Stopping, OperatingStop, LimitedSpeed, Operational})"
| "transition_allowed s OperatingStop = (s \<in> {OperatingStop, LimitedSpeed, Operational})"
| "transition_allowed s LimitedSpeed = (s \<in> {SafeTorqueOff, OperatingStop, LimitedSpeed, Operational})"
| "transition_allowed s Operational = (s \<in> {SafeTorqueOff, OperatingStop, LimitedSpeed, Operational})"

lemma evaluate_transition: "transition_allowed (state m) (state (evaluate_object m i))"
proof (cases "state (evaluate_object m i) = SafeTorqueOff")
  case False
  then have h: "healthy m i" by (rule torque_needs_health)
  then show ?thesis
    unfolding evaluate_healthy [OF h]
    by (cases "state m"; cases "request i")
      (auto simp: section_defs split: if_splits)
qed simp

section \<open>The contract of a latching channel\<close>

text \<open>
  What a supervisor of several channels relies on: a fault can be forced on a
  channel, it survives every cycle that does not acknowledge it, and a channel
  that enters a cycle latched permits no torque in it.
\<close>

fun channel_run :: "('m \<Rightarrow> 'i \<Rightarrow> SafetyOutputs \<times> 'm) \<Rightarrow> 'm \<Rightarrow> 'i list \<Rightarrow> SafetyOutputs list \<times> 'm" where
  "channel_run eval m [] = ([], m)"
| "channel_run eval m (i # is) =
     (let (out, m') = eval m i; (outs, m'') = channel_run eval m' is in (out # outs, m''))"

locale latching_channel =
  fixes eval :: "'m \<Rightarrow> 'i \<Rightarrow> SafetyOutputs \<times> 'm"
    and force :: "FaultReason \<Rightarrow> 'm \<Rightarrow> 'm"
    and latched :: "'m \<Rightarrow> bool"
    and acked :: "'i \<Rightarrow> bool"
  assumes force_latches: "r \<noteq> FR_None \<Longrightarrow> latched (force r m)"
    and latched_stays: "latched m \<Longrightarrow> \<not> acked i \<Longrightarrow> latched (snd (eval m i))"
    and latched_denies: "latched m \<Longrightarrow> \<not> torque_permitted (fst (eval m i)) \<and> \<not> motion_permitted (fst (eval m i))"
begin

lemma latched_run:
  "latched m \<Longrightarrow> \<forall>i\<in>set is. \<not> acked i \<Longrightarrow>
   latched (snd (channel_run eval m is)) \<and>
   (\<forall>out\<in>set (fst (channel_run eval m is)). \<not> torque_permitted out \<and> \<not> motion_permitted out)"
proof (induction "is" arbitrary: m)
  case (Cons i "is")
  have "latched (snd (eval m i))" using Cons.prems by (simp add: latched_stays)
  then show ?case
    using Cons.IH [of "snd (eval m i)"] Cons.prems latched_denies [of m i] by (simp add: split_beta)
qed simp

text \<open>The cycle that acknowledges still permits nothing.\<close>

lemma acknowledging_cycle_denies:
  assumes "latched m" and "\<forall>i\<in>set is. \<not> acked i"
  shows "\<forall>out\<in>set (fst (channel_run eval m (is @ [j]))). \<not> torque_permitted out \<and> \<not> motion_permitted out"
  using assms
proof (induction "is" arbitrary: m)
  case Nil
  then show ?case using latched_denies [of m j] by (simp add: split_beta)
next
  case (Cons i "is")
  have "latched (snd (eval m i))" using Cons.prems by (simp add: latched_stays)
  then show ?case
    using Cons.IH [of "snd (eval m i)"] Cons.prems latched_denies [of m i] by (simp add: split_beta)
qed

lemma forced_run_denies:
  assumes "r \<noteq> FR_None" and "\<forall>i\<in>set is. \<not> acked i"
  shows "\<forall>out\<in>set (fst (channel_run eval (force r m) (is @ [j]))).
           \<not> torque_permitted out \<and> \<not> motion_permitted out"
  using acknowledging_cycle_denies [OF force_latches [OF assms(1)] assms(2)] .

end

definition acknowledges :: "SafetyInputs \<Rightarrow> bool" where
  "acknowledges i \<longleftrightarrow> acknowledge i \<and> \<not> unconditionalDemandActive i"

interpretation sm: latching_channel evaluate forceFault faultLatched acknowledges
proof unfold_locales
  show "faultLatched (forceFault r m)" if "r \<noteq> FR_None" for r m
    using that by (simp add: faultLatched_def forceFault_def)
  show "faultLatched (snd (evaluate m i))" if "faultLatched m" "\<not> acknowledges i" for m i
    using that evaluate_latched [of m i] by (auto simp: faultLatched_def evaluate_eq acknowledges_def)
  show "\<not> torque_permitted (fst (evaluate m i)) \<and> \<not> motion_permitted (fst (evaluate m i))" if "faultLatched m" for m i
    using that evaluate_latched [of m i] by (simp add: faultLatched_def evaluate_eq)
qed

section \<open>Runs of calls\<close>

text \<open>Everything a caller can do to the object.\<close>

inductive sm_reachable :: "SafetyStateMachine \<Rightarrow> bool" where
  construct: "sm_reachable (new_SafetyStateMachine ls)"
| evaluate: "sm_reachable m \<Longrightarrow> sm_reachable (snd (evaluate m i))"
| forceFault: "sm_reachable m \<Longrightarrow> sm_reachable (forceFault r m)"
| setLimits: "sm_reachable m \<Longrightarrow> sm_reachable (setLimits m ls)"
| reset: "sm_reachable m \<Longrightarrow> sm_reachable (sm_reset m)"

lemma reachable_fault_sto: "sm_reachable m \<Longrightarrow> fault m \<noteq> FR_None \<longrightarrow> state m = SafeTorqueOff"
proof (induction rule: sm_reachable.induct)
  case (evaluate m i)
  then show ?case using fault_means_sto [of m i] by (simp add: evaluate_eq)
qed (auto simp: new_SafetyStateMachine_def forceFault_def setLimits_def sm_reset_def)

text \<open>The object after a sequence of cycles.\<close>

fun after_cycles :: "SafetyStateMachine \<Rightarrow> SafetyInputs list \<Rightarrow> SafetyStateMachine" where
  "after_cycles m [] = m"
| "after_cycles m (i # is) = after_cycles (snd (evaluate m i)) is"

lemma evaluate_stopping:
  assumes "state m = Stopping"
  shows "state (evaluate_object m i) = SafeTorqueOff \<or>
    (evaluate_object m i = m \<and> timestamp_ns i - stop_started_ns m \<le> stop_time_limit_ns (limits m))"
proof (cases "state (evaluate_object m i) = SafeTorqueOff")
  case False
  then have h: "healthy m i" by (rule torque_needs_health)
  show ?thesis
    using assms False unfolding evaluate_healthy [OF h] by (auto simp: stateMonitors_def split: if_splits)
qed simp

lemma stopping_until_sto:
  assumes "state m = Stopping" and "k < length is"
    and "timestamp_ns (is ! k) - stop_started_ns m > stop_time_limit_ns (limits m)"
  shows "\<exists>j\<le>k. state (after_cycles m (take (Suc j) is)) = SafeTorqueOff
    \<and> (\<forall>l\<le>j. state (after_cycles m (take l is)) = Stopping)"
  using assms
proof (induction "is" arbitrary: k)
  case (Cons i "is")
  let ?m = "evaluate_object m i"
  show ?case
  proof (cases "state ?m = SafeTorqueOff")
    case True
    then show ?thesis
      using Cons.prems(1) by (intro exI [of _ 0]) (simp add: evaluate_eq)
  next
    case False
    with evaluate_stopping [OF Cons.prems(1), of i]
    have same: "?m = m" "timestamp_ns i - stop_started_ns m \<le> stop_time_limit_ns (limits m)"
      by blast+
    with Cons.prems(3) obtain k' where k: "k = Suc k'" by (cases k) auto
    then obtain j where j: "j \<le> k'" "state (after_cycles m (take (Suc j) is)) = SafeTorqueOff"
        "\<forall>l\<le>j. state (after_cycles m (take l is)) = Stopping"
      using Cons.IH [of k'] Cons.prems by auto
    have "state (after_cycles m (take l (i # is))) = Stopping" if "l \<le> Suc j" for l
      using that j(3) Cons.prems(1) same by (cases l) (simp_all add: evaluate_eq)
    then show ?thesis
      using j k same by (intro exI [of _ "Suc j"]) (simp add: evaluate_eq)
  qed
qed simp

section \<open>Properties\<close>

text \<open>
  C12. Emergency stop, lost communication and a lost heartbeat override everything:
  from any state and with any request, the cycle ends in Safe Torque Off with
  nothing permitted and the brake engaged, and latches the demand as the cause
  unless an earlier cause is already latched, which is kept.
\<close>

theorem demand_removes_torque:
  assumes "unconditionalDemandActive i" and "evaluate m i = (out, m')"
  shows "state m' = SafeTorqueOff \<and> \<not> torque_permitted out \<and> \<not> motion_permitted out
    \<and> brake_engaged out \<and> speed_limit out = Fin 0 \<and> fault_latched out
    \<and> fault m' = (if fault m = FR_None then unconditionalDemandReason i else fault m)"
  using assms by (auto simp: evaluate_eq evaluate_demand faultLatched_def)

theorem demand_removes_torque_witness:
  "case evaluate ((new_SafetyStateMachine default_SafetyLimits)\<lparr>state := Operational\<rparr>)
       (default_SafetyInputs\<lparr>request := SF_None\<rparr>)
   of (out, m') \<Rightarrow> state m' = SafeTorqueOff \<and> \<not> torque_permitted out \<and> fault m' = FR_EmergencyStop"
proof -
  let ?m = "(new_SafetyStateMachine default_SafetyLimits)\<lparr>state := Operational\<rparr>"
  let ?i = "default_SafetyInputs\<lparr>request := SF_None\<rparr>"
  obtain out m' where e: "evaluate ?m ?i = (out, m')" by (cases "evaluate ?m ?i")
  have "unconditionalDemandActive ?i"
    by (simp add: unconditionalDemandActive_def default_SafetyInputs_def)
  from demand_removes_torque [OF this e] show ?thesis
    unfolding e by (simp add: new_SafetyStateMachine_def unconditionalDemandReason_def default_SafetyInputs_def)
qed

text \<open>
  C11. Torque is permitted only by a cycle that saw no demand, started and ended
  without a latched fault, did not start in the self test, and, if it started in
  Safe Torque Off, was asked for motion.
\<close>

theorem torque_requires:
  assumes "evaluate m i = (out, m')" and "torque_permitted out"
  shows "\<not> emergency_stop_asserted i \<and> communication_ok i \<and> heartbeat_ok i
    \<and> fault m = FR_None \<and> fault m' = FR_None \<and> state m \<noteq> SelfTest
    \<and> (state m = SafeTorqueOff \<longrightarrow> request i = SF_None \<or> request i = SF_SafelyLimitedSpeed)"
proof -
  have m': "m' = evaluate_object m i" "state m' \<noteq> SafeTorqueOff" "state m' \<noteq> SelfTest"
    using assms by (auto simp: evaluate_eq)
  then have h: "healthy m i" using torque_needs_health by simp
  moreover have "fault m' = FR_None"
    using fault_means_sto [of m i] m' h by (auto simp: healthy_def)
  moreover have "state m \<noteq> SelfTest"
    using evaluate_transition [of m i] m' by (cases "state m'") auto
  moreover have "request i = SF_None \<or> request i = SF_SafelyLimitedSpeed" if "state m = SafeTorqueOff"
    using m' that unfolding m'(1) evaluate_healthy [OF h]
    by (cases "request i") (auto simp: section_defs)
  ultimately show ?thesis
    by (auto simp: healthy_def unconditionalDemandActive_def)
qed

theorem torque_requires_witness:
  "let i = default_SafetyInputs\<lparr>emergency_stop_asserted := False, communication_ok := True,
             heartbeat_ok := True, request := SF_None\<rparr>;
       m = (new_SafetyStateMachine default_SafetyLimits)\<lparr>state := SafeTorqueOff\<rparr>
   in torque_permitted (fst (evaluate m i)) \<and> fault (snd (evaluate m i)) = FR_None"
proof -
  let ?i = "default_SafetyInputs\<lparr>emergency_stop_asserted := False, communication_ok := True,
             heartbeat_ok := True, request := SF_None\<rparr>"
  let ?m = "(new_SafetyStateMachine default_SafetyLimits)\<lparr>state := SafeTorqueOff\<rparr>"
  have "torque_permitted (fst (evaluate ?m ?i))"
    by (simp add: evaluate_eq evaluate_object_def section_defs unconditionalDemandActive_def
        default_SafetyInputs_def new_SafetyStateMachine_def default_SafetyLimits_def)
  moreover from this have "fault (snd (evaluate ?m ?i)) = FR_None"
    using torque_requires [of ?m ?i "fst (evaluate ?m ?i)" "snd (evaluate ?m ?i)"] by simp
  ultimately show ?thesis by simp
qed

text \<open>
  C13. Faults latch: while no cycle both acknowledges and is free of demands, a
  latched machine keeps its cause, stays in Safe Torque Off and permits neither
  torque nor motion, and the acknowledging cycle itself permits nothing either,
  whatever it requests.
\<close>

theorem latched_until_acknowledged:
  assumes "fault m \<noteq> FR_None"
    and "\<forall>i\<in>set is. \<not> (acknowledge i \<and> \<not> unconditionalDemandActive i)"
  shows "fault (snd (channel_run evaluate m is)) = fault m \<and>
    (\<forall>out\<in>set (fst (channel_run evaluate m (is @ [j]))). \<not> torque_permitted out \<and> \<not> motion_permitted out)"
proof -
  have "fault (snd (channel_run evaluate m is)) = fault m"
    using assms
  proof (induction "is" arbitrary: m)
    case (Cons i "is")
    then have "fault (evaluate_object m i) = fault m"
      using evaluate_latched [of m i] by auto
    then show ?case
      using Cons.IH [of "evaluate_object m i"] Cons.prems by (simp add: evaluate_eq split_beta)
  qed simp
  moreover have "\<forall>i\<in>set is. \<not> acknowledges i"
    using assms(2) by (simp add: acknowledges_def)
  ultimately show ?thesis
    using sm.acknowledging_cycle_denies [of m "is" j] assms(1) by (simp add: faultLatched_def)
qed

theorem latched_until_acknowledged_witness:
  "let m = (new_SafetyStateMachine default_SafetyLimits)\<lparr>state := SafeTorqueOff, fault := FR_SpeedLimitExceeded\<rparr>;
       i = default_SafetyInputs\<lparr>acknowledge := True, request := SF_None\<rparr>;
       j = i\<lparr>emergency_stop_asserted := False, communication_ok := True, heartbeat_ok := True\<rparr>
   in \<forall>out\<in>set (fst (channel_run evaluate m ([i, i] @ [j]))). \<not> torque_permitted out \<and> \<not> motion_permitted out"
  using latched_until_acknowledged [of
      "(new_SafetyStateMachine default_SafetyLimits)\<lparr>state := SafeTorqueOff, fault := FR_SpeedLimitExceeded\<rparr>"
      "[default_SafetyInputs\<lparr>acknowledge := True, request := SF_None\<rparr>,
        default_SafetyInputs\<lparr>acknowledge := True, request := SF_None\<rparr>]"
      "default_SafetyInputs\<lparr>acknowledge := True, request := SF_None, emergency_stop_asserted := False,
         communication_ok := True, heartbeat_ok := True\<rparr>"]
  by (simp add: unconditionalDemandActive_def default_SafetyInputs_def new_SafetyStateMachine_def)

text \<open>
  Invariant of the object under every call a client can make (construction,
  \<open>evaluate\<close>, \<open>forceFault\<close>, \<open>setLimits\<close>, \<open>reset\<close>): a latched fault means Safe
  Torque Off.
\<close>

theorem latched_is_sto:
  assumes "sm_reachable m" and "faultLatched m"
  shows "state m = SafeTorqueOff"
  using reachable_fault_sto [OF assms(1)] assms(2) by (simp add: faultLatched_def)

theorem latched_is_sto_witness:
  "state (forceFault FR_ChannelDiscrepancy (new_SafetyStateMachine default_SafetyLimits)) = SafeTorqueOff"
  by (rule latched_is_sto)
    (intro sm_reachable.intros, simp add: faultLatched_def forceFault_def new_SafetyStateMachine_def)

text \<open>
  The transition diagram: a cycle moves between states only along its edges.
  In particular nothing but Safe Torque Off is entered from the self test, a
  controlled stop is left only into Safe Torque Off, and a stop is never entered
  from Safe Torque Off.
\<close>

theorem evaluate_follows_diagram:
  "transition_allowed (state m) (out_state (fst (evaluate m i))) \<and>
   out_state (fst (evaluate m i)) = state (snd (evaluate m i))"
  using evaluate_transition [of m i] by (simp add: evaluate_eq)

text \<open>
  Safe Stop 1 ends: once a controlled stop runs, the cycle that first sees
  the stop time exceeded, or an earlier one, is in Safe Torque Off, and every
  cycle before that is still stopping, so no request interrupts it.
\<close>

theorem safe_stop_1_ends:
  assumes "state m = Stopping" and "k < length is"
    and "timestamp_ns (is ! k) - stop_started_ns m > stop_time_limit_ns (limits m)"
  shows "\<exists>j\<le>k. state (after_cycles m (take (Suc j) is)) = SafeTorqueOff
    \<and> (\<forall>l\<le>j. state (after_cycles m (take l is)) = Stopping)"
  using assms by (rule stopping_until_sto)

theorem safe_stop_1_ends_witness:
  "let m = (new_SafetyStateMachine default_SafetyLimits)\<lparr>state := Stopping, stop_started_ns := 5\<rparr>;
       i = default_SafetyInputs\<lparr>emergency_stop_asserted := False, communication_ok := True,
             heartbeat_ok := True, request := SF_None, speed_magnitude := Fin 1, timestamp_ns := 5\<rparr>;
       is = [i, i\<lparr>timestamp_ns := 6\<rparr>]
   in \<exists>j\<le>1. state (after_cycles m (take (Suc j) is)) = SafeTorqueOff
        \<and> (\<forall>l\<le>j. state (after_cycles m (take l is)) = Stopping)"
  unfolding Let_def
  by (rule safe_stop_1_ends) (simp_all add: new_SafetyStateMachine_def default_SafetyLimits_def)

text \<open>
  Safely Limited Speed: a cycle that measures more than the limit never ends
  in the limited-speed state, and if it started there it removes torque and
  latches a fault, whatever is requested.
\<close>

theorem limited_speed_enforced:
  assumes "dless (limited_speed (limits m)) (speed_magnitude i)" and "evaluate m i = (out, m')"
  shows "state m' \<noteq> LimitedSpeed \<and>
    (state m = LimitedSpeed \<longrightarrow> state m' = SafeTorqueOff \<and> \<not> torque_permitted out \<and>
       (fault m' \<noteq> FR_None \<or> fault m \<noteq> FR_None))"
proof -
  have m': "m' = evaluate_object m i" "out = outputsFor m' (state m')"
    using assms(2) by (auto simp: evaluate_eq)
  show ?thesis
  proof (cases "healthy m i")
    case True
    have "state m' \<noteq> LimitedSpeed"
      using assms(1) unfolding m'(1) evaluate_healthy [OF True]
      by (cases "state m"; cases "request i") (simp_all add: section_defs)
    moreover have "m' = enterSafeTorqueOff FR_SpeedLimitExceeded m" if "state m = LimitedSpeed"
      using assms(1) that unfolding m'(1) evaluate_healthy [OF True] by (simp add: stateMonitors_def)
    ultimately show ?thesis
      using m'(2) by auto
  next
    case False
    then have "state m' = SafeTorqueOff"
      using m' torque_needs_health [of m i] by auto
    moreover have "fault m' \<noteq> FR_None \<or> fault m \<noteq> FR_None"
      using False by (auto simp: m'(1) healthy_def evaluate_demand)
    ultimately show ?thesis
      using m'(2) by simp
  qed
qed

theorem limited_speed_enforced_witness:
  "let m = (new_SafetyStateMachine default_SafetyLimits)\<lparr>state := LimitedSpeed\<rparr>;
       i = default_SafetyInputs\<lparr>emergency_stop_asserted := False, communication_ok := True,
             heartbeat_ok := True, request := SF_SafelyLimitedSpeed, speed_magnitude := Fin 1\<rparr>
   in state (snd (evaluate m i)) = SafeTorqueOff"
  using limited_speed_enforced [of "(new_SafetyStateMachine default_SafetyLimits)\<lparr>state := LimitedSpeed\<rparr>"
      "default_SafetyInputs\<lparr>emergency_stop_asserted := False, communication_ok := True,
             heartbeat_ok := True, request := SF_SafelyLimitedSpeed, speed_magnitude := Fin 1\<rparr>", OF _ prod.collapse [symmetric]]
  by (simp add: new_SafetyStateMachine_def default_SafetyLimits_def)

text \<open>
  Safe Operating Stop, in real arithmetic: a drift from the captured position
  that exceeds the window by more than half a unit in the last place removes
  torque and latches a fault in the same cycle, whatever is requested; a drift
  within the window is never reported as one.  The distance is computed in
  floating point, whose rounding is all that lies between the two.
\<close>

theorem operating_stop_drift:
  assumes "state m = OperatingStop" and "healthy m i" and "evaluate m i = (out, m')"
    and "position i = Fin p" and "standstill_reference m = Fin r"
    and "standstill_window (limits m) = Fin w" and "representable w"
  shows "(\<bar>p - r\<bar> > w + ulp_of (p - r) / 2 \<longrightarrow>
            state m' = SafeTorqueOff \<and> fault m' = FR_StandstillDeviation \<and> \<not> torque_permitted out)
    \<and> (\<bar>p - r\<bar> \<le> w \<and> \<not> dless (standstill_speed (limits m)) (speed_magnitude i) \<longrightarrow>
            fault m' \<noteq> FR_StandstillDeviation)"
proof
  have m': "m' = evaluate_object m i" "out = outputsFor m' (state m')"
    using assms(3) by (auto simp: evaluate_eq)
  have dist: "dless (Fin w) (fabs (fl x)) \<longleftrightarrow> w < \<bar>rounded x\<bar>" if "w < 2 ^ 1024" for x
    using that by (auto simp: fl_def Let_def)
  have w: "w < 2 ^ 1024" "rounded w = w"
    using assms(7) by (auto simp: representable_def)
  have sub: "dsub (position i) (standstill_reference m) = fl (p - r)"
    using assms(4,5) by (simp add: dsub_def)
  show "\<bar>p - r\<bar> > w + ulp_of (p - r) / 2 \<longrightarrow>
            state m' = SafeTorqueOff \<and> fault m' = FR_StandstillDeviation \<and> \<not> torque_permitted out"
  proof
    assume "\<bar>p - r\<bar> > w + ulp_of (p - r) / 2"
    then have "w < \<bar>rounded (p - r)\<bar>"
      using rounded_error [of "p - r"] by linarith
    then show "state m' = SafeTorqueOff \<and> fault m' = FR_StandstillDeviation \<and> \<not> torque_permitted out"
      using assms(1,2,6) w unfolding m'(2) unfolding m'(1) evaluate_healthy [OF assms(2)]
      by (simp add: stateMonitors_def sub dist healthy_def)
  qed
  show "\<bar>p - r\<bar> \<le> w \<and> \<not> dless (standstill_speed (limits m)) (speed_magnitude i) \<longrightarrow>
            fault m' \<noteq> FR_StandstillDeviation"
  proof
    assume a: "\<bar>p - r\<bar> \<le> w \<and> \<not> dless (standstill_speed (limits m)) (speed_magnitude i)"
    then have "rounded (p - r) \<le> w" "- w \<le> rounded (p - r)"
      using rounded_mono [of "p - r" w] rounded_mono [of "- w" "p - r"] w by (auto simp: rounded_uminus)
    then have "\<not> w < \<bar>rounded (p - r)\<bar>" by linarith
    then show "fault m' \<noteq> FR_StandstillDeviation"
      using assms(1,2,6) w a unfolding m'(1) evaluate_healthy [OF assms(2)]
      by (cases "request i") (auto simp: section_defs sub dist healthy_def)
  qed
qed

theorem operating_stop_drift_witness:
  "let m = (new_SafetyStateMachine default_SafetyLimits)\<lparr>state := OperatingStop\<rparr>;
       i = default_SafetyInputs\<lparr>emergency_stop_asserted := False, communication_ok := True,
             heartbeat_ok := True, request := SF_SafeOperatingStop, position := Fin 1\<rparr>
   in fault (snd (evaluate m i)) = FR_StandstillDeviation"
proof -
  let ?m = "(new_SafetyStateMachine default_SafetyLimits)\<lparr>state := OperatingStop\<rparr>"
  let ?i = "default_SafetyInputs\<lparr>emergency_stop_asserted := False, communication_ok := True,
             heartbeat_ok := True, request := SF_SafeOperatingStop, position := Fin 1\<rparr>"
  have "ilog2 1 = 0" by (rule ilog2_unique) simp_all
  then have "ulp_of 1 < 1" by (simp add: ulp_of_def power_int_minus)
  then show ?thesis
    using operating_stop_drift [of ?m ?i "fst (evaluate ?m ?i)" "snd (evaluate ?m ?i)" 1 0 0]
    by (simp add: new_SafetyStateMachine_def default_SafetyLimits_def default_SafetyInputs_def
        healthy_def unconditionalDemandActive_def representable_def)
qed

text \<open>
  Safe Operating Stop is entered only on its own request from a motion state,
  at standstill, and captures the position of that cycle as its reference, which
  stays until the state is left.
\<close>

theorem operating_stop_reference:
  assumes "evaluate m i = (out, m')" and "state m' = OperatingStop"
  shows "if state m = OperatingStop then standstill_reference m' = standstill_reference m
    else (state m = Operational \<or> state m = LimitedSpeed) \<and> request i = SF_SafeOperatingStop
      \<and> \<not> dless (standstill_speed (limits m)) (speed_magnitude i) \<and> standstill_reference m' = position i"
proof -
  have m': "m' = evaluate_object m i" using assms(1) by (simp add: evaluate_eq)
  then have h: "healthy m i" using assms(2) torque_needs_health [of m i] by simp
  then show ?thesis
    using assms(2) unfolding m' evaluate_healthy [OF h]
    by (cases "state m"; cases "request i") (auto simp: section_defs split: if_splits)
qed

theorem operating_stop_reference_witness:
  "let m = (new_SafetyStateMachine default_SafetyLimits)\<lparr>state := Operational\<rparr>;
       i = default_SafetyInputs\<lparr>emergency_stop_asserted := False, communication_ok := True,
             heartbeat_ok := True, request := SF_SafeOperatingStop, position := Fin 7\<rparr>
   in state (snd (evaluate m i)) = OperatingStop \<and> standstill_reference (snd (evaluate m i)) = Fin 7"
proof -
  let ?m = "(new_SafetyStateMachine default_SafetyLimits)\<lparr>state := Operational\<rparr>"
  let ?i = "default_SafetyInputs\<lparr>emergency_stop_asserted := False, communication_ok := True,
             heartbeat_ok := True, request := SF_SafeOperatingStop, position := Fin 7\<rparr>"
  have "state (snd (evaluate ?m ?i)) = OperatingStop"
    by (simp add: evaluate_eq evaluate_object_def section_defs unconditionalDemandActive_def
        default_SafetyInputs_def new_SafetyStateMachine_def default_SafetyLimits_def)
  moreover from this have "standstill_reference (snd (evaluate ?m ?i)) = Fin 7"
    using operating_stop_reference [of ?m ?i "fst (evaluate ?m ?i)" "snd (evaluate ?m ?i)"] by simp
  ultimately show ?thesis by simp
qed

text \<open>
  Safely Limited Position: where it is enabled, a cycle that starts with
  motion permitted and measures a position outside the band ends in Safe Torque
  Off with a latched fault, whatever is requested.
\<close>

theorem position_band_enforced:
  assumes "position_monitoring_enabled (limits m)" and "state m = Operational \<or> state m = LimitedSpeed"
    and "dless (position i) (position_min (limits m)) \<or> dless (position_max (limits m)) (position i)"
    and "fault m = FR_None" and "evaluate m i = (out, m')"
  shows "state m' = SafeTorqueOff \<and> \<not> torque_permitted out \<and> fault_latched out"
proof (cases "healthy m i")
  case True
  have m': "m' = evaluate_object m i" "out = outputsFor m' (state m')"
    using assms(5) by (auto simp: evaluate_eq)
  show ?thesis
    using assms(1-4) unfolding m'(2) unfolding m'(1) evaluate_healthy [OF True]
    by (auto simp: section_defs faultLatched_def)
next
  case False
  then show ?thesis
    using assms(4,5) by (auto simp: healthy_def evaluate_eq evaluate_demand faultLatched_def)
qed

theorem position_band_enforced_witness:
  "let m = (new_SafetyStateMachine (default_SafetyLimits\<lparr>position_monitoring_enabled := True,
              position_max := Fin 10\<rparr>))\<lparr>state := Operational\<rparr>;
       i = default_SafetyInputs\<lparr>emergency_stop_asserted := False, communication_ok := True,
             heartbeat_ok := True, request := SF_None, position := Fin 11\<rparr>
   in state (snd (evaluate m i)) = SafeTorqueOff"
  using position_band_enforced [of "(new_SafetyStateMachine (default_SafetyLimits\<lparr>position_monitoring_enabled := True,
              position_max := Fin 10\<rparr>))\<lparr>state := Operational\<rparr>"
      "default_SafetyInputs\<lparr>emergency_stop_asserted := False, communication_ok := True,
             heartbeat_ok := True, request := SF_None, position := Fin 11\<rparr>", OF _ _ _ _ prod.collapse [symmetric]]
  by (simp add: new_SafetyStateMachine_def)

section \<open>Where the code and its requirements differ\<close>

text \<open>
  The self test can be bypassed: a demand during the self test leads to Safe Torque
  Off with a fault, and once that is acknowledged a motion request enables torque
  although the self test never reported success.
\<close>

lemma self_test_bypassed:
  "let down = default_SafetyInputs;
       ok = default_SafetyInputs\<lparr>emergency_stop_asserted := False, communication_ok := True,
              heartbeat_ok := True, request := SF_None\<rparr>;
       is = [down, ok\<lparr>acknowledge := True\<rparr>, ok]
   in (\<forall>i\<in>set is. \<not> self_test_passed i) \<and>
      state (after_cycles (new_SafetyStateMachine default_SafetyLimits) is) = Operational"
  by (simp add: evaluate_eq evaluate_object_def section_defs enterSafeTorqueOff_def
      unconditionalDemandActive_def unconditionalDemandReason_def default_SafetyInputs_def
      new_SafetyStateMachine_def default_SafetyLimits_def Let_def)

text \<open>A measurement that is not a number passes the speed, standstill and position monitors.\<close>

lemma nan_passes_monitors:
  assumes "healthy m i" and "speed_magnitude i = NaN" and "position i = NaN" and "request i = SF_None"
    and "state m \<in> {LimitedSpeed, OperatingStop, Operational}"
  shows "state (evaluate_object m i) = Operational"
  using assms unfolding evaluate_healthy [OF assms(1)] by (auto simp: section_defs dsub_def)

text \<open>The position band is not looked at in the cycle that enters motion.\<close>

lemma motion_entered_outside_band:
  assumes "healthy m i" and "state m = SafeTorqueOff" and "request i = SF_None"
  shows "motion_permitted (fst (evaluate m i))"
  using assms by (simp add: evaluate_eq evaluate_healthy section_defs)

end
