(* ===== verification/Dual_Channel.thy ===== *)
theory Dual_Channel
  imports Safety_State_Machine
begin

text \<open>
  The 1oo2D supervisor (\<open>include/safeedge/safety/dual_channel.hpp\<close>,
  \<open>src/safety/dual_channel.cpp\<close>): two supervisors on independent inputs, combined in
  the safe direction and cross-compared.  The theory rests on the channel only
  through the contract \<open>latching_channel\<close> and the facts on single cycles.
\<close>

section \<open>Model\<close>

record DualConfig =
  dc_limits :: SafetyLimits
  discrepancy_tolerance_ns :: int

record DualDiagnostics =
  disagreeing_cycles :: u64
  discrepancy_faults :: u64
  longest_disagreement_ns :: int

definition new_DualDiagnostics :: DualDiagnostics where
  "new_DualDiagnostics =
     \<lparr>disagreeing_cycles = 0, discrepancy_faults = 0, longest_disagreement_ns = 0\<rparr>"

record DualChannelSupervisor =
  config :: DualConfig
  channel_a :: SafetyStateMachine
  channel_b :: SafetyStateMachine
  disagreement_since_ns :: int
  discrepancy_latched :: bool
  dc_diagnostics :: DualDiagnostics

definition new_DualChannelSupervisor :: "DualConfig \<Rightarrow> DualChannelSupervisor" where
  "new_DualChannelSupervisor c =
     \<lparr>config = c, channel_a = new_SafetyStateMachine (dc_limits c),
      channel_b = new_SafetyStateMachine (dc_limits c), disagreement_since_ns = - 1,
      discrepancy_latched = False, dc_diagnostics = new_DualDiagnostics\<rparr>"

definition combine :: "SafetyOutputs \<Rightarrow> SafetyOutputs \<Rightarrow> SafetyOutputs" where
  "combine a b =
     default_SafetyOutputs
       \<lparr>torque_permitted := torque_permitted a \<and> torque_permitted b,
        motion_permitted := motion_permitted a \<and> motion_permitted b,
        speed_limit := dmin (speed_limit a) (speed_limit b),
        brake_engaged := brake_engaged a \<or> brake_engaged b,
        out_state := min (out_state a) (out_state b),
        fault_latched := fault_latched a \<or> fault_latched b,
        out_fault := (if out_fault a \<noteq> FR_None then out_fault a else out_fault b)\<rparr>"

definition dc_reset :: "DualChannelSupervisor \<Rightarrow> DualChannelSupervisor" where
  "dc_reset d =
     d\<lparr>channel_a := sm_reset (channel_a d), channel_b := sm_reset (channel_b d),
       disagreement_since_ns := - 1, discrepancy_latched := False,
       dc_diagnostics := new_DualDiagnostics\<rparr>"

definition disagreeing :: "DualChannelSupervisor \<Rightarrow> bool" where
  "disagreeing d \<longleftrightarrow> disagreement_since_ns d \<ge> 0"

text \<open>The cross-comparison, on the supervisor whose channels have been evaluated.\<close>

definition cross_compare ::
  "DualChannelSupervisor \<Rightarrow> SafetyOutputs \<Rightarrow> SafetyOutputs \<Rightarrow> int \<Rightarrow> DualChannelSupervisor" where
  "cross_compare d a b now_ns =
     (if out_state a \<noteq> out_state b then
        let since = (if disagreement_since_ns d < 0 then now_ns else disagreement_since_ns d);
            duration = now_ns - since;
            diag = dc_diagnostics d;
            d = d\<lparr>disagreement_since_ns := since,
                  dc_diagnostics := diag
                    \<lparr>disagreeing_cycles := disagreeing_cycles diag + 1,
                     longest_disagreement_ns := max (longest_disagreement_ns diag) duration\<rparr>\<rparr>
        in if duration > discrepancy_tolerance_ns (config d) \<and> \<not> discrepancy_latched d
           then d\<lparr>discrepancy_latched := True,
                  dc_diagnostics := (dc_diagnostics d)
                    \<lparr>discrepancy_faults := discrepancy_faults (dc_diagnostics d) + 1\<rparr>,
                  channel_a := forceFault FR_ChannelDiscrepancy (channel_a d),
                  channel_b := forceFault FR_ChannelDiscrepancy (channel_b d)\<rparr>
           else d
      else d\<lparr>disagreement_since_ns := - 1\<rparr>)"

definition dual_evaluate ::
  "DualChannelSupervisor \<Rightarrow> SafetyInputs \<Rightarrow> SafetyInputs \<Rightarrow> int \<Rightarrow> SafetyOutputs \<times> DualChannelSupervisor" where
  "dual_evaluate d channel_a_inputs channel_b_inputs now_ns =
     (let (a, ca) = evaluate (channel_a d) channel_a_inputs;
          (b, cb) = evaluate (channel_b d) channel_b_inputs;
          d = cross_compare (d\<lparr>channel_a := ca, channel_b := cb\<rparr>) a b now_ns
      in if discrepancy_latched d then
           if \<not> faultLatched (channel_a d) \<and> \<not> faultLatched (channel_b d)
           then (combine a b, d\<lparr>discrepancy_latched := False\<rparr>)
           else (default_SafetyOutputs
                   \<lparr>out_state := SafeTorqueOff, out_fault := FR_ChannelDiscrepancy,
                    fault_latched := True\<rparr>, d)
         else (combine a b, d))"

section \<open>One cycle\<close>

lemma combine_simps [simp]:
  "torque_permitted (combine a b) \<longleftrightarrow> torque_permitted a \<and> torque_permitted b"
  "motion_permitted (combine a b) \<longleftrightarrow> motion_permitted a \<and> motion_permitted b"
  "brake_engaged (combine a b) \<longleftrightarrow> brake_engaged a \<or> brake_engaged b"
  "out_state (combine a b) = min (out_state a) (out_state b)"
  "fault_latched (combine a b) \<longleftrightarrow> fault_latched a \<or> fault_latched b"
  "speed_limit (combine a b) = dmin (speed_limit a) (speed_limit b)"
  by (simp_all add: combine_def)

text \<open>The two channel results of a cycle, and whether they differ.\<close>

definition channels_differ :: "DualChannelSupervisor \<Rightarrow> SafetyInputs \<Rightarrow> SafetyInputs \<Rightarrow> bool" where
  "channels_differ d ia ib \<longleftrightarrow>
     state (evaluate_object (channel_a d) ia) \<noteq> state (evaluate_object (channel_b d) ib)"

text \<open>The supervisor after the cross-comparison of a cycle.\<close>

definition compared :: "DualChannelSupervisor \<Rightarrow> SafetyInputs \<Rightarrow> SafetyInputs \<Rightarrow> int \<Rightarrow> DualChannelSupervisor" where
  "compared d ia ib now =
     cross_compare (d\<lparr>channel_a := evaluate_object (channel_a d) ia,
                      channel_b := evaluate_object (channel_b d) ib\<rparr>)
       (fst (evaluate (channel_a d) ia)) (fst (evaluate (channel_b d) ib)) now"

definition trips :: "DualChannelSupervisor \<Rightarrow> SafetyInputs \<Rightarrow> SafetyInputs \<Rightarrow> int \<Rightarrow> bool" where
  "trips d ia ib now \<longleftrightarrow>
     channels_differ d ia ib \<and> \<not> discrepancy_latched d \<and>
     now - (if disagreement_since_ns d < 0 then now else disagreement_since_ns d)
       > discrepancy_tolerance_ns (config d)"

lemma compared_simps:
  "config (compared d ia ib now) = config d"
  "disagreement_since_ns (compared d ia ib now) =
     (if channels_differ d ia ib
      then if disagreement_since_ns d < 0 then now else disagreement_since_ns d else - 1)"
  "discrepancy_latched (compared d ia ib now) \<longleftrightarrow> discrepancy_latched d \<or> trips d ia ib now"
  "channel_a (compared d ia ib now) =
     (if trips d ia ib now then forceFault FR_ChannelDiscrepancy (evaluate_object (channel_a d) ia)
      else evaluate_object (channel_a d) ia)"
  "channel_b (compared d ia ib now) =
     (if trips d ia ib now then forceFault FR_ChannelDiscrepancy (evaluate_object (channel_b d) ib)
      else evaluate_object (channel_b d) ib)"
  by (simp_all add: compared_def cross_compare_def trips_def channels_differ_def Let_def evaluate_eq)
    auto

lemma dual_evaluate_compared:
  "dual_evaluate d ia ib now =
     (let c = compared d ia ib now;
          out = combine (fst (evaluate (channel_a d) ia)) (fst (evaluate (channel_b d) ib))
      in if discrepancy_latched c then
           if \<not> faultLatched (channel_a c) \<and> \<not> faultLatched (channel_b c)
           then (out, c\<lparr>discrepancy_latched := False\<rparr>)
           else (default_SafetyOutputs
                   \<lparr>out_state := SafeTorqueOff, out_fault := FR_ChannelDiscrepancy,
                    fault_latched := True\<rparr>, c)
         else (out, c))"
  by (simp add: dual_evaluate_def compared_def evaluate_eq Let_def)

lemma trips_forced:
  "trips d ia ib now \<Longrightarrow>
   faultLatched (channel_a (compared d ia ib now)) \<and> faultLatched (channel_b (compared d ia ib now))"
  by (simp add: compared_simps sm.force_latches)

text \<open>
  Invariant between cycles: while the discrepancy is latched, a channel holds a
  fault; each channel is one that its own calls can reach.
\<close>

definition dual_inv :: "DualChannelSupervisor \<Rightarrow> bool" where
  "dual_inv d \<longleftrightarrow> sm_reachable (channel_a d) \<and> sm_reachable (channel_b d) \<and>
     (discrepancy_latched d \<longrightarrow> faultLatched (channel_a d) \<or> faultLatched (channel_b d))"

lemma sm_reachable_evaluate_object: "sm_reachable m \<Longrightarrow> sm_reachable (evaluate_object m i)"
  using sm_reachable.evaluate [of m i] by (simp add: evaluate_eq)

lemma dual_inv_new: "dual_inv (new_DualChannelSupervisor c)"
  by (simp add: dual_inv_def new_DualChannelSupervisor_def sm_reachable.construct)

lemma dual_inv_reset: "dual_inv d \<Longrightarrow> dual_inv (dc_reset d)"
  by (simp add: dual_inv_def dc_reset_def sm_reachable.reset)

lemma dual_inv_evaluate: "dual_inv d \<Longrightarrow> dual_inv (snd (dual_evaluate d ia ib now))"
  by (auto simp: dual_inv_def dual_evaluate_compared Let_def compared_simps
      intro: sm_reachable_evaluate_object sm_reachable.forceFault)

text \<open>What a cycle that permits torque tells about both channels.\<close>

lemma dual_torque:
  assumes "dual_inv d" and "torque_permitted (fst (dual_evaluate d ia ib now))"
  shows "torque_permitted (fst (evaluate (channel_a d) ia))"
    and "torque_permitted (fst (evaluate (channel_b d) ib))"
    and "\<not> discrepancy_latched d" and "\<not> discrepancy_latched (snd (dual_evaluate d ia ib now))"
    and "snd (dual_evaluate d ia ib now) = compared d ia ib now"
proof -
  let ?c = "compared d ia ib now"
  have cases: "\<not> discrepancy_latched ?c \<or> (\<not> faultLatched (channel_a ?c) \<and> \<not> faultLatched (channel_b ?c))"
    using assms(2) by (auto simp: dual_evaluate_compared Let_def default_SafetyOutputs_def)
  show both: "torque_permitted (fst (evaluate (channel_a d) ia))"
      "torque_permitted (fst (evaluate (channel_b d) ib))"
    using assms(2) by (auto simp: dual_evaluate_compared Let_def default_SafetyOutputs_def split: if_splits)
  show "\<not> discrepancy_latched d"
    using both sm.latched_denies assms(1) by (auto simp: dual_inv_def)
  moreover have "\<not> trips d ia ib now"
    using cases trips_forced [of d ia ib now] by (auto simp: compared_simps)
  ultimately have "\<not> discrepancy_latched ?c"
    by (simp add: compared_simps)
  then show "\<not> discrepancy_latched (snd (dual_evaluate d ia ib now))"
    and "snd (dual_evaluate d ia ib now) = ?c"
    by (simp_all add: dual_evaluate_compared Let_def)
qed

section \<open>Runs\<close>

type_synonym dual_cycle = "SafetyInputs \<times> SafetyInputs \<times> int"

fun dual_run :: "DualChannelSupervisor \<Rightarrow> dual_cycle list \<Rightarrow> SafetyOutputs list \<times> DualChannelSupervisor" where
  "dual_run d [] = ([], d)"
| "dual_run d ((ia, ib, now) # cs) =
     (let (out, d') = dual_evaluate d ia ib now; (outs, d'') = dual_run d' cs in (out # outs, d''))"

text \<open>Every cycle of a run finds the channels in different states, none later than a bound.\<close>

fun disagreeing_run :: "int \<Rightarrow> DualChannelSupervisor \<Rightarrow> dual_cycle list \<Rightarrow> bool" where
  "disagreeing_run until d [] = True"
| "disagreeing_run until d ((ia, ib, now) # cs) =
     (channels_differ d ia ib \<and> now \<le> until \<and> disagreeing_run until (snd (dual_evaluate d ia ib now)) cs)"

lemma dual_evaluate_quiet:
  assumes "\<not> discrepancy_latched d" and "channels_differ d ia ib"
    and "now - (if disagreement_since_ns d < 0 then now else disagreement_since_ns d)
           \<le> discrepancy_tolerance_ns (config d)"
  shows "snd (dual_evaluate d ia ib now) = compared d ia ib now"
    and "\<not> discrepancy_latched (compared d ia ib now)"
proof -
  have "\<not> trips d ia ib now" using assms(3) by (simp add: trips_def)
  then show "\<not> discrepancy_latched (compared d ia ib now)"
    using assms(1) by (simp add: compared_simps)
  then show "snd (dual_evaluate d ia ib now) = compared d ia ib now"
    by (simp add: dual_evaluate_compared Let_def)
qed

lemma disagreeing_run_since:
  assumes "\<not> discrepancy_latched d" and "0 \<le> t0" and "disagreement_since_ns d = t0"
    and "disagreeing_run (t0 + discrepancy_tolerance_ns (config d)) d cs"
  shows "\<not> discrepancy_latched (snd (dual_run d cs)) \<and> disagreement_since_ns (snd (dual_run d cs)) = t0
    \<and> config (snd (dual_run d cs)) = config d"
  using assms
proof (induction cs arbitrary: d)
  case (Cons c cs)
  obtain ia ib now where c: "c = (ia, ib, now)" by (cases c) auto
  let ?d = "compared d ia ib now"
  have step: "snd (dual_evaluate d ia ib now) = ?d" "\<not> discrepancy_latched ?d"
    using dual_evaluate_quiet [of d ia ib now] Cons.prems c by simp_all
  have "disagreement_since_ns ?d = t0" "config ?d = config d"
    using Cons.prems c by (simp_all add: compared_simps)
  then show ?case
    using Cons.IH [of ?d] Cons.prems c step by (simp add: split_beta)
qed simp

text \<open>A channel that is never acknowledged keeps the supervisor down.\<close>

lemma held_down_step:
  assumes "discrepancy_latched d"
    and "faultLatched (channel_a d) \<and> \<not> acknowledges ia \<or> faultLatched (channel_b d) \<and> \<not> acknowledges ib"
  shows "dual_evaluate d ia ib now =
     (default_SafetyOutputs\<lparr>out_state := SafeTorqueOff, out_fault := FR_ChannelDiscrepancy, fault_latched := True\<rparr>,
      compared d ia ib now)"
    and "discrepancy_latched (compared d ia ib now)"
    and "faultLatched (channel_a d) \<Longrightarrow> \<not> acknowledges ia \<Longrightarrow> faultLatched (channel_a (compared d ia ib now))"
    and "faultLatched (channel_b d) \<Longrightarrow> \<not> acknowledges ib \<Longrightarrow> faultLatched (channel_b (compared d ia ib now))"
proof -
  show c: "discrepancy_latched (compared d ia ib now)"
    using assms(1) by (simp add: compared_simps)
  show a: "faultLatched (channel_a (compared d ia ib now))" if "faultLatched (channel_a d)" "\<not> acknowledges ia"
    using sm.latched_stays [OF that] assms(1) by (simp add: compared_simps trips_def evaluate_eq)
  show b: "faultLatched (channel_b (compared d ia ib now))" if "faultLatched (channel_b d)" "\<not> acknowledges ib"
    using sm.latched_stays [OF that] assms(1) by (simp add: compared_simps trips_def evaluate_eq)
  show "dual_evaluate d ia ib now =
     (default_SafetyOutputs\<lparr>out_state := SafeTorqueOff, out_fault := FR_ChannelDiscrepancy, fault_latched := True\<rparr>,
      compared d ia ib now)"
    using a b assms(2) c by (auto simp: dual_evaluate_compared Let_def)
qed

text \<open>Everything a client can do to the supervisor.\<close>

inductive dual_reachable :: "DualChannelSupervisor \<Rightarrow> bool" where
  construct: "dual_reachable (new_DualChannelSupervisor c)"
| evaluate: "dual_reachable d \<Longrightarrow> dual_reachable (snd (dual_evaluate d ia ib now))"
| reset: "dual_reachable d \<Longrightarrow> dual_reachable (dc_reset d)"

lemma dual_reachable_inv: "dual_reachable d \<Longrightarrow> dual_inv d"
  by (induction rule: dual_reachable.induct) (simp_all add: dual_inv_new dual_inv_evaluate dual_inv_reset)

section \<open>Properties\<close>


text \<open>Inputs that let a channel out of the self test and then into motion.\<close>

definition good_inputs :: SafetyInputs where
  "good_inputs = default_SafetyInputs
     \<lparr>emergency_stop_asserted := False, communication_ok := True, heartbeat_ok := True,
      self_test_passed := True, request := SF_None\<rparr>"

lemmas cycle_eval = evaluate_eq evaluate_object_def section_defs unconditionalDemandActive_def
  good_inputs_def default_SafetyInputs_def new_SafetyStateMachine_def default_SafetyLimits_def
  new_DualChannelSupervisor_def new_DualDiagnostics_def cross_compare_def faultLatched_def




text \<open>
  Recovery needs both channels: in a cycle that starts with the discrepancy
  latched nothing is permitted, and the latch is released exactly when neither
  channel holds a fault at its end; agreement alone does not release it.
\<close>

theorem discrepancy_release:
  assumes "dual_reachable d" and "discrepancy_latched d" and "dual_evaluate d ia ib now = (out, d')"
  shows "\<not> torque_permitted out \<and> \<not> motion_permitted out
    \<and> (discrepancy_latched d' \<longleftrightarrow> faultLatched (channel_a d') \<or> faultLatched (channel_b d'))"
proof -
  let ?c = "compared d ia ib now"
  have c: "discrepancy_latched ?c" using assms(2) by (simp add: compared_simps)
  have "faultLatched (channel_a d) \<or> faultLatched (channel_b d)"
    using dual_reachable_inv [OF assms(1)] assms(2) by (simp add: dual_inv_def)
  then have "\<not> torque_permitted (combine (fst (evaluate (channel_a d) ia)) (fst (evaluate (channel_b d) ib)))
    \<and> \<not> motion_permitted (combine (fst (evaluate (channel_a d) ia)) (fst (evaluate (channel_b d) ib)))"
    using sm.latched_denies by auto
  then show ?thesis
    using assms(3) c by (auto simp: dual_evaluate_compared Let_def default_SafetyOutputs_def split: if_splits)
qed

theorem discrepancy_release_witness:
  "let d = new_DualChannelSupervisor \<lparr>dc_limits = default_SafetyLimits, discrepancy_tolerance_ns = -1\<rparr>;
       d' = snd (dual_evaluate d good_inputs (good_inputs\<lparr>self_test_passed := False\<rparr>) 3);
       d'' = snd (dual_evaluate d' (good_inputs\<lparr>acknowledge := True\<rparr>) (good_inputs\<lparr>acknowledge := True\<rparr>) 4)
   in discrepancy_latched d' \<and> \<not> discrepancy_latched d''"
proof -
  let ?d = "new_DualChannelSupervisor \<lparr>dc_limits = default_SafetyLimits, discrepancy_tolerance_ns = -1\<rparr>"
  let ?d' = "snd (dual_evaluate ?d good_inputs (good_inputs\<lparr>self_test_passed := False\<rparr>) 3)"
  let ?a = "good_inputs\<lparr>acknowledge := True\<rparr>"
  have r: "dual_reachable ?d'" by (intro dual_reachable.intros)
  have l: "discrepancy_latched ?d'"
    by (simp add: dual_evaluate_def cycle_eval forceFault_def Let_def)
  have "\<not> faultLatched (channel_a (snd (dual_evaluate ?d' ?a ?a 4)))"
    "\<not> faultLatched (channel_b (snd (dual_evaluate ?d' ?a ?a 4)))"
    by (simp_all add: dual_evaluate_def cycle_eval forceFault_def enterSafeTorqueOff_def Let_def)
  then show ?thesis
    using discrepancy_release [OF r l, of ?a ?a 4 "fst (dual_evaluate ?d' ?a ?a 4)" "snd (dual_evaluate ?d' ?a ?a 4)"] l
    by simp
qed

text \<open>
  A discrepancy holds the machine down: while one channel holds a fault and
  its inputs never acknowledge it, every cycle reports the discrepancy and permits
  nothing, whatever the other channel and its operator do.
\<close>

theorem discrepancy_holds:
  assumes "discrepancy_latched d"
    and "faultLatched (channel_a d) \<and> (\<forall>(ia, ib, now)\<in>set cs. \<not> acknowledges ia)
      \<or> faultLatched (channel_b d) \<and> (\<forall>(ia, ib, now)\<in>set cs. \<not> acknowledges ib)"
  shows "discrepancy_latched (snd (dual_run d cs)) \<and>
    (\<forall>out\<in>set (fst (dual_run d cs)). \<not> torque_permitted out \<and> \<not> motion_permitted out
       \<and> brake_engaged out \<and> out_fault out = FR_ChannelDiscrepancy)"
  using assms
proof (induction cs arbitrary: d)
  case (Cons c cs)
  obtain ia ib now where c: "c = (ia, ib, now)" by (cases c) auto
  have one: "faultLatched (channel_a d) \<and> \<not> acknowledges ia \<or> faultLatched (channel_b d) \<and> \<not> acknowledges ib"
    using Cons.prems(2) c by auto
  note step = held_down_step [OF Cons.prems(1) one, of now]
  have "discrepancy_latched (snd (dual_run (compared d ia ib now) cs)) \<and>
    (\<forall>out\<in>set (fst (dual_run (compared d ia ib now) cs)). \<not> torque_permitted out \<and> \<not> motion_permitted out
       \<and> brake_engaged out \<and> out_fault out = FR_ChannelDiscrepancy)"
    by (rule Cons.IH) (use step Cons.prems(2) c in auto)
  then show ?case
    using step(1) c by (simp add: split_beta default_SafetyOutputs_def)
qed simp

theorem discrepancy_holds_witness:
  "let d = (new_DualChannelSupervisor \<lparr>dc_limits = default_SafetyLimits, discrepancy_tolerance_ns = 5\<rparr>)
             \<lparr>discrepancy_latched := True,
              channel_b := (new_SafetyStateMachine default_SafetyLimits)\<lparr>state := SafeTorqueOff, fault := FR_ChannelDiscrepancy\<rparr>\<rparr>
   in \<forall>out\<in>set (fst (dual_run d [(good_inputs\<lparr>acknowledge := True\<rparr>, good_inputs, 3), (good_inputs, good_inputs, 4)])).
        \<not> torque_permitted out"
  using discrepancy_holds [of "(new_DualChannelSupervisor \<lparr>dc_limits = default_SafetyLimits, discrepancy_tolerance_ns = 5\<rparr>)
             \<lparr>discrepancy_latched := True,
              channel_b := (new_SafetyStateMachine default_SafetyLimits)\<lparr>state := SafeTorqueOff, fault := FR_ChannelDiscrepancy\<rparr>\<rparr>"
      "[(good_inputs\<lparr>acknowledge := True\<rparr>, good_inputs, 3), (good_inputs, good_inputs, 4)]"]
  by (simp add: new_DualChannelSupervisor_def faultLatched_def acknowledges_def good_inputs_def default_SafetyInputs_def
      del: dual_run.simps)

end
