(* ===== verification/Spsc_Ring.thy ===== *)
theory Spsc_Ring
  imports Prelude
begin

text \<open>
  The wait-free single-producer single-consumer ring
  (\<open>include/safeedge/concurrent/spsc_ring.hpp\<close>).  The positions are free-running
  64-bit counters that wrap.  The operations are given twice: as the functions a
  single caller sees, and as the atomic steps of two threads that interleave
  freely, each load and store of a shared location being one step (sequentially
  consistent interleaving; the acquire/release annotations that justify this
  granularity are not modelled).  Moving a value out of a slot leaves what the
  parameter \<open>moved\<close> says.
\<close>

section \<open>Model\<close>

record 'a ring =
  write_pos :: u64
  cached_read_pos :: u64
  read_pos :: u64
  cached_write_pos :: u64
  slots :: "'a list"

definition capacity :: "'a ring \<Rightarrow> nat" where
  "capacity r = length (slots r)"

definition new_ring :: "nat \<Rightarrow> 'a \<Rightarrow> 'a ring" where
  "new_ring cap x =
     \<lparr>write_pos = 0, cached_read_pos = 0, read_pos = 0, cached_write_pos = 0,
      slots = replicate cap x\<rparr>"

definition kIndexMask :: "'a ring \<Rightarrow> u64" where
  "kIndexMask r = of_nat (capacity r) - 1"

definition looks_full :: "'a ring \<Rightarrow> bool" where
  "looks_full r \<longleftrightarrow> write_pos r - cached_read_pos r \<ge> of_nat (capacity r)"

definition looks_empty :: "'a ring \<Rightarrow> bool" where
  "looks_empty r \<longleftrightarrow> read_pos r = cached_write_pos r"

definition refresh_read :: "'a ring \<Rightarrow> 'a ring" where
  "refresh_read r = r\<lparr>cached_read_pos := read_pos r\<rparr>"

definition refresh_write :: "'a ring \<Rightarrow> 'a ring" where
  "refresh_write r = r\<lparr>cached_write_pos := write_pos r\<rparr>"

definition write_slot :: "'a \<Rightarrow> 'a ring \<Rightarrow> 'a ring" where
  "write_slot v r = r\<lparr>slots := (slots r)[unat (write_pos r AND kIndexMask r) := v]\<rparr>"

definition publish_write :: "'a ring \<Rightarrow> 'a ring" where
  "publish_write r = r\<lparr>write_pos := write_pos r + 1\<rparr>"

definition peek_slot :: "'a ring \<Rightarrow> 'a" where
  "peek_slot r = slots r ! unat (read_pos r AND kIndexMask r)"

definition move_slot :: "('a \<Rightarrow> 'a) \<Rightarrow> 'a ring \<Rightarrow> 'a ring" where
  "move_slot moved r =
     r\<lparr>slots := (slots r)[unat (read_pos r AND kIndexMask r) := moved (peek_slot r)]\<rparr>"

definition publish_read :: "'a ring \<Rightarrow> 'a ring" where
  "publish_read r = r\<lparr>read_pos := read_pos r + 1\<rparr>"

definition emplaceFrom :: "'a \<Rightarrow> 'a ring \<Rightarrow> bool \<times> 'a ring" where
  "emplaceFrom v r =
     (if looks_full r then
        let r = refresh_read r in
        if looks_full r then (False, r) else (True, publish_write (write_slot v r))
      else (True, publish_write (write_slot v r)))"

definition tryPop :: "('a \<Rightarrow> 'a) \<Rightarrow> 'a ring \<Rightarrow> 'a option \<times> 'a ring" where
  "tryPop moved r =
     (if looks_empty r then
        let r = refresh_write r in
        if looks_empty r then (None, r) else (Some (peek_slot r), publish_read (move_slot moved r))
      else (Some (peek_slot r), publish_read (move_slot moved r)))"

definition sizeApprox :: "'a ring \<Rightarrow> nat" where
  "sizeApprox r = unat (write_pos r - read_pos r)"

definition emptyApprox :: "'a ring \<Rightarrow> bool" where
  "emptyApprox r \<longleftrightarrow> sizeApprox r = 0"

definition fullApprox :: "'a ring \<Rightarrow> bool" where
  "fullApprox r \<longleftrightarrow> sizeApprox r \<ge> capacity r"

lemmas ring_defs = capacity_def kIndexMask_def looks_full_def looks_empty_def refresh_read_def
  refresh_write_def write_slot_def publish_write_def peek_slot_def move_slot_def publish_read_def

text \<open>The program counters of the two threads inside \<open>emplaceFrom\<close> and \<open>tryPop\<close>.\<close>

datatype 'a ppc = PIdle | PCheck 'a | PRefresh 'a | PWrite 'a | PPublish 'a

datatype 'a cpc = CIdle | CCheck | CRefresh | CRead | CPublish 'a

text \<open>The system: the ring, the threads, and what has been published and handed out so far.\<close>

record 'a ring_sys =
  ring :: "'a ring"
  ppc :: "'a ppc"
  cpc :: "'a cpc"
  pushed :: "'a list"
  popped :: "'a list"

datatype 'a ring_event = Tau | PushRefused | Pushed 'a | PopRefused | Popped 'a

inductive ring_step :: "('a \<Rightarrow> 'a) \<Rightarrow> 'a ring_sys \<Rightarrow> 'a ring_event \<Rightarrow> 'a ring_sys \<Rightarrow> bool"
  for moved :: "'a \<Rightarrow> 'a" where
  push_call: "ppc s = PIdle \<Longrightarrow> ring_step moved s Tau (s\<lparr>ppc := PCheck v\<rparr>)"
| push_room: "ppc s = PCheck v \<Longrightarrow> \<not> looks_full (ring s) \<Longrightarrow>
    ring_step moved s Tau (s\<lparr>ppc := PWrite v\<rparr>)"
| push_check: "ppc s = PCheck v \<Longrightarrow> looks_full (ring s) \<Longrightarrow>
    ring_step moved s Tau (s\<lparr>ppc := PRefresh v\<rparr>)"
| push_refresh: "ppc s = PRefresh v \<Longrightarrow> \<not> looks_full (refresh_read (ring s)) \<Longrightarrow>
    ring_step moved s Tau (s\<lparr>ring := refresh_read (ring s), ppc := PWrite v\<rparr>)"
| push_refused: "ppc s = PRefresh v \<Longrightarrow> looks_full (refresh_read (ring s)) \<Longrightarrow>
    ring_step moved s PushRefused (s\<lparr>ring := refresh_read (ring s), ppc := PIdle\<rparr>)"
| push_write: "ppc s = PWrite v \<Longrightarrow>
    ring_step moved s Tau (s\<lparr>ring := write_slot v (ring s), ppc := PPublish v\<rparr>)"
| push_publish: "ppc s = PPublish v \<Longrightarrow>
    ring_step moved s (Pushed v)
      (s\<lparr>ring := publish_write (ring s), ppc := PIdle, pushed := pushed s @ [v]\<rparr>)"
| pop_call: "cpc s = CIdle \<Longrightarrow> ring_step moved s Tau (s\<lparr>cpc := CCheck\<rparr>)"
| pop_some: "cpc s = CCheck \<Longrightarrow> \<not> looks_empty (ring s) \<Longrightarrow>
    ring_step moved s Tau (s\<lparr>cpc := CRead\<rparr>)"
| pop_check: "cpc s = CCheck \<Longrightarrow> looks_empty (ring s) \<Longrightarrow>
    ring_step moved s Tau (s\<lparr>cpc := CRefresh\<rparr>)"
| pop_refresh: "cpc s = CRefresh \<Longrightarrow> \<not> looks_empty (refresh_write (ring s)) \<Longrightarrow>
    ring_step moved s Tau (s\<lparr>ring := refresh_write (ring s), cpc := CRead\<rparr>)"
| pop_refused: "cpc s = CRefresh \<Longrightarrow> looks_empty (refresh_write (ring s)) \<Longrightarrow>
    ring_step moved s PopRefused (s\<lparr>ring := refresh_write (ring s), cpc := CIdle\<rparr>)"
| pop_read: "cpc s = CRead \<Longrightarrow>
    ring_step moved s Tau (s\<lparr>ring := move_slot moved (ring s), cpc := CPublish (peek_slot (ring s))\<rparr>)"
| pop_publish: "cpc s = CPublish v \<Longrightarrow>
    ring_step moved s (Popped v)
      (s\<lparr>ring := publish_read (ring s), cpc := CIdle, popped := popped s @ [v]\<rparr>)"

inductive_cases ring_stepE: "ring_step moved s e s'"

definition initial_sys :: "nat \<Rightarrow> 'a \<Rightarrow> 'a ring_sys" where
  "initial_sys cap x = \<lparr>ring = new_ring cap x, ppc = PIdle, cpc = CIdle, pushed = [], popped = []\<rparr>"

inductive ring_reachable :: "('a \<Rightarrow> 'a) \<Rightarrow> nat \<Rightarrow> 'a ring_sys \<Rightarrow> bool" for moved :: "'a \<Rightarrow> 'a" and cap :: nat where
  init: "ring_reachable moved cap (initial_sys cap x)"
| step: "ring_reachable moved cap s \<Longrightarrow> ring_step moved s e s' \<Longrightarrow> ring_reachable moved cap s'"

section \<open>Counters\<close>

text \<open>A capacity the class accepts: a power of two, at least two.\<close>

definition good_capacity :: "nat \<Rightarrow> bool" where
  "good_capacity cap \<longleftrightarrow> 2 \<le> cap \<and> (\<exists>k<64. cap = 2 ^ k)"

lemma slot_index:
  assumes "good_capacity cap"
  shows "unat ((of_nat j :: u64) AND (of_nat cap - 1)) = j mod cap"
proof -
  obtain k where k: "cap = 2 ^ k" "k < 64" using assms by (auto simp: good_capacity_def)
  have "(of_nat cap - 1 :: u64) = mask k" by (simp add: k mask_eq_exp_minus_1)
  then have "(of_nat j :: u64) AND (of_nat cap - 1) = take_bit k (of_nat j)"
    by (simp add: take_bit_eq_mask)
  then have "unat ((of_nat j :: u64) AND (of_nat cap - 1)) = take_bit k (take_bit 64 j)"
    by (simp add: unsigned_take_bit_eq unsigned_of_nat)
  also have "\<dots> = take_bit k j"
    using k(2) by simp
  also have "\<dots> = j mod cap"
    using k(1) by (simp add: take_bit_eq_mod)
  finally show ?thesis .
qed

lemma counter_distance:
  "a \<le> b \<Longrightarrow> b - a < 2 ^ 64 \<Longrightarrow> unat ((of_nat b :: u64) - of_nat a) = b - a"
  by (simp add: unsigned_of_nat take_bit_nat_eq_self flip: of_nat_diff)

lemma counter_full:
  assumes "good_capacity cap" and "a \<le> b" and "b - a \<le> cap"
  shows "(of_nat cap :: u64) \<le> of_nat b - of_nat a \<longleftrightarrow> b - a = cap"
proof -
  have cap: "cap < 2 ^ 64"
    using assms(1) power_strict_increasing [of _ 64 "2 :: nat"] by (auto simp: good_capacity_def)
  then have "unat (of_nat cap :: u64) = cap"
    by (simp add: unsigned_of_nat take_bit_nat_eq_self)
  moreover have "unat ((of_nat b :: u64) - of_nat a) = b - a"
    using assms cap by (intro counter_distance) auto
  ultimately show ?thesis
    using assms by (auto simp: word_le_nat_alt)
qed

lemma counter_equal:
  assumes "good_capacity cap" and "a \<le> b" and "b - a \<le> cap"
  shows "(of_nat a :: u64) = of_nat b \<longleftrightarrow> a = b"
proof
  assume "(of_nat a :: u64) = of_nat b"
  then have "unat ((of_nat b :: u64) - of_nat a) = 0" by simp
  moreover have "cap < 2 ^ 64"
    using assms(1) power_strict_increasing [of _ 64 "2 :: nat"] by (auto simp: good_capacity_def)
  ultimately have "b - a = 0"
    using counter_distance [of a b] assms by auto
  with assms show "a = b" by simp
qed simp

lemma mod_window: "a \<le> b \<Longrightarrow> b < a + cap \<Longrightarrow> a mod cap = b mod cap \<Longrightarrow> a = b" for a b cap :: nat
proof -
  assume h: "a \<le> b" "b < a + cap" "a mod cap = b mod cap"
  then have "cap dvd b - a" by (metis mod_eq_dvd_iff_nat)
  moreover have "b - a < cap" using h by auto
  ultimately have "b - a = 0" using nat_dvd_not_less by blast
  with h show "a = b" by simp
qed

section \<open>The invariant of the two threads\<close>

text \<open>
  Numbering the elements from zero without wrap: \<open>w\<close> have been published and \<open>r\<close>
  handed out; the producer's snapshot is \<open>cr\<close> and the consumer's \<open>cw\<close>.
\<close>

definition positions :: "nat \<Rightarrow> nat \<Rightarrow> nat \<Rightarrow> nat \<Rightarrow> nat \<Rightarrow> 'a ring \<Rightarrow> bool" where
  "positions cap cr r cw w q \<longleftrightarrow>
     good_capacity cap \<and> length (slots q) = cap \<and>
     write_pos q = of_nat w \<and> read_pos q = of_nat r \<and>
     cached_read_pos q = of_nat cr \<and> cached_write_pos q = of_nat cw \<and>
     cr \<le> r \<and> r \<le> cw \<and> cw \<le> w \<and> w \<le> cr + cap"

definition sys_inv :: "nat \<Rightarrow> nat \<Rightarrow> nat \<Rightarrow> 'a ring_sys \<Rightarrow> bool" where
  "sys_inv cap cr cw s \<longleftrightarrow>
     positions cap cr (length (popped s)) cw (length (pushed s)) (ring s) \<and>
     popped s = take (length (popped s)) (pushed s) \<and>
     (\<forall>j. length (popped s) \<le> j \<longrightarrow> j < length (pushed s) \<longrightarrow>
        j \<noteq> length (popped s) \<or> (\<forall>v. cpc s \<noteq> CPublish v) \<longrightarrow>
        slots (ring s) ! (j mod cap) = pushed s ! j) \<and>
     (\<forall>v. ppc s = PWrite v \<or> ppc s = PPublish v \<longrightarrow> length (pushed s) < cr + cap) \<and>
     (\<forall>v. ppc s = PPublish v \<longrightarrow> slots (ring s) ! (length (pushed s) mod cap) = v) \<and>
     (cpc s = CRead \<longrightarrow> length (popped s) < cw) \<and>
     (\<forall>v. cpc s = CPublish v \<longrightarrow> length (popped s) < cw \<and> v = pushed s ! length (popped s))"

lemma positions_full:
  "positions cap cr r cw w q \<Longrightarrow> looks_full q \<longleftrightarrow> w = cr + cap"
proof -
  assume p: "positions cap cr r cw w q"
  then have "cr \<le> w" "w - cr \<le> cap" by (auto simp: positions_def)
  with p show ?thesis
    using counter_full [of cap cr w] by (auto simp: positions_def looks_full_def capacity_def)
qed

lemma positions_empty:
  "positions cap cr r cw w q \<Longrightarrow> looks_empty q \<longleftrightarrow> r = cw"
proof -
  assume p: "positions cap cr r cw w q"
  then have "r \<le> cw" "cw - r \<le> cap" by (auto simp: positions_def)
  with p show ?thesis
    using counter_equal [of cap r cw] by (simp add: positions_def looks_empty_def)
qed

lemma positions_write_index:
  "positions cap cr r cw w q \<Longrightarrow> unat (write_pos q AND kIndexMask q) = w mod cap"
  using slot_index [of cap w] by (simp add: positions_def kIndexMask_def capacity_def)

lemma positions_read_index:
  "positions cap cr r cw w q \<Longrightarrow> unat (read_pos q AND kIndexMask q) = r mod cap"
  using slot_index [of cap r] by (simp add: positions_def kIndexMask_def capacity_def)

lemma positions_refresh_read:
  "positions cap cr r cw w q \<Longrightarrow> positions cap r r cw w (refresh_read q)"
  by (auto simp: positions_def refresh_read_def)

lemma positions_refresh_write:
  "positions cap cr r cw w q \<Longrightarrow> positions cap cr r w w (refresh_write q)"
  by (auto simp: positions_def refresh_write_def)

lemma positions_publish_write:
  "positions cap cr r cw w q \<Longrightarrow> w < cr + cap \<Longrightarrow> positions cap cr r cw (Suc w) (publish_write q)"
  by (auto simp: positions_def publish_write_def)

lemma positions_publish_read:
  "positions cap cr r cw w q \<Longrightarrow> r < cw \<Longrightarrow> positions cap cr (Suc r) cw w (publish_read q)"
  by (auto simp: positions_def publish_read_def)

lemma positions_write_slot:
  "positions cap cr r cw w q \<Longrightarrow> positions cap cr r cw w (write_slot v q)
     \<and> slots (write_slot v q) = (slots q)[w mod cap := v]"
  using positions_write_index [of cap cr r cw w q] by (simp add: positions_def write_slot_def)

lemma positions_move_slot:
  "positions cap cr r cw w q \<Longrightarrow> positions cap cr r cw w (move_slot moved q)
     \<and> slots (move_slot moved q) = (slots q)[r mod cap := moved (slots q ! (r mod cap))]
     \<and> peek_slot q = slots q ! (r mod cap)"
  using positions_read_index [of cap cr r cw w q] by (simp add: positions_def move_slot_def peek_slot_def)

lemma slot_of_other:
  assumes "positions cap cr r cw w q" and "r \<le> i" and "i < j" and "j < cr + cap"
  shows "i mod cap \<noteq> j mod cap" and "j mod cap < cap"
proof -
  have "cr \<le> r" "0 < cap" using assms(1) by (auto simp: positions_def good_capacity_def)
  then show "j mod cap < cap" by simp
  show "i mod cap \<noteq> j mod cap"
    using mod_window [of i j cap] assms(2-4) \<open>cr \<le> r\<close> by auto
qed

lemma slots_unchanged [simp]:
  "slots (refresh_read q) = slots q" "slots (refresh_write q) = slots q"
  "slots (publish_write q) = slots q" "slots (publish_read q) = slots q"
  by (simp_all add: refresh_read_def refresh_write_def publish_write_def publish_read_def)

lemma sys_invD:
  assumes "sys_inv cap cr cw s"
  shows "positions cap cr (length (popped s)) cw (length (pushed s)) (ring s)"
    and "length (popped s) \<le> length (pushed s)"
    and "length (pushed s) \<le> cr + cap" and "cr \<le> length (popped s)"
    and "length (popped s) \<le> cw" and "cw \<le> length (pushed s)"
    and "good_capacity cap"
  using assms by (auto simp: sys_inv_def positions_def)

lemma inv_push_write:
  assumes inv: "sys_inv cap cr cw s" and pc: "ppc s = PWrite v"
  shows "sys_inv cap cr cw (s\<lparr>ring := write_slot v (ring s), ppc := PPublish v\<rparr>)"
proof -
  let ?w = "length (pushed s)" and ?r = "length (popped s)"
  have room: "?w < cr + cap" using inv pc by (simp add: sys_inv_def)
  note p = sys_invD(1) [OF inv]
  have other: "?w mod cap \<noteq> j mod cap" if "?r \<le> j" "j < ?w" for j
    using slot_of_other(1) [OF p that room] by (rule not_sym)
  have "?w mod cap < length (slots (ring s))"
    using p sys_invD(7) [OF inv] by (simp add: positions_def good_capacity_def)
  then show ?thesis
    using inv positions_write_slot [OF p, of v] room other pc by (auto simp: sys_inv_def)
qed

lemma inv_push_publish:
  assumes inv: "sys_inv cap cr cw s" and pc: "ppc s = PPublish v"
  shows "sys_inv cap cr cw (s\<lparr>ring := publish_write (ring s), ppc := PIdle, pushed := pushed s @ [v]\<rparr>)"
proof -
  let ?w = "length (pushed s)" and ?r = "length (popped s)"
  have room: "?w < cr + cap" using inv pc by (simp add: sys_inv_def)
  note p = positions_publish_write [OF sys_invD(1) [OF inv] room]
  have "popped s = take ?r (pushed s @ [v])"
    using inv sys_invD(2) [OF inv] by (simp add: sys_inv_def)
  then show ?thesis
    using inv p pc sys_invD [OF inv] by (auto simp: sys_inv_def nth_append less_Suc_eq)
qed

lemma inv_pop_read:
  assumes inv: "sys_inv cap cr cw s" and pc: "cpc s = CRead"
  shows "sys_inv cap cr cw (s\<lparr>ring := move_slot moved (ring s), cpc := CPublish (peek_slot (ring s))\<rparr>)"
proof -
  let ?w = "length (pushed s)" and ?r = "length (popped s)"
  have some: "?r < cw" using inv pc by (simp add: sys_inv_def)
  note p = sys_invD(1) [OF inv]
  have "?r < ?w" using some sys_invD(6) [OF inv] by simp
  have other: "?r mod cap \<noteq> j mod cap" if "?r < j" "j < cr + cap" for j
    using slot_of_other(1) [OF p _ that] by simp
  have "peek_slot (ring s) = pushed s ! ?r"
    using inv positions_move_slot [OF p] pc \<open>?r < ?w\<close> by (simp add: sys_inv_def)
  then show ?thesis
    using inv positions_move_slot [OF p, of moved] some other pc sys_invD [OF inv] \<open>?r < ?w\<close>
    by (auto simp: sys_inv_def)
qed

lemma inv_pop_publish:
  assumes inv: "sys_inv cap cr cw s" and pc: "cpc s = CPublish v"
  shows "sys_inv cap cr cw (s\<lparr>ring := publish_read (ring s), cpc := CIdle, popped := popped s @ [v]\<rparr>)"
proof -
  let ?w = "length (pushed s)" and ?r = "length (popped s)"
  have some: "?r < cw" "v = pushed s ! ?r" using inv pc by (auto simp: sys_inv_def)
  note p = positions_publish_read [OF sys_invD(1) [OF inv] some(1)]
  have "take (Suc ?r) (pushed s) = take ?r (pushed s) @ [v]"
    using some sys_invD(6) [OF inv] by (simp add: take_Suc_conv_app_nth)
  moreover have "take ?r (pushed s) = popped s"
    using inv by (simp add: sys_inv_def)
  ultimately have "take (Suc ?r) (pushed s) = popped s @ [v]"
    by simp
  then show ?thesis
    using inv p pc by (auto simp: sys_inv_def)
qed

lemma sys_inv_step:
  assumes "ring_step moved s e s'" and inv: "sys_inv cap cr cw s"
  shows "\<exists>cr' cw'. sys_inv cap cr' cw' s'"
  using assms(1)
proof cases
  case (push_room v)
  then have "length (pushed s) < cr + cap"
    using positions_full [OF sys_invD(1) [OF inv]] sys_invD(3) [OF inv] by simp
  with inv push_room show ?thesis by (auto simp: sys_inv_def)
next
  case (push_refresh v)
  note p = positions_refresh_read [OF sys_invD(1) [OF inv]]
  have "length (pushed s) < length (popped s) + cap"
    using positions_full [OF p] push_refresh p by (auto simp: positions_def)
  with inv push_refresh p show ?thesis
    by (intro exI [of _ "length (popped s)"] exI [of _ cw]) (auto simp: sys_inv_def)
next
  case (push_refused v)
  with inv positions_refresh_read [OF sys_invD(1) [OF inv]] show ?thesis
    by (intro exI [of _ "length (popped s)"] exI [of _ cw]) (auto simp: sys_inv_def)
next
  case (pop_refresh)
  note p = positions_refresh_write [OF sys_invD(1) [OF inv]]
  have "length (popped s) < length (pushed s)"
    using positions_empty [OF p] pop_refresh p by (auto simp: positions_def)
  with inv pop_refresh p show ?thesis
    by (intro exI [of _ cr] exI [of _ "length (pushed s)"]) (auto simp: sys_inv_def)
next
  case (pop_refused)
  with inv positions_refresh_write [OF sys_invD(1) [OF inv]] show ?thesis
    by (intro exI [of _ cr] exI [of _ "length (pushed s)"]) (auto simp: sys_inv_def)
next
  case (pop_some)
  then have "length (popped s) < cw"
    using positions_empty [OF sys_invD(1) [OF inv]] sys_invD(5) [OF inv] by simp
  with inv pop_some show ?thesis by (auto simp: sys_inv_def)
next
  case (push_write v)
  with inv_push_write [OF inv] show ?thesis by blast
next
  case (push_publish v)
  with inv_push_publish [OF inv] show ?thesis by blast
next
  case (pop_read)
  with inv_pop_read [OF inv] show ?thesis by blast
next
  case (pop_publish v)
  with inv_pop_publish [OF inv] show ?thesis by blast
qed (use inv in \<open>auto simp: sys_inv_def\<close>)

lemma sys_inv_initial: "good_capacity cap \<Longrightarrow> sys_inv cap 0 0 (initial_sys cap x)"
  by (simp add: sys_inv_def initial_sys_def new_ring_def positions_def)

lemma reachable_inv:
  "ring_reachable moved cap s \<Longrightarrow> good_capacity cap \<Longrightarrow> \<exists>cr cw. sys_inv cap cr cw s"
proof (induction rule: ring_reachable.induct)
  case (init x)
  then show ?case using sys_inv_initial [of cap x] by blast
next
  case (step s e s')
  then show ?case using sys_inv_step by blast
qed

section \<open>The contract of a bounded queue\<close>

datatype 'a queue_op = Push 'a | Pop

datatype 'a queue_result = PushResult bool | PopResult "'a option"

fun fifo_spec :: "nat \<Rightarrow> 'a list \<Rightarrow> 'a queue_op list \<Rightarrow> 'a queue_result list" where
  "fifo_spec cap xs [] = []"
| "fifo_spec cap xs (Push v # ops) =
     (if length xs < cap then PushResult True # fifo_spec cap (xs @ [v]) ops
      else PushResult False # fifo_spec cap xs ops)"
| "fifo_spec cap [] (Pop # ops) = PopResult None # fifo_spec cap [] ops"
| "fifo_spec cap (x # xs) (Pop # ops) = PopResult (Some x) # fifo_spec cap xs ops"

fun queue_run ::
  "('a \<Rightarrow> 'q \<Rightarrow> bool \<times> 'q) \<Rightarrow> ('q \<Rightarrow> 'a option \<times> 'q) \<Rightarrow> 'q \<Rightarrow> 'a queue_op list \<Rightarrow> 'a queue_result list" where
  "queue_run push pop q [] = []"
| "queue_run push pop q (Push v # ops) =
     (let (ok, q') = push v q in PushResult ok # queue_run push pop q' ops)"
| "queue_run push pop q (Pop # ops) =
     (let (x, q') = pop q in PopResult x # queue_run push pop q' ops)"

locale bounded_queue =
  fixes cap :: nat
    and rep :: "'q \<Rightarrow> 'a list \<Rightarrow> bool"
    and push :: "'a \<Rightarrow> 'q \<Rightarrow> bool \<times> 'q"
    and pop :: "'q \<Rightarrow> 'a option \<times> 'q"
  assumes push_room: "rep q xs \<Longrightarrow> length xs < cap \<Longrightarrow> fst (push v q) \<and> rep (snd (push v q)) (xs @ [v])"
    and push_full: "rep q xs \<Longrightarrow> cap \<le> length xs \<Longrightarrow> \<not> fst (push v q) \<and> rep (snd (push v q)) xs"
    and pop_some: "rep q (x # xs) \<Longrightarrow> fst (pop q) = Some x \<and> rep (snd (pop q)) xs"
    and pop_none: "rep q [] \<Longrightarrow> fst (pop q) = None \<and> rep (snd (pop q)) []"
begin

lemma run_refines: "rep q xs \<Longrightarrow> queue_run push pop q ops = fifo_spec cap xs ops"
proof (induction ops arbitrary: q xs)
  case Nil
  then show ?case by simp
next
  case (Cons op ops)
  show ?case
  proof (cases op)
    case (Push v)
    then show ?thesis
      using Cons push_room [of q xs v] push_full [of q xs v]
      by (cases "length xs < cap") (simp_all add: split_beta not_less)
  next
    case Pop
    then show ?thesis
      using Cons pop_none [of q] pop_some [of q] by (cases xs) (simp_all add: split_beta)
  qed
qed

end

text \<open>The ring as a queue: what it holds, oldest first.\<close>

definition ring_queue :: "nat \<Rightarrow> 'a ring \<Rightarrow> 'a list \<Rightarrow> bool" where
  "ring_queue cap q xs \<longleftrightarrow>
     (\<exists>cr r cw. positions cap cr r cw (r + length xs) q \<and>
        (\<forall>i<length xs. slots q ! ((r + i) mod cap) = xs ! i))"

lemma ring_queueI:
  "positions cap cr r cw (r + length xs) q \<Longrightarrow> (\<And>i. i < length xs \<Longrightarrow> slots q ! ((r + i) mod cap) = xs ! i)
   \<Longrightarrow> ring_queue cap q xs"
  unfolding ring_queue_def by blast

lemma ring_queue_bound: "ring_queue cap q xs \<Longrightarrow> length xs \<le> cap"
  by (auto simp: ring_queue_def positions_def)

lemma ring_queue_write:
  assumes "positions cap cr r cw (r + length xs) q" and "\<forall>i<length xs. slots q ! ((r + i) mod cap) = xs ! i"
    and "r + length xs < cr + cap"
  shows "ring_queue cap (publish_write (write_slot v q)) (xs @ [v])"
proof -
  let ?w = "r + length xs"
  have p: "positions cap cr r cw (Suc ?w) (publish_write (write_slot v q))"
    using positions_publish_write [OF _ assms(3)] positions_write_slot [OF assms(1)] by blast
  have sl: "slots (publish_write (write_slot v q)) = (slots q)[?w mod cap := v]"
    using positions_write_slot [OF assms(1), of v] by simp
  have "?w mod cap < length (slots q)"
    using assms(1) by (simp add: positions_def good_capacity_def)
  moreover have "?w mod cap \<noteq> (r + i) mod cap" if "i < length xs" for i
    using slot_of_other(1) [OF assms(1), of "r + i" ?w] that assms(3) by simp
  ultimately have "slots (publish_write (write_slot v q)) ! ((r + i) mod cap) = (xs @ [v]) ! i"
    if "i < length (xs @ [v])" for i
    using assms(2) that unfolding sl by (auto simp: nth_append less_Suc_eq)
  with p show ?thesis
    by (intro ring_queueI [of cap cr r cw]) simp_all
qed

lemma ring_queue_read:
  assumes "positions cap cr r cw (r + length (x # xs)) q"
    and "\<forall>i<length (x # xs). slots q ! ((r + i) mod cap) = (x # xs) ! i" and "r < cw"
  shows "peek_slot q = x" and "ring_queue cap (publish_read (move_slot moved q)) xs"
proof -
  show "peek_slot q = x"
    using positions_move_slot [OF assms(1)] assms(2) by (metis add_0_right length_Cons nth_Cons_0 zero_less_Suc)
  have p: "positions cap cr (Suc r) cw (Suc r + length xs) (publish_read (move_slot moved q))"
    using positions_publish_read [OF _ assms(3)] positions_move_slot [OF assms(1)] by fastforce
  have sl: "slots (publish_read (move_slot moved q)) = (slots q)[r mod cap := moved (slots q ! (r mod cap))]"
    using positions_move_slot [OF assms(1), of moved] by simp
  have "r mod cap \<noteq> (Suc r + i) mod cap" if "i < length xs" for i
    using mod_window [of r "Suc r + i" cap] that assms(1) by (auto simp: positions_def)
  then have "slots (publish_read (move_slot moved q)) ! ((Suc r + i) mod cap) = xs ! i" if "i < length xs" for i
    using assms(2) [rule_format, of "Suc i"] that unfolding sl by simp
  with p show "ring_queue cap (publish_read (move_slot moved q)) xs"
    by (rule ring_queueI)
qed

lemma ring_push:
  assumes "ring_queue cap q xs"
  shows "fst (emplaceFrom v q) \<longleftrightarrow> length xs < cap"
    and "ring_queue cap (snd (emplaceFrom v q)) (if length xs < cap then xs @ [v] else xs)"
proof -
  obtain cr r cw where p: "positions cap cr r cw (r + length xs) q"
    and sl: "\<forall>i<length xs. slots q ! ((r + i) mod cap) = xs ! i"
    using assms by (auto simp: ring_queue_def)
  note p' = positions_refresh_read [OF p]
  have le: "cr \<le> r" "r + length xs \<le> cr + cap" using p by (auto simp: positions_def)
  have full: "looks_full q \<longleftrightarrow> r + length xs = cr + cap" "looks_full (refresh_read q) \<longleftrightarrow> length xs = cap"
    using positions_full [OF p] positions_full [OF p'] by simp_all
  consider (room) "\<not> looks_full q" | (stale) "looks_full q" "length xs < cap"
    | (full) "looks_full q" "length xs = cap"
    using ring_queue_bound [OF assms] by linarith
  then have "(fst (emplaceFrom v q) \<longleftrightarrow> length xs < cap) \<and>
    ring_queue cap (snd (emplaceFrom v q)) (if length xs < cap then xs @ [v] else xs)"
  proof cases
    case room
    then show ?thesis using le full ring_queue_write [OF p sl] by (simp add: emplaceFrom_def)
  next
    case stale
    then show ?thesis using full ring_queue_write [OF p'] sl by (simp add: emplaceFrom_def)
  next
    case full
    then show ?thesis
      using \<open>looks_full (refresh_read q) \<longleftrightarrow> length xs = cap\<close> ring_queueI [OF p'] sl
      by (simp add: emplaceFrom_def)
  qed
  then show "fst (emplaceFrom v q) \<longleftrightarrow> length xs < cap"
    and "ring_queue cap (snd (emplaceFrom v q)) (if length xs < cap then xs @ [v] else xs)"
    by simp_all
qed

lemma ring_pop_none:
  assumes "ring_queue cap q []"
  shows "fst (tryPop moved q) = None" and "ring_queue cap (snd (tryPop moved q)) []"
proof -
  obtain cr r cw where p: "positions cap cr r cw r q"
    using assms by (auto simp: ring_queue_def)
  have "looks_empty q" "looks_empty (refresh_write q)"
    using positions_empty [OF p] positions_empty [OF positions_refresh_write [OF p]] p
    by (auto simp: positions_def)
  then show "fst (tryPop moved q) = None" and "ring_queue cap (snd (tryPop moved q)) []"
    using ring_queueI [of cap cr r r "[]" "refresh_write q"] positions_refresh_write [OF p]
    by (simp_all add: tryPop_def)
qed

lemma ring_pop_some:
  assumes "ring_queue cap q (x # xs)"
  shows "fst (tryPop moved q) = Some x" and "ring_queue cap (snd (tryPop moved q)) xs"
proof -
  obtain cr r cw where p: "positions cap cr r cw (r + length (x # xs)) q"
    and sl: "\<forall>i<length (x # xs). slots q ! ((r + i) mod cap) = (x # xs) ! i"
    using assms unfolding ring_queue_def by blast
  note p' = positions_refresh_write [OF p]
  have sl': "\<forall>i<length (x # xs). slots (refresh_write q) ! ((r + i) mod cap) = (x # xs) ! i"
    using sl by simp
  have ne: "\<not> looks_empty (refresh_write q)"
    using positions_empty [OF p'] by simp
  have "r < cw" if "\<not> looks_empty q"
    using positions_empty [OF p] that p by (auto simp: positions_def)
  then show "fst (tryPop moved q) = Some x" and "ring_queue cap (snd (tryPop moved q)) xs"
    using ring_queue_read [OF p sl] ring_queue_read [OF p' sl'] ne
    by (cases "looks_empty q"; simp add: tryPop_def)+
qed

interpretation spsc: bounded_queue cap "ring_queue cap" emplaceFrom "tryPop moved" for cap moved
proof unfold_locales
  fix q :: "'a ring" and xs :: "'a list" and v x :: 'a
  show "fst (emplaceFrom v q) \<and> ring_queue cap (snd (emplaceFrom v q)) (xs @ [v])"
    if "ring_queue cap q xs" "length xs < cap"
    using ring_push [OF that(1), of v] that(2) by simp
  show "\<not> fst (emplaceFrom v q) \<and> ring_queue cap (snd (emplaceFrom v q)) xs"
    if "ring_queue cap q xs" "cap \<le> length xs"
    using ring_push [OF that(1), of v] that(2) by simp
  show "fst (tryPop moved q) = Some x \<and> ring_queue cap (snd (tryPop moved q)) xs"
    if "ring_queue cap q (x # xs)"
    using ring_pop_some [OF that] by simp
  show "fst (tryPop moved q) = None \<and> ring_queue cap (snd (tryPop moved q)) []"
    if "ring_queue cap q []"
    using ring_pop_none [OF that] by simp
qed

lemma ring_queue_new: "good_capacity cap \<Longrightarrow> ring_queue cap (new_ring cap x) []"
  by (rule ring_queueI [of cap 0 0 0]) (simp_all add: positions_def new_ring_def)

section \<open>Atomic steps and whole operations\<close>

abbreviation ring_steps :: "('a \<Rightarrow> 'a) \<Rightarrow> 'a ring_sys \<Rightarrow> 'a ring_sys \<Rightarrow> bool" where
  "ring_steps moved \<equiv> (\<lambda>s s'. \<exists>e. ring_step moved s e s')\<^sup>*\<^sup>*"

lemma ring_steps_step: "ring_step moved s e s' \<Longrightarrow> ring_steps moved s' s'' \<Longrightarrow> ring_steps moved s s''"
  by (rule converse_rtranclp_into_rtranclp) blast+

text \<open>Rank of a thread inside its operation: an upper bound on the steps it has left.\<close>

fun prank :: "'a ppc \<Rightarrow> nat" where
  "prank PIdle = 0"
| "prank (PPublish v) = 1"
| "prank (PWrite v) = 2"
| "prank (PRefresh v) = 3"
| "prank (PCheck v) = 4"

fun crank :: "'a cpc \<Rightarrow> nat" where
  "crank CIdle = 0"
| "crank (CPublish v) = 1"
| "crank CRead = 2"
| "crank CRefresh = 3"
| "crank CCheck = 4"

lemma producer_enabled:
  "ppc s \<noteq> PIdle \<Longrightarrow> \<exists>e s'. ring_step moved s e s' \<and> prank (ppc s') < prank (ppc s)"
proof (cases "ppc s")
  case (PCheck v)
  then show ?thesis
    by (cases "looks_full (ring s)") (fastforce intro: push_room push_check)+
next
  case (PRefresh v)
  then show ?thesis
    by (cases "looks_full (refresh_read (ring s))") (fastforce intro: push_refresh push_refused)+
qed (fastforce intro: push_write push_publish)+

lemma consumer_enabled:
  "cpc s \<noteq> CIdle \<Longrightarrow> \<exists>e s'. ring_step moved s e s' \<and> crank (cpc s') < crank (cpc s)"
proof (cases "cpc s")
  case CCheck
  then show ?thesis
    by (cases "looks_empty (ring s)") (fastforce intro: pop_some pop_check)+
next
  case CRefresh
  then show ?thesis
    by (cases "looks_empty (refresh_write (ring s))") (fastforce intro: pop_refresh pop_refused)+
qed (fastforce intro: pop_read pop_publish)+

lemma step_ranks:
  "ring_step moved s e s' \<Longrightarrow>
   (ppc s' = ppc s \<or> ppc s = PIdle \<or> prank (ppc s') < prank (ppc s)) \<and>
   (cpc s' = cpc s \<or> cpc s = CIdle \<or> crank (cpc s') < crank (cpc s))"
  by (erule ring_step.cases) auto

lemma push_steps:
  assumes "ppc s = PIdle"
  shows "ring_steps moved s
    (s\<lparr>ring := snd (emplaceFrom v (ring s)), ppc := PIdle,
       pushed := pushed s @ (if fst (emplaceFrom v (ring s)) then [v] else [])\<rparr>)"
proof -
  let ?r = "refresh_read (ring s)"
  have call: "ring_step moved s Tau (s\<lparr>ppc := PCheck v\<rparr>)"
    using assms by (rule push_call)
  have publish: "ring_steps moved (s\<lparr>ring := q, ppc := PWrite v\<rparr>)
      (s\<lparr>ring := publish_write (write_slot v q), ppc := PIdle, pushed := pushed s @ [v]\<rparr>)" for q
    using push_write [of "s\<lparr>ring := q, ppc := PWrite v\<rparr>" v moved]
      push_publish [of "s\<lparr>ring := write_slot v q, ppc := PPublish v\<rparr>" v moved]
    by (auto intro!: ring_steps_step [OF _ ring_steps_step [OF _ rtranclp.rtrancl_refl]])
  consider "\<not> looks_full (ring s)" | "looks_full (ring s)" "\<not> looks_full ?r"
    | "looks_full (ring s)" "looks_full ?r" by blast
  then show ?thesis
  proof cases
    case 1
    then have "ring_step moved (s\<lparr>ppc := PCheck v\<rparr>) Tau (s\<lparr>ring := ring s, ppc := PWrite v\<rparr>)"
      using push_room [of "s\<lparr>ppc := PCheck v\<rparr>" v moved] by simp
    from ring_steps_step [OF call ring_steps_step [OF this publish]] 1 show ?thesis
      by (simp add: emplaceFrom_def)
  next
    case 2
    then have "ring_step moved (s\<lparr>ppc := PCheck v\<rparr>) Tau (s\<lparr>ppc := PRefresh v\<rparr>)"
      "ring_step moved (s\<lparr>ppc := PRefresh v\<rparr>) Tau (s\<lparr>ring := ?r, ppc := PWrite v\<rparr>)"
      using push_check [of "s\<lparr>ppc := PCheck v\<rparr>" v moved] push_refresh [of "s\<lparr>ppc := PRefresh v\<rparr>" v moved]
      by simp_all
    from ring_steps_step [OF call ring_steps_step [OF this(1) ring_steps_step [OF this(2) publish]]] 2
    show ?thesis by (simp add: emplaceFrom_def)
  next
    case 3
    then have "ring_step moved (s\<lparr>ppc := PCheck v\<rparr>) Tau (s\<lparr>ppc := PRefresh v\<rparr>)"
      "ring_step moved (s\<lparr>ppc := PRefresh v\<rparr>) PushRefused (s\<lparr>ring := ?r, ppc := PIdle\<rparr>)"
      using push_check [of "s\<lparr>ppc := PCheck v\<rparr>" v moved] push_refused [of "s\<lparr>ppc := PRefresh v\<rparr>" v moved]
      by simp_all
    from ring_steps_step [OF call ring_steps_step [OF this(1) ring_steps_step [OF this(2) rtranclp.rtrancl_refl]]] 3
    show ?thesis by (simp add: emplaceFrom_def)
  qed
qed

lemma pop_steps:
  assumes "cpc s = CIdle"
  shows "ring_steps moved s
    (s\<lparr>ring := snd (tryPop moved (ring s)), cpc := CIdle,
       popped := popped s @ (case fst (tryPop moved (ring s)) of None \<Rightarrow> [] | Some x \<Rightarrow> [x])\<rparr>)"
proof -
  let ?r = "refresh_write (ring s)"
  have call: "ring_step moved s Tau (s\<lparr>cpc := CCheck\<rparr>)"
    using assms by (rule pop_call)
  have publish: "ring_steps moved (s\<lparr>ring := q, cpc := CRead\<rparr>)
      (s\<lparr>ring := publish_read (move_slot moved q), cpc := CIdle, popped := popped s @ [peek_slot q]\<rparr>)" for q
    using pop_read [of "s\<lparr>ring := q, cpc := CRead\<rparr>" moved]
      pop_publish [of "s\<lparr>ring := move_slot moved q, cpc := CPublish (peek_slot q)\<rparr>" "peek_slot q" moved]
    by (auto intro!: ring_steps_step [OF _ ring_steps_step [OF _ rtranclp.rtrancl_refl]])
  consider "\<not> looks_empty (ring s)" | "looks_empty (ring s)" "\<not> looks_empty ?r"
    | "looks_empty (ring s)" "looks_empty ?r" by blast
  then show ?thesis
  proof cases
    case 1
    then have "ring_step moved (s\<lparr>cpc := CCheck\<rparr>) Tau (s\<lparr>ring := ring s, cpc := CRead\<rparr>)"
      using pop_some [of "s\<lparr>cpc := CCheck\<rparr>" moved] by simp
    from ring_steps_step [OF call ring_steps_step [OF this publish]] 1 show ?thesis
      by (simp add: tryPop_def Let_def)
  next
    case 2
    then have "ring_step moved (s\<lparr>cpc := CCheck\<rparr>) Tau (s\<lparr>cpc := CRefresh\<rparr>)"
      "ring_step moved (s\<lparr>cpc := CRefresh\<rparr>) Tau (s\<lparr>ring := ?r, cpc := CRead\<rparr>)"
      using pop_check [of "s\<lparr>cpc := CCheck\<rparr>" moved] pop_refresh [of "s\<lparr>cpc := CRefresh\<rparr>" moved]
      by simp_all
    from ring_steps_step [OF call ring_steps_step [OF this(1) ring_steps_step [OF this(2) publish]]] 2
    show ?thesis by (simp add: tryPop_def Let_def)
  next
    case 3
    then have "ring_step moved (s\<lparr>cpc := CCheck\<rparr>) Tau (s\<lparr>cpc := CRefresh\<rparr>)"
      "ring_step moved (s\<lparr>cpc := CRefresh\<rparr>) PopRefused (s\<lparr>ring := ?r, cpc := CIdle\<rparr>)"
      using pop_check [of "s\<lparr>cpc := CCheck\<rparr>" moved] pop_refused [of "s\<lparr>cpc := CRefresh\<rparr>" moved]
      by simp_all
    from ring_steps_step [OF call ring_steps_step [OF this(1) ring_steps_step [OF this(2) rtranclp.rtrancl_refl]]] 3
    show ?thesis by (simp add: tryPop_def Let_def)
  qed
qed

lemma good_capacity_2: "good_capacity 2"
  unfolding good_capacity_def by (auto intro: exI [of _ 1])

section \<open>Properties\<close>

text \<open>
  C17. First in, first out, under every interleaving of the two threads and across
  the wrap of the 64-bit positions: what has been handed out is a prefix of what
  has been published, never more than the capacity is in flight, and the reported
  size is their difference.
\<close>

theorem ring_fifo:
  assumes "good_capacity cap" and "ring_reachable moved cap s"
  shows "popped s = take (length (popped s)) (pushed s)
    \<and> length (pushed s) \<le> length (popped s) + cap
    \<and> sizeApprox (ring s) = length (pushed s) - length (popped s)"
proof -
  obtain cr cw where inv: "sys_inv cap cr cw s"
    using reachable_inv [OF assms(2,1)] by blast
  have "cap < 2 ^ 64"
    using assms(1) power_strict_increasing [of _ 64 "2 :: nat"] by (auto simp: good_capacity_def)
  then have "sizeApprox (ring s) = length (pushed s) - length (popped s)"
    using sys_invD [OF inv] counter_distance [of "length (popped s)" "length (pushed s)"]
    by (simp add: sizeApprox_def positions_def)
  then show ?thesis
    using inv sys_invD [OF inv] by (simp add: sys_inv_def)
qed

text \<open>A run in which the producer publishes one value.\<close>

lemma one_pushed:
  "ring_reachable moved 2 ((initial_sys 2 x)\<lparr>ring := snd (emplaceFrom v (new_ring 2 x)), pushed := [v]\<rparr>)"
proof -
  have reach: "ring_reachable moved cap s'" if "ring_steps moved s s'" "ring_reachable moved cap s"
    for cap and s s' :: "'a ring_sys"
    using that by (induction rule: rtranclp_induct) (auto intro: ring_reachable.step)
  have "fst (emplaceFrom v (new_ring 2 x))"
    by (simp add: emplaceFrom_def looks_full_def new_ring_def capacity_def)
  then show ?thesis
    using reach [OF push_steps [of "initial_sys 2 x" moved v] ring_reachable.init]
    by (simp add: initial_sys_def)
qed

theorem ring_fifo_witness:
  "let s = (initial_sys 2 (0 :: nat))\<lparr>ring := snd (emplaceFrom 7 (new_ring 2 0)), pushed := [7]\<rparr>
   in sizeApprox (ring s) = 1"
  using ring_fifo [OF good_capacity_2 one_pushed [of id 7 0]] by (simp add: initial_sys_def)

text \<open>
  C18. No data race and no false refusal: when the producer is about to write a slot
  and the consumer about to read one they are different slots, the consumer
  only reads a slot whose value has been published, a push is refused only while
  the ring holds as many elements as it can, and a pop only while it is empty.
\<close>

theorem ring_race_free:
  assumes "good_capacity cap" and "ring_reachable moved cap s"
  shows "(ppc s = PWrite v \<and> cpc s = CRead \<longrightarrow>
            unat (write_pos (ring s) AND kIndexMask (ring s)) \<noteq> unat (read_pos (ring s) AND kIndexMask (ring s)))
    \<and> (cpc s = CRead \<longrightarrow> length (popped s) < length (pushed s)
            \<and> peek_slot (ring s) = pushed s ! length (popped s))
    \<and> (ring_step moved s PushRefused s' \<longrightarrow> length (pushed s) = length (popped s) + cap)
    \<and> (ring_step moved s PopRefused s' \<longrightarrow> pushed s = popped s)"
proof -
  obtain cr cw where inv: "sys_inv cap cr cw s"
    using reachable_inv [OF assms(2,1)] by blast
  note p = sys_invD(1) [OF inv] and facts = sys_invD [OF inv]
  let ?w = "length (pushed s)" and ?r = "length (popped s)"
  have read: "?r < ?w" if "cpc s = CRead"
    using inv that facts by (auto simp: sys_inv_def)
  have "?r mod cap \<noteq> ?w mod cap" if "ppc s = PWrite v" "cpc s = CRead"
    using slot_of_other(1) [OF p order_refl read [OF that(2)]] inv that(1) by (auto simp: sys_inv_def)
  moreover have "peek_slot (ring s) = pushed s ! ?r" if "cpc s = CRead"
    using positions_move_slot [OF p] inv read [OF that] that by (auto simp: sys_inv_def)
  moreover have "?w = ?r + cap" if "ring_step moved s PushRefused s'"
    using that positions_full [OF positions_refresh_read [OF p]] by cases auto
  moreover have "pushed s = popped s" if "ring_step moved s PopRefused s'"
  proof -
    have "?r = ?w"
      using that positions_empty [OF positions_refresh_write [OF p]] by cases auto
    then show ?thesis using inv by (simp add: sys_inv_def)
  qed
  ultimately show ?thesis
    using read positions_write_index [OF p] positions_read_index [OF p] by auto
qed

theorem ring_race_free_witness:
  "let s = (initial_sys 2 (0 :: nat))\<lparr>ring := snd (emplaceFrom 7 (new_ring 2 0)), pushed := [7]\<rparr>
   in \<not> ring_step id s PopRefused s"
  using ring_race_free [OF good_capacity_2 one_pushed [of id 7 0], of _
      "(initial_sys 2 (0 :: nat))\<lparr>ring := snd (emplaceFrom 7 (new_ring 2 0)), pushed := [7]\<rparr>"]
  by (auto simp: initial_sys_def)

text \<open>
  Refinement: any sequence of \<open>tryPush\<close> and \<open>tryPop\<close> calls on a new ring returns
  exactly what a queue bounded by the capacity returns.
\<close>

theorem ring_refines_queue:
  assumes "good_capacity cap"
  shows "queue_run emplaceFrom (tryPop moved) (new_ring cap x) ops = fifo_spec cap [] ops"
  by (rule spsc.run_refines) (rule ring_queue_new [OF assms])

theorem ring_refines_queue_witness:
  "queue_run emplaceFrom (tryPop id) (new_ring 2 0) [Push (5 :: nat), Push 6, Push 7, Pop, Push 8, Pop, Pop, Pop]
   = [PushResult True, PushResult True, PushResult False, PopResult (Some 5), PushResult True,
      PopResult (Some 6), PopResult (Some 8), PopResult None]"
  unfolding ring_refines_queue [OF good_capacity_2] by simp

text \<open>
  Wait freedom: a thread inside an operation can always take a step, each of
  its steps brings it strictly closer to returning, at most four are left, and no
  step of the other thread sets it back; without interference the steps compose
  to the functions of the two operations.
\<close>

theorem ring_wait_free:
  "prank (ppc s) \<le> 4 \<and> crank (cpc s) \<le> 4
   \<and> (ppc s = PIdle \<or> (\<exists>e s'. ring_step moved s e s' \<and> prank (ppc s') < prank (ppc s)))
   \<and> (cpc s = CIdle \<or> (\<exists>e s'. ring_step moved s e s' \<and> crank (cpc s') < crank (cpc s)))
   \<and> (ring_step moved s e s' \<longrightarrow>
        (ppc s' = ppc s \<or> ppc s = PIdle \<or> prank (ppc s') < prank (ppc s))
        \<and> (cpc s' = cpc s \<or> cpc s = CIdle \<or> crank (cpc s') < crank (cpc s)))
   \<and> (ppc s = PIdle \<longrightarrow> ring_steps moved s
        (s\<lparr>ring := snd (emplaceFrom v (ring s)), ppc := PIdle,
           pushed := pushed s @ (if fst (emplaceFrom v (ring s)) then [v] else [])\<rparr>))
   \<and> (cpc s = CIdle \<longrightarrow> ring_steps moved s
        (s\<lparr>ring := snd (tryPop moved (ring s)), cpc := CIdle,
           popped := popped s @ (case fst (tryPop moved (ring s)) of None \<Rightarrow> [] | Some x \<Rightarrow> [x])\<rparr>))"
proof -
  have "prank (ppc s) \<le> 4" by (cases "ppc s") simp_all
  moreover have "crank (cpc s) \<le> 4" by (cases "cpc s") simp_all
  ultimately show ?thesis
    using producer_enabled [of s moved] consumer_enabled [of s moved] step_ranks [of moved s e s']
      push_steps [of s moved v] pop_steps [of s moved] by blast
qed

theorem ring_wait_free_witness:
  "ring_steps id (initial_sys 2 (0 :: nat))
     ((initial_sys 2 0)\<lparr>ring := snd (emplaceFrom 7 (new_ring 2 0)), ppc := PIdle,
        pushed := [] @ (if fst (emplaceFrom 7 (new_ring 2 (0 :: nat))) then [7] else [])\<rparr>)"
  using ring_wait_free [of "initial_sys 2 (0 :: nat)" id Tau "initial_sys 2 0" 7]
  by (simp add: initial_sys_def)

end
