(* ===== verification/Seqlock_Slot.thy ===== *)
theory Seqlock_Slot
  imports Prelude
begin

text \<open>
  The seqlock (\<open>include/safeedge/ipc/seqlock_slot.hpp\<close>).  A value is the list of its
  64-bit words (the two \<open>memcpy\<close> calls through the staging buffer).  \<open>store\<close> and
  \<open>tryLoad\<close> are given as functions for a caller that is alone, and as atomic steps
  of a writer and a reader that interleave freely; the accesses of the code are
  sequentially consistent or ordered by release, and one step is one access.  A
  reader never writes, so one reader stands for any number.
\<close>

section \<open>Model\<close>

record seqlock =
  sequence :: u64
  seq_words :: "u64 list"

definition kWordCount :: "nat \<Rightarrow> nat" where
  "kWordCount size_of_T = (size_of_T + 8 - 1) div 8"

definition new_seqlock :: "nat \<Rightarrow> seqlock" where
  "new_seqlock n = \<lparr>sequence = 0, seq_words = replicate n 0\<rparr>"

definition mark_odd :: "seqlock \<Rightarrow> seqlock" where
  "mark_odd s = s\<lparr>sequence := sequence s + 1\<rparr>"

definition write_word :: "u64 list \<Rightarrow> nat \<Rightarrow> seqlock \<Rightarrow> seqlock" where
  "write_word value index s = s\<lparr>seq_words := (seq_words s)[index := value ! index]\<rparr>"

text \<open>\<open>start + 2\<close>: the writer is the only one that changes the counter, which holds \<open>start + 1\<close>.\<close>

definition mark_even :: "seqlock \<Rightarrow> seqlock" where
  "mark_even s = s\<lparr>sequence := sequence s + 1\<rparr>"

definition store :: "u64 list \<Rightarrow> seqlock \<Rightarrow> seqlock" where
  "store value s = mark_even (fold (write_word value) [0..<length (seq_words s)] (mark_odd s))"

definition copy_words :: "seqlock \<Rightarrow> u64 list" where
  "copy_words s = map (\<lambda>index. seq_words s ! index) [0..<length (seq_words s)]"

fun tryLoad :: "nat \<Rightarrow> seqlock \<Rightarrow> u64 list option" where
  "tryLoad 0 s = None"
| "tryLoad (Suc attempts) s =
     (let before = sequence s in
      if before AND 1 \<noteq> 0 then tryLoad attempts s
      else
        let staging = copy_words s in
        if sequence s = before then Some staging else tryLoad attempts s)"

definition generation :: "seqlock \<Rightarrow> u64" where
  "generation s = sequence s div 2"

definition writeInProgress :: "seqlock \<Rightarrow> bool" where
  "writeInProgress s \<longleftrightarrow> sequence s AND 1 \<noteq> 0"

text \<open>The writer inside \<open>store\<close>: the value and the number of words already written.\<close>

datatype wpc = WIdle | WWords "u64 list" nat

text \<open>The reader inside \<open>tryLoad\<close>: attempts left, the first sample and the words copied so far.\<close>

datatype rpc = RIdle | RTry nat | RCopy nat u64 "u64 list"

text \<open>
  The system.  The history holds the initial value and every completed store;
  \<open>sampled\<close> is its length when the reader took its first sample.
\<close>

record seq_sys =
  slot :: seqlock
  wpc :: wpc
  rpc :: rpc
  history :: "u64 list list"
  sampled :: nat

datatype seq_event = STau | Loaded "u64 list" | LoadFailed

inductive seq_step :: "seq_sys \<Rightarrow> seq_event \<Rightarrow> seq_sys \<Rightarrow> bool" where
  write_begin: "wpc s = WIdle \<Longrightarrow> length v = length (seq_words (slot s)) \<Longrightarrow>
    seq_step s STau (s\<lparr>slot := mark_odd (slot s), wpc := WWords v 0\<rparr>)"
| write_next: "wpc s = WWords v i \<Longrightarrow> i < length (seq_words (slot s)) \<Longrightarrow>
    seq_step s STau (s\<lparr>slot := write_word v i (slot s), wpc := WWords v (Suc i)\<rparr>)"
| write_end: "wpc s = WWords v i \<Longrightarrow> i = length (seq_words (slot s)) \<Longrightarrow>
    seq_step s STau (s\<lparr>slot := mark_even (slot s), wpc := WIdle, history := history s @ [v]\<rparr>)"
| read_call: "rpc s = RIdle \<Longrightarrow> seq_step s STau (s\<lparr>rpc := RTry max_attempts\<rparr>)"
| read_failed: "rpc s = RTry 0 \<Longrightarrow> seq_step s LoadFailed (s\<lparr>rpc := RIdle\<rparr>)"
| read_busy: "rpc s = RTry (Suc k) \<Longrightarrow> sequence (slot s) AND 1 \<noteq> 0 \<Longrightarrow>
    seq_step s STau (s\<lparr>rpc := RTry k\<rparr>)"
| read_sample: "rpc s = RTry (Suc k) \<Longrightarrow> sequence (slot s) AND 1 = 0 \<Longrightarrow>
    seq_step s STau (s\<lparr>rpc := RCopy k (sequence (slot s)) [], sampled := length (history s)\<rparr>)"
| read_word: "rpc s = RCopy k before st \<Longrightarrow> length st < length (seq_words (slot s)) \<Longrightarrow>
    seq_step s STau (s\<lparr>rpc := RCopy k before (st @ [seq_words (slot s) ! length st])\<rparr>)"
| read_ok: "rpc s = RCopy k before st \<Longrightarrow> length st = length (seq_words (slot s)) \<Longrightarrow>
    sequence (slot s) = before \<Longrightarrow> seq_step s (Loaded st) (s\<lparr>rpc := RIdle\<rparr>)"
| read_retry: "rpc s = RCopy k before st \<Longrightarrow> length st = length (seq_words (slot s)) \<Longrightarrow>
    sequence (slot s) \<noteq> before \<Longrightarrow> seq_step s STau (s\<lparr>rpc := RTry k\<rparr>)"

inductive_cases seq_loadedE: "seq_step s (Loaded v) s'"

definition initial_seq :: "nat \<Rightarrow> seq_sys" where
  "initial_seq n =
     \<lparr>slot = new_seqlock n, wpc = WIdle, rpc = RIdle, history = [replicate n 0], sampled = 0\<rparr>"

inductive seq_reachable :: "nat \<Rightarrow> seq_sys \<Rightarrow> bool" for n :: nat where
  init: "seq_reachable n (initial_seq n)"
| step: "seq_reachable n s \<Longrightarrow> seq_step s e s' \<Longrightarrow> seq_reachable n s'"

section \<open>The invariant of writer and reader\<close>

text \<open>The counter without wrap: two per completed store, one for a store in progress.\<close>

definition seq_number :: "seq_sys \<Rightarrow> nat" where
  "seq_number s = 2 * (length (history s) - 1) + (if wpc s = WIdle then 0 else 1)"

definition writer_ok :: "nat \<Rightarrow> seq_sys \<Rightarrow> bool" where
  "writer_ok n s \<longleftrightarrow>
     history s \<noteq> [] \<and> length (seq_words (slot s)) = n \<and>
     sequence (slot s) = of_nat (seq_number s) \<and>
     (wpc s = WIdle \<longrightarrow> seq_words (slot s) = last (history s)) \<and>
     (\<forall>v i. wpc s = WWords v i \<longrightarrow> length v = n \<and> i \<le> n \<and> take i (seq_words (slot s)) = take i v)"

definition reader_ok :: "nat \<Rightarrow> seq_sys \<Rightarrow> bool" where
  "reader_ok n s \<longleftrightarrow>
     (\<forall>k before st. rpc s = RCopy k before st \<longrightarrow>
        1 \<le> sampled s \<and> sampled s \<le> length (history s) \<and> before = of_nat (2 * (sampled s - 1)) \<and>
        length st \<le> n \<and>
        (seq_number s = 2 * (sampled s - 1) \<longrightarrow> st = take (length st) (last (history s))))"

lemma odd_number: "(of_nat m :: u64) AND 1 = 0 \<longleftrightarrow> even m"
  by (simp add: and_one_eq mod_2_eq_odd)

lemma writer_ok_initial: "writer_ok n (initial_seq n)"
  by (simp add: writer_ok_def initial_seq_def new_seqlock_def seq_number_def)

lemma reader_ok_initial: "reader_ok n (initial_seq n)"
  by (simp add: reader_ok_def initial_seq_def)

lemma writer_ok_next:
  assumes inv: "writer_ok n s" and pc: "wpc s = WWords v i" and i: "i < length (seq_words (slot s))"
  shows "writer_ok n (s\<lparr>slot := write_word v i (slot s), wpc := WWords v (Suc i)\<rparr>)"
proof -
  have w: "take i (seq_words (slot s)) = take i v" "length v = n" "length (seq_words (slot s)) = n"
    using inv pc by (simp_all add: writer_ok_def)
  have "take (Suc i) ((seq_words (slot s))[i := v ! i]) = take (Suc i) v"
    using w i by (simp add: take_Suc_conv_app_nth list_update_append)
  then show ?thesis
    using inv pc i by (simp add: writer_ok_def write_word_def seq_number_def)
qed

lemma writer_ok_step:
  assumes "seq_step s e s'" and inv: "writer_ok n s"
  shows "writer_ok n s'"
  using assms(1)
proof cases
  case (write_begin v)
  then show ?thesis using inv by (auto simp: writer_ok_def mark_odd_def seq_number_def)
next
  case (write_next v i)
  then show ?thesis using writer_ok_next [OF inv] by simp
next
  case (write_end v i)
  have w: "length (seq_words (slot s)) = n \<and> length v = n \<and> take i (seq_words (slot s)) = take i v"
    using inv write_end(3) by (simp add: writer_ok_def)
  then have "i = n" using write_end(4) by simp
  then have "seq_words (slot s) = v" using w by (metis take_all order_refl)
  moreover have "1 \<le> length (history s)" using inv by (simp add: writer_ok_def Suc_le_eq)
  ultimately show ?thesis
    using inv write_end by (simp add: writer_ok_def mark_even_def seq_number_def)
qed (use inv in \<open>simp_all add: writer_ok_def seq_number_def\<close>)

text \<open>A step of the writer moves the counter on or leaves it; the reader's samples stay behind it.\<close>

lemma reader_ok_writer_step:
  assumes "reader_ok n s" and "rpc s' = rpc s" and "sampled s' = sampled s"
    and "length (history s) \<le> length (history s')" and "seq_number s < seq_number s' \<or> history s' = history s \<and> seq_number s' = seq_number s"
  shows "reader_ok n s'"
  unfolding reader_ok_def
proof (intro allI impI)
  fix k before st
  assume "rpc s' = RCopy k before st"
  then have r: "1 \<le> sampled s" "sampled s \<le> length (history s)" "before = of_nat (2 * (sampled s - 1))"
      "length st \<le> n" "seq_number s = 2 * (sampled s - 1) \<longrightarrow> st = take (length st) (last (history s))"
    using assms(1,2) by (simp_all add: reader_ok_def)
  have "2 * (sampled s - 1) \<le> seq_number s"
    using r(2) by (simp add: seq_number_def)
  then have "seq_number s' = 2 * (sampled s - 1) \<longrightarrow> st = take (length st) (last (history s'))"
    using assms(5) r(5) by auto
  then show "1 \<le> sampled s' \<and> sampled s' \<le> length (history s') \<and> before = of_nat (2 * (sampled s' - 1)) \<and>
      length st \<le> n \<and> (seq_number s' = 2 * (sampled s' - 1) \<longrightarrow> st = take (length st) (last (history s')))"
    using r assms(3,4) by simp
qed

lemma reader_ok_word:
  assumes inv: "writer_ok n s" "reader_ok n s" and pc: "rpc s = RCopy k before st"
    and len: "length st < length (seq_words (slot s))"
  shows "reader_ok n (s\<lparr>rpc := RCopy k before (st @ [seq_words (slot s) ! length st])\<rparr>)"
proof -
  have "take (Suc (length st)) (last (history s)) = st @ [seq_words (slot s) ! length st]"
    if num: "seq_number s = 2 * (sampled s - 1)"
  proof -
    have "even (seq_number s)" using num by simp
    then have "wpc s = WIdle" by (simp add: seq_number_def split: if_splits)
    then have "seq_words (slot s) = last (history s)" using inv(1) by (simp add: writer_ok_def)
    moreover have "st = take (length st) (last (history s))"
      using inv(2) pc num by (simp add: reader_ok_def)
    ultimately show ?thesis
      using len by (metis take_Suc_conv_app_nth)
  qed
  moreover have "seq_number (s\<lparr>rpc := RCopy k before (st @ [seq_words (slot s) ! length st])\<rparr>) = seq_number s"
    by (simp add: seq_number_def)
  ultimately show ?thesis
    using inv pc len by (simp add: reader_ok_def writer_ok_def)
qed

lemma reader_ok_step:
  assumes "seq_step s e s'" and inv: "writer_ok n s" "reader_ok n s"
  shows "reader_ok n s'"
  using assms(1)
proof cases
  case (write_begin v)
  then show ?thesis using reader_ok_writer_step [OF inv(2), of s'] by (simp add: seq_number_def)
next
  case (write_next v i)
  then show ?thesis using reader_ok_writer_step [OF inv(2), of s'] by (simp add: seq_number_def)
next
  case (write_end v i)
  moreover have "1 \<le> length (history s)" using inv(1) by (simp add: writer_ok_def Suc_le_eq)
  ultimately show ?thesis using reader_ok_writer_step [OF inv(2), of s'] by (simp add: seq_number_def)
next
  case (read_sample k)
  have "even (seq_number s)"
    using inv(1) read_sample odd_number [of "seq_number s"] by (simp add: writer_ok_def)
  then have "wpc s = WIdle" by (simp add: seq_number_def split: if_splits)
  then show ?thesis
    using inv(1) read_sample by (simp add: reader_ok_def writer_ok_def seq_number_def Suc_le_eq)
next
  case (read_word k before st)
  then show ?thesis using reader_ok_word [OF inv] by simp
qed (use inv(2) in \<open>simp_all add: reader_ok_def\<close>)

lemma reachable_ok: "seq_reachable n s \<Longrightarrow> writer_ok n s \<and> reader_ok n s"
  by (induction rule: seq_reachable.induct)
    (auto intro: writer_ok_initial reader_ok_initial writer_ok_step reader_ok_step)

section \<open>A caller that is alone\<close>

lemma fold_write_word:
  "i \<le> length v \<Longrightarrow> length v = length (seq_words s) \<Longrightarrow>
   fold (write_word v) [0..<i] s = s\<lparr>seq_words := take i v @ drop i (seq_words s)\<rparr>"
proof (induction i)
  case (Suc i)
  have "(take i v @ drop i (seq_words s))[i := v ! i] = take (Suc i) v @ drop (Suc i) (seq_words s)"
    using Suc.prems by (simp add: take_Suc_conv_app_nth list_update_append Cons_nth_drop_Suc [symmetric])
  then show ?case
    using Suc by (simp add: write_word_def)
qed simp

lemma store_words:
  "length v = length (seq_words s) \<Longrightarrow>
   store v s = s\<lparr>sequence := sequence s + 2, seq_words := v\<rparr>"
  using fold_write_word [of "length (seq_words s)" v "mark_odd s"]
  by (simp add: store_def mark_odd_def mark_even_def)

lemma copy_words_eq: "copy_words s = seq_words s"
  by (simp add: copy_words_def map_nth)

lemma tryLoad_stable: "sequence s AND 1 = 0 \<Longrightarrow> tryLoad (Suc k) s = Some (seq_words s)"
  by (simp add: copy_words_eq)

lemma tryLoad_busy: "sequence s AND 1 \<noteq> 0 \<Longrightarrow> tryLoad k s = None"
  by (induction k) simp_all

lemma even_plus_2: "(x + 2) AND 1 = x AND 1" for x :: u64
proof -
  have "bit (x + 2) 0 = bit x 0" by (simp add: bit_0)
  then show ?thesis by (auto simp: and_one_eq mod2_eq_if bit_0)
qed

lemma fold_store_sequence:
  "\<forall>v\<in>set vs. length v = length (seq_words s) \<Longrightarrow>
   sequence (fold store vs s) = sequence s + of_nat (2 * length vs)"
proof (induction vs arbitrary: s)
  case (Cons v vs)
  then show ?case by (simp add: store_words)
qed simp

lemma generation_counts:
  assumes "\<forall>v\<in>set vs. length v = n" and "length vs < 2 ^ 63"
  shows "generation (fold store vs (new_seqlock n)) = of_nat (length vs)"
proof -
  have "sequence (fold store vs (new_seqlock n)) = of_nat (2 * length vs)"
    using fold_store_sequence [of vs "new_seqlock n"] assms(1) by (simp add: new_seqlock_def)
  moreover have "unat (of_nat (2 * length vs) :: u64) = 2 * length vs"
    using assms(2) by (intro unat_of_nat_small) simp
  ultimately have "unat (generation (fold store vs (new_seqlock n))) = length vs"
    by (simp only: generation_def unat_div unsigned_numeral take_bit_numeral_numeral) simp
  then show ?thesis by (rule word_of_unat)
qed

text \<open>The contract of a slot: a stable slot holds the value of the last store.\<close>

locale latest_value_slot =
  fixes put :: "'v \<Rightarrow> 's \<Rightarrow> 's"
    and get :: "'s \<Rightarrow> 'v option"
    and stable :: "'s \<Rightarrow> bool"
    and fits :: "'v \<Rightarrow> 's \<Rightarrow> bool"
  assumes put_stable: "stable s \<Longrightarrow> fits v s \<Longrightarrow> stable (put v s)"
    and put_get: "stable s \<Longrightarrow> fits v s \<Longrightarrow> get (put v s) = Some v"
    and put_fits: "fits v s \<Longrightarrow> fits w (put v s) = fits w s"
begin

lemma put_many:
  "stable s \<Longrightarrow> \<forall>v\<in>set vs. fits v s \<Longrightarrow> vs \<noteq> [] \<Longrightarrow>
   get (fold put vs s) = Some (last vs) \<and> stable (fold put vs s)"
proof (induction vs arbitrary: s)
  case (Cons v vs)
  have s: "stable (put v s)" "get (put v s) = Some v"
    using Cons.prems by (simp_all add: put_stable put_get)
  show ?case
  proof (cases "vs = []")
    case True
    with s show ?thesis by simp
  next
    case False
    then show ?thesis
      using Cons.IH [of "put v s"] Cons.prems s(1) put_fits [of v s] by simp
  qed
qed simp

end

interpretation seqlock: latest_value_slot store "tryLoad (Suc k)" "\<lambda>s. sequence s AND 1 = 0"
  "\<lambda>v s. length v = length (seq_words s)" for k
  by unfold_locales (simp_all add: store_words even_plus_2 tryLoad_stable del: tryLoad.simps)

text \<open>Steps the reader has left: an attempt is a sample, the words and the check.\<close>

fun rrank :: "nat \<Rightarrow> rpc \<Rightarrow> nat" where
  "rrank n RIdle = 0"
| "rrank n (RTry k) = k * (n + 2) + 1"
| "rrank n (RCopy k before st) = k * (n + 2) + 2 + (n - length st)"

lemma reader_step_rank:
  assumes "seq_step s e s'" and "length (seq_words (slot s)) = n" and "rpc s \<noteq> RIdle"
  shows "rpc s' = rpc s \<or> rrank n (rpc s') < rrank n (rpc s)"
  using assms(1)
proof cases
  case (read_word k before st)
  then show ?thesis using assms(2) by simp
qed (use assms(3) in simp_all)

lemma reader_enabled:
  assumes "rpc s \<noteq> RIdle" and "reader_ok n s" and "length (seq_words (slot s)) = n"
  shows "\<exists>e s'. seq_step s e s' \<and> rrank n (rpc s') < rrank n (rpc s)"
proof (cases "rpc s")
  case (RTry k)
  show ?thesis
  proof (cases k)
    case 0
    with RTry read_failed [of s] show ?thesis by fastforce
  next
    case (Suc j)
    with RTry read_busy [of s j] read_sample [of s j] show ?thesis
      by (cases "sequence (slot s) AND 1 = 0") fastforce+
  qed
next
  case (RCopy k before st)
  have "length st \<le> n" using RCopy assms(2) by (simp add: reader_ok_def)
  then consider "length st < n" | "length st = n" by linarith
  then show ?thesis
    using RCopy assms(3) read_word [of s k before st] read_ok [of s k before st] read_retry [of s k before st]
    by cases (fastforce, cases "sequence (slot s) = before", fastforce+)
qed (use assms in simp)

lemma loaded_last:
  assumes "seq_reachable n s" and "seq_step s (Loaded v) s'"
    and "length (history s) - sampled s < 2 ^ 63"
  shows "v = last (history s) \<and> history s' = history s"
  using assms(2)
proof cases
  case (read_ok k before)
  have ok: "writer_ok n s" "reader_ok n s" using reachable_ok [OF assms(1)] by auto
  have r: "1 \<le> sampled s" "sampled s \<le> length (history s)" "before = of_nat (2 * (sampled s - 1))"
    using ok(2) read_ok by (auto simp: reader_ok_def)
  let ?a = "2 * (sampled s - 1)" and ?b = "seq_number s"
  have le: "?a \<le> ?b" "?b - ?a < 2 ^ 64"
    using r(1,2) assms(3) by (auto simp: seq_number_def)
  have "(of_nat ?b :: u64) = of_nat ?a" using ok(1) read_ok r(3) by (simp add: writer_ok_def)
  then have "(of_nat (?b - ?a) :: u64) = 0" using le(1) by (simp only: of_nat_diff diff_self)
  then have "?b - ?a = 0" using le(2) unat_of_nat_small [of "?b - ?a", where 'a = 64] by simp
  then have num: "?b = ?a" using le(1) by simp
  have "v = take (length v) (last (history s))"
    using ok(2) read_ok num by (auto simp: reader_ok_def)
  moreover have "length v = n" "length (last (history s)) = n"
  proof -
    have "even ?b" using num by simp
    then have "wpc s = WIdle" by (simp add: seq_number_def split: if_splits)
    then show "length v = n" "length (last (history s)) = n"
      using ok(1) read_ok by (auto simp: writer_ok_def)
  qed
  ultimately show ?thesis using read_ok by simp
qed

section \<open>Properties\<close>

text \<open>
  C16. No torn read: in every interleaving with the writer, a load that succeeds
  returns, word for word, the value of the last store completed at that moment,
  provided fewer than \<open>2 ^ 63\<close> stores complete during one attempt, which is what
  it takes for the 64-bit counter to come round.
\<close>

theorem seqlock_no_torn_read:
  assumes "seq_reachable n s" and "seq_step s (Loaded v) s'"
    and "length (history s) - sampled s < 2 ^ 63"
  shows "v = last (history s) \<and> history s' = history s"
  by (rule loaded_last [OF assms])

text \<open>A store followed by a load, step by step, on a slot of one word.\<close>

definition loaded_sys :: seq_sys where
  "loaded_sys =
     \<lparr>slot = \<lparr>sequence = 2, seq_words = [5]\<rparr>, wpc = WIdle, rpc = RCopy 0 2 [5],
      history = [[0], [5]], sampled = 2\<rparr>"

lemma loaded_reachable: "seq_reachable 1 loaded_sys"
proof -
  have step: "seq_reachable 1 s \<Longrightarrow> \<exists>e. seq_step s e s' \<Longrightarrow> seq_reachable 1 s'" for s s'
    by (blast intro: seq_reachable.step)
  have 0: "seq_reachable 1 (initial_seq 1)" by (rule seq_reachable.init)
  have 1: "seq_reachable 1 \<lparr>slot = \<lparr>sequence = 1, seq_words = [0]\<rparr>, wpc = WWords [5] 0, rpc = RIdle, history = [[0]], sampled = 0\<rparr>"
    by (rule step [OF 0]) (use write_begin [of "initial_seq 1" "[5]"] in \<open>auto simp: initial_seq_def new_seqlock_def mark_odd_def\<close>)
  have 2: "seq_reachable 1 \<lparr>slot = \<lparr>sequence = 1, seq_words = [5]\<rparr>, wpc = WWords [5] 1, rpc = RIdle, history = [[0]], sampled = 0\<rparr>"
    by (rule step [OF 1]) (use write_next [of "\<lparr>slot = \<lparr>sequence = 1, seq_words = [0]\<rparr>, wpc = WWords [5] 0, rpc = RIdle, history = [[0]], sampled = 0\<rparr>" "[5]" 0] in \<open>auto simp: write_word_def\<close>)
  have 3: "seq_reachable 1 \<lparr>slot = \<lparr>sequence = 2, seq_words = [5]\<rparr>, wpc = WIdle, rpc = RIdle, history = [[0], [5]], sampled = 0\<rparr>"
    by (rule step [OF 2]) (use write_end [of "\<lparr>slot = \<lparr>sequence = 1, seq_words = [5]\<rparr>, wpc = WWords [5] 1, rpc = RIdle, history = [[0]], sampled = 0\<rparr>" "[5]" 1] in \<open>auto simp: mark_even_def\<close>)
  have 4: "seq_reachable 1 \<lparr>slot = \<lparr>sequence = 2, seq_words = [5]\<rparr>, wpc = WIdle, rpc = RTry (Suc 0), history = [[0], [5]], sampled = 0\<rparr>"
    by (rule step [OF 3]) (use read_call [of "\<lparr>slot = \<lparr>sequence = 2, seq_words = [5]\<rparr>, wpc = WIdle, rpc = RIdle, history = [[0], [5]], sampled = 0\<rparr>" "Suc 0"] in auto)
  have 5: "seq_reachable 1 \<lparr>slot = \<lparr>sequence = 2, seq_words = [5]\<rparr>, wpc = WIdle, rpc = RCopy 0 2 [], history = [[0], [5]], sampled = 2\<rparr>"
    by (rule step [OF 4]) (use read_sample [of "\<lparr>slot = \<lparr>sequence = 2, seq_words = [5]\<rparr>, wpc = WIdle, rpc = RTry (Suc 0), history = [[0], [5]], sampled = 0\<rparr>" 0] in \<open>auto simp: numeral_2_eq_2\<close>)
  show ?thesis
    unfolding loaded_sys_def
    by (rule step [OF 5]) (use read_word [of "\<lparr>slot = \<lparr>sequence = 2, seq_words = [5]\<rparr>, wpc = WIdle, rpc = RCopy 0 2 [], history = [[0], [5]], sampled = 2\<rparr>" 0 2 "[]"] in auto)
qed

theorem seqlock_no_torn_read_witness:
  "seq_step loaded_sys (Loaded [5]) (loaded_sys\<lparr>rpc := RIdle\<rparr>) \<and> [5] = last (history loaded_sys)"
proof -
  have s: "seq_step loaded_sys (Loaded [5]) (loaded_sys\<lparr>rpc := RIdle\<rparr>)"
    using read_ok [of loaded_sys 0 2 "[5]"] by (simp add: loaded_sys_def)
  moreover have "length (history loaded_sys) - sampled loaded_sys < 2 ^ 63"
    by (simp add: loaded_sys_def)
  ultimately show ?thesis
    using seqlock_no_torn_read [OF loaded_reachable] by blast
qed

text \<open>
  A load is bounded: inside \<open>tryLoad\<close> the reader can always take a step, every
  step of its own lowers a bound that starts at one attempt's steps times the
  attempts plus one, and no step of the writer raises it, so a writer that died
  mid-store cannot hang it.
\<close>

theorem seqlock_load_bounded:
  assumes "seq_reachable n s" and "rpc s \<noteq> RIdle"
  shows "(\<exists>e s'. seq_step s e s' \<and> rrank n (rpc s') < rrank n (rpc s))
    \<and> (seq_step s e s' \<longrightarrow> rpc s' = rpc s \<or> rrank n (rpc s') < rrank n (rpc s))
    \<and> rrank n (RTry max_attempts) = max_attempts * (n + 2) + 1"
proof -
  have ok: "reader_ok n s" "length (seq_words (slot s)) = n"
    using reachable_ok [OF assms(1)] by (auto simp: writer_ok_def)
  show ?thesis
    using reader_enabled [OF assms(2) ok] reader_step_rank [of s e s' n] ok(2) assms(2) by auto
qed

theorem seqlock_load_bounded_witness:
  "\<exists>e s'. seq_step loaded_sys e s' \<and> rrank 1 (rpc s') < rrank 1 (rpc loaded_sys)"
proof -
  have "rpc loaded_sys \<noteq> RIdle" by (simp add: loaded_sys_def)
  from seqlock_load_bounded [OF loaded_reachable this] show ?thesis by blast
qed

text \<open>
  Round trip: after any stores of values of the slot's size, a load of a
  caller that meets no writer returns the last one on its first attempt; a slot
  whose writer stopped mid-store makes every load fail, whatever its bound, and
  says that a write is in progress.  The generation counts the stores.
\<close>

theorem seqlock_roundtrip:
  assumes "\<forall>v\<in>set vs. length v = n" and "vs \<noteq> []"
  shows "tryLoad (Suc k) (fold store vs (new_seqlock n)) = Some (last vs)
    \<and> tryLoad k (mark_odd (fold store vs (new_seqlock n))) = None
    \<and> writeInProgress (mark_odd (fold store vs (new_seqlock n)))
    \<and> (length vs < 2 ^ 63 \<longrightarrow> generation (fold store vs (new_seqlock n)) = of_nat (length vs))"
proof -
  let ?s = "fold store vs (new_seqlock n)"
  have s: "tryLoad (Suc k) ?s = Some (last vs)" "sequence ?s AND 1 = 0"
    using seqlock.put_many [of "new_seqlock n" vs k] assms by (simp_all add: new_seqlock_def del: tryLoad.simps)
  then have "(sequence ?s + 1) AND 1 \<noteq> 0"
    by (simp add: and_one_eq mod_2_eq_odd split: if_splits)
  then show ?thesis
    using s tryLoad_busy [of "mark_odd ?s" k] generation_counts [OF assms(1)]
    by (simp add: mark_odd_def writeInProgress_def del: tryLoad.simps)
qed

theorem seqlock_roundtrip_witness:
  "tryLoad 32 (fold store [[1, 2], [3, 4]] (new_seqlock 2)) = Some [3, 4]"
  using seqlock_roundtrip [of "[[1, 2], [3, 4]]" 2 31] by (simp del: tryLoad.simps fold_simps)

end
