(* ===== verification/Latency_Histogram.thy ===== *)
theory Latency_Histogram
  imports Float64 "HOL-Library.Multiset"
begin

text \<open>
  The latency histogram (\<open>include/safeedge/rt/latency_histogram.hpp\<close>,
  \<open>src/rt/latency_histogram.cpp\<close>): 64 exact buckets and 58 octaves of 32 sub-buckets
  over the 64-bit values.  Counters are 64-bit words, the running sum is a double,
  and \<open>percentile\<close> is \<open>None\<close> where the conversion of its rank is undefined in C++.
  The theory shows that the histogram is an abstraction of the multiset of samples
  and what its percentiles say about them.
\<close>

section \<open>Model\<close>

definition kSubBucketBits :: nat where
  "kSubBucketBits = 5"

definition kSubBucketCount :: u64 where
  "kSubBucketCount = push_bit kSubBucketBits 1"

definition kLinearLimit :: u64 where
  "kLinearLimit = kSubBucketCount * 2"

definition kOctaves :: nat where
  "kOctaves = 58"

definition kBucketCount :: nat where
  "kBucketCount = unat kLinearLimit + kOctaves * unat kSubBucketCount"

definition INT64_MAX :: int where
  "INT64_MAX = 2 ^ 63 - 1"

record LatencyHistogram =
  buckets :: "u64 list"
  hcount :: u64
  hsum :: double
  hmax :: int
  hmin :: int

definition new_LatencyHistogram :: LatencyHistogram where
  "new_LatencyHistogram =
     \<lparr>buckets = replicate kBucketCount 0, hcount = 0, hsum = Fin 0, hmax = 0, hmin = INT64_MAX\<rparr>"

text \<open>In the branch where it is used the exponent is at least six, so the shift is at least one.\<close>

definition bucketIndexFor :: "u64 \<Rightarrow> nat" where
  "bucketIndexFor value =
     (if value < kLinearLimit then unat value
      else
        let exponent = 63 - countl_zero value;
            shift = exponent - kSubBucketBits;
            sub = drop_bit shift value AND (kSubBucketCount - 1);
            octave = (of_nat (shift - 1) :: u64)
        in unat (kLinearLimit + octave * kSubBucketCount + sub))"

definition bucketUpperBound :: "nat \<Rightarrow> u64" where
  "bucketUpperBound index =
     (if index < unat kLinearLimit then of_nat index
      else
        let offset = (of_nat index - kLinearLimit :: u64);
            shift = unat (offset div kSubBucketCount + 1);
            sub = offset mod kSubBucketCount;
            lower = push_bit shift (kSubBucketCount + sub)
        in lower + push_bit shift 1 - 1)"

definition recordMany :: "LatencyHistogram \<Rightarrow> int \<Rightarrow> u64 \<Rightarrow> LatencyHistogram" where
  "recordMany h value n =
     (if n = 0 then h
      else
        let clamped = max value 0;
            index = bucketIndexFor (word_of_int clamped)
        in h\<lparr>buckets := (buckets h)[index := buckets h ! index + n],
             hcount := hcount h + n,
             hsum := dadd (hsum h) (dmul (double_of_int clamped) (double_of_int (uint n))),
             hmax := max (hmax h) clamped,
             hmin := min (hmin h) clamped\<rparr>)"

definition hrecord :: "LatencyHistogram \<Rightarrow> int \<Rightarrow> LatencyHistogram" where
  "hrecord h value = recordMany h value 1"

definition merge :: "LatencyHistogram \<Rightarrow> LatencyHistogram \<Rightarrow> LatencyHistogram" where
  "merge h other =
     (if hcount other = 0 then h
      else h\<lparr>buckets := map2 (+) (buckets h) (buckets other),
             hcount := hcount h + hcount other,
             hsum := dadd (hsum h) (hsum other),
             hmax := max (hmax h) (hmax other),
             hmin := min (hmin h) (hmin other)\<rparr>)"

definition hist_reset :: "LatencyHistogram \<Rightarrow> LatencyHistogram" where
  "hist_reset h =
     h\<lparr>buckets := replicate kBucketCount 0, hcount := 0, hsum := Fin 0, hmax := 0,
       hmin := INT64_MAX\<rparr>"

definition hist_min :: "LatencyHistogram \<Rightarrow> int" where
  "hist_min h = (if hcount h = 0 then 0 else hmin h)"

definition mean :: "LatencyHistogram \<Rightarrow> double" where
  "mean h = (if hcount h = 0 then Fin 0 else ddiv (hsum h) (double_of_int (uint (hcount h))))"

text \<open>The rank: rounded up, and clamped to the samples there are.\<close>

definition target_rank :: "LatencyHistogram \<Rightarrow> double \<Rightarrow> u64 option" where
  "target_rank h quantile =
     (let q = dclamp quantile (Fin 0) (Fin 1)
      in case double_to_u64 (dceil (dmul q (double_of_int (uint (hcount h))))) of
           None \<Rightarrow> None
         | Some t \<Rightarrow> Some (if t < 1 then 1 else if hcount h < t then hcount h else t))"

text \<open>The scan over the buckets, from bucket \<open>i\<close> with \<open>seen\<close> samples before it.\<close>

fun scan_buckets :: "u64 \<Rightarrow> nat \<Rightarrow> u64 \<Rightarrow> u64 list \<Rightarrow> nat option" where
  "scan_buckets target i seen [] = None"
| "scan_buckets target i seen (b # bs) =
     (let seen = seen + b
      in if seen \<ge> target then Some i else scan_buckets target (Suc i) seen bs)"

definition percentile :: "LatencyHistogram \<Rightarrow> double \<Rightarrow> int option" where
  "percentile h quantile =
     (if hcount h = 0 then Some 0
      else case target_rank h quantile of
             None \<Rightarrow> None
           | Some target \<Rightarrow>
               Some (case scan_buckets target 0 0 (buckets h) of
                       Some i \<Rightarrow> min (sint (bucketUpperBound i)) (hmax h)
                     | None \<Rightarrow> hmax h))"

definition p50 :: "LatencyHistogram \<Rightarrow> int option" where
  "p50 h = percentile h (fl (1 / 2))"

definition p90 :: "LatencyHistogram \<Rightarrow> int option" where
  "p90 h = percentile h (fl (9 / 10))"

definition p99 :: "LatencyHistogram \<Rightarrow> int option" where
  "p99 h = percentile h (fl (99 / 100))"

definition p999 :: "LatencyHistogram \<Rightarrow> int option" where
  "p999 h = percentile h (fl (999 / 1000))"

lemma bucket_constants [simp]:
  "kSubBucketCount = 32" "kLinearLimit = 64" "kBucketCount = 1920"
  by (simp_all add: kSubBucketCount_def kSubBucketBits_def kLinearLimit_def kBucketCount_def kOctaves_def)

section \<open>The bucket layout over the natural numbers\<close>

definition bshift :: "nat \<Rightarrow> nat" where
  "bshift v = nlog2 v - 5"

definition bidx :: "nat \<Rightarrow> nat" where
  "bidx v = 32 * bshift v + v div 2 ^ bshift v"

definition bub :: "nat \<Rightarrow> nat" where
  "bub i = (if i < 64 then i else (i mod 32 + 33) * 2 ^ (i div 32 - 1) - 1)"

lemma bshift_small: "v < 64 \<Longrightarrow> bshift v = 0"
proof (cases "v = 0")
  case False
  assume "v < 64"
  have "(2 :: nat) ^ nlog2 v < 2 ^ 6"
    using nlog2_bounds [of v] False \<open>v < 64\<close> by simp
  then have "nlog2 v < 6" by (simp only: power_strict_increasing_iff one_less_numeral_iff semiring_norm)
  then show ?thesis by (simp add: bshift_def)
qed (simp add: bshift_def nlog2.simps)

lemma bshift_large:
  assumes "64 \<le> v"
  shows "1 \<le> bshift v" and "32 \<le> v div 2 ^ bshift v" and "v div 2 ^ bshift v < 64"
    and "nlog2 v = bshift v + 5"
proof -
  have b: "2 ^ nlog2 v \<le> v" "v < 2 ^ Suc (nlog2 v)"
    using nlog2_bounds [of v] assms by auto
  have "(2 :: nat) ^ 6 < 2 ^ Suc (nlog2 v)" using b(2) assms by simp
  then have six: "6 \<le> nlog2 v"
    by (simp only: power_strict_increasing_iff one_less_numeral_iff semiring_norm less_Suc_eq_le)
  then show "1 \<le> bshift v" and e: "nlog2 v = bshift v + 5" by (simp_all add: bshift_def)
  have "32 * 2 ^ bshift v \<le> v" "v < 64 * 2 ^ bshift v"
    using b unfolding e by (simp_all add: power_add)
  then show "32 \<le> v div 2 ^ bshift v" "v div 2 ^ bshift v < 64"
    by (simp_all add: less_eq_div_iff_mult_less_eq div_less_iff_less_mult)
qed

lemma bidx_small: "v < 64 \<Longrightarrow> bidx v = v"
  by (simp add: bidx_def bshift_small)

lemma nlog2_mono: "0 < v \<Longrightarrow> v \<le> w \<Longrightarrow> nlog2 v \<le> nlog2 w"
proof -
  assume "0 < v" "v \<le> w"
  then have "(2 :: nat) ^ nlog2 v < 2 ^ Suc (nlog2 w)"
    using nlog2_bounds [of v] nlog2_bounds [of w] by linarith
  then show ?thesis
    by (simp only: power_strict_increasing_iff one_less_numeral_iff semiring_norm less_Suc_eq_le)
qed

lemma bidx_mono: "v \<le> w \<Longrightarrow> bidx v \<le> bidx w"
proof -
  assume vw: "v \<le> w"
  consider "w < 64" | "v < 64" "64 \<le> w" | "64 \<le> v" by linarith
  then show ?thesis
  proof cases
    case 1 then show ?thesis using vw by (simp add: bidx_small)
  next
    case 2 then show ?thesis using bshift_large [of w] by (simp add: bidx_def bshift_small)
  next
    case 3
    have "bshift v \<le> bshift w" using nlog2_mono [of v w] 3 vw by (simp add: bshift_def)
    then consider "bshift v = bshift w" | "bshift v + 1 \<le> bshift w" by linarith
    then show ?thesis
    proof cases
      case 1 then show ?thesis using vw by (simp add: bidx_def div_le_mono)
    next
      case 2 then show ?thesis
        using bshift_large(3) [of v] bshift_large(2) [of w] 3 vw by (simp add: bidx_def)
    qed
  qed
qed

lemma bidx_in_octave:
  assumes "32 \<le> m" and "m < 64" and "m * 2 ^ s \<le> v" and "v < (m + 1) * 2 ^ s" and "1 \<le> s"
  shows "bidx v = 32 * s + m"
proof -
  have p: "1 \<le> (2 :: nat) ^ s" by simp
  have "32 * 2 ^ s \<le> m * (2 :: nat) ^ s" "(m + 1) * (2 :: nat) ^ s \<le> 64 * 2 ^ s"
    using assms(1,2) by (intro mult_le_mono; simp)+
  then have "32 * 2 ^ s \<le> v" "v < 64 * 2 ^ s"
    using assms(3,4) by (meson order.trans order.strict_trans2)+
  then have "nlog2 v = s + 5"
    by (intro nlog2_unique) (simp_all add: power_add)
  moreover have "v div 2 ^ s = m"
    using assms(3,4) by (intro div_nat_eqI) (simp_all add: algebra_simps)
  ultimately show ?thesis by (simp add: bidx_def bshift_def)
qed

lemma bub_large:
  assumes "64 \<le> i"
  shows "bidx (bub i) = i" and "bidx (Suc (bub i)) = Suc i"
proof -
  define s where "s = i div 32 - 1"
  define m where "m = i mod 32 + 32"
  have "2 \<le> i div 32" using assms by simp
  then have i: "i = 32 * s + m" "1 \<le> s"
    unfolding s_def m_def by (simp_all, simp add: algebra_simps)
  have m: "32 \<le> m" "m < 64" by (simp_all add: m_def)
  have "1 \<le> (2 :: nat) ^ s" by simp
  have ub: "Suc (bub i) = (m + 1) * 2 ^ s"
    using assms by (simp add: bub_def m_def s_def)
  then show "bidx (bub i) = i"
    using bidx_in_octave [of m s "bub i"] m i \<open>1 \<le> 2 ^ s\<close> by (simp add: algebra_simps)
  show "bidx (Suc (bub i)) = Suc i"
  proof (cases "m + 1 < 64")
    case True
    then show ?thesis
      using bidx_in_octave [of "m + 1" s] m i ub by (simp add: algebra_simps)
  next
    case False
    then have "m = 63" using m by simp
    then show ?thesis
      using bidx_in_octave [of 32 "Suc s" "Suc (bub i)"] i ub by simp
  qed
qed

lemma bidx_le_iff: "bidx v \<le> i \<longleftrightarrow> v \<le> bub i"
proof -
  have at: "bidx (bub i) = i" "bidx (Suc (bub i)) = Suc i"
  proof -
    show "bidx (bub i) = i" by (cases "i < 64") (simp add: bub_def bidx_small, simp add: bub_large)
    show "bidx (Suc (bub i)) = Suc i"
    proof (cases "i < 63")
      case False
      then show ?thesis
        using bidx_in_octave [of 32 1 64] by (cases "i = 63") (simp_all add: bub_large, simp add: bub_def)
    qed (simp add: bub_def bidx_small)
  qed
  show ?thesis
    using bidx_mono [of v "bub i"] bidx_mono [of "Suc (bub i)" v] at by (cases "v \<le> bub i") auto
qed

section \<open>The machine layout\<close>

lemma bub_last: "bub 1919 = 2 ^ 64 - 1"
  by (simp add: bub_def)

lemma bidx_bound: "v < 2 ^ 64 \<Longrightarrow> bidx v < 1920"
  using bidx_le_iff [of v 1919] bub_last by simp

lemma bub_upper: "v \<le> bub (bidx v)"
  using bidx_le_iff [of v "bidx v"] by simp

lemma bidx_bub: "bidx (bub i) = i"
proof (rule antisym)
  show "bidx (bub i) \<le> i" by (simp add: bidx_le_iff)
  show "i \<le> bidx (bub i)"
    using bub_large(1) [of i] by (cases "i < 64") (simp_all add: bub_def bidx_small)
qed

text \<open>The relative precision: a bucket is no wider than a thirty-second of its values.\<close>

lemma bub_precision: "32 * (bub (bidx v) - v) \<le> v"
proof (cases "v < 64")
  case True
  then show ?thesis by (simp add: bidx_small bub_def)
next
  case False
  then have v: "64 \<le> v" by simp
  let ?s = "bshift v" and ?m = "v div 2 ^ bshift v"
  note b = bshift_large [OF v]
  have i: "bidx v = 32 * ?s + ?m" by (simp add: bidx_def)
  have "bidx v mod 32 = ?m - 32"
  proof -
    have "bidx v = 32 * (?s + 1) + (?m - 32)" using i b(2) by simp
    moreover have "?m - 32 < 32" using b(3) by simp
    ultimately show ?thesis by (metis mod_less mod_mult_self4)
  qed
  moreover have "bidx v div 32 = ?s + 1"
  proof -
    have "bidx v = (?m - 32) + (?s + 1) * 32" using i b(2) by simp
    moreover have "?m - 32 < 32" using b(3) by simp
    ultimately show ?thesis by simp
  qed
  ultimately have "bub (bidx v) = ?m * 2 ^ ?s + 2 ^ ?s - 1"
    using i b by (simp add: bub_def algebra_simps)
  moreover have "?m * 2 ^ ?s \<le> v" by simp
  ultimately have "bub (bidx v) - v \<le> 2 ^ ?s" by linarith
  moreover have "32 * 2 ^ ?s \<le> v"
    using b(2) by (simp add: less_eq_div_iff_mult_less_eq)
  ultimately show ?thesis by linarith
qed

lemma nlog2_u64: "v \<noteq> 0 \<Longrightarrow> nlog2 (unat v) \<le> 63" for v :: u64
proof -
  assume "v \<noteq> 0"
  then have "(2 :: nat) ^ nlog2 (unat v) < 2 ^ 64"
    using nlog2_bounds [of "unat v"] unsigned_less [of v, where 'a = nat]
    by (simp add: unat_gt_0)
  then have "nlog2 (unat v) < 64"
    by (simp only: power_strict_increasing_iff one_less_numeral_iff semiring_norm)
  then show ?thesis by simp
qed

lemma bucketIndexFor_bidx: "bucketIndexFor v = bidx (unat v)"
proof (cases "v < 64")
  case True
  then have "unat v < 64" by (simp add: word_less_nat_alt)
  with True show ?thesis by (simp add: bucketIndexFor_def bidx_small)
next
  case False
  then have v: "64 \<le> unat v" "v \<noteq> 0" by (auto simp: word_less_nat_alt)
  let ?s = "bshift (unat v)" and ?m = "unat v div 2 ^ bshift (unat v)"
  note b = bshift_large [OF v(1)]
  have shift: "63 - countl_zero v - 5 = ?s"
    using v(2) nlog2_u64 [OF v(2)] by (simp add: countl_zero_def bshift_def)
  have small: "bidx (unat v) < 1920"
    using unsigned_less [of v, where 'a = nat] by (intro bidx_bound) simp
  have "(31 :: u64) = mask 5" by (simp add: mask_eq_exp_minus_1)
  then have "drop_bit ?s v AND 31 = take_bit 5 (drop_bit ?s v)"
    by (simp add: take_bit_eq_mask)
  moreover have "unat (take_bit 5 (drop_bit ?s v)) = ?m mod 32"
  proof -
    have "unat (take_bit 5 (drop_bit ?s v)) = take_bit 5 (drop_bit ?s (take_bit LENGTH(64) (unat v)))"
      by (simp only: unsigned_take_bit_eq unsigned_drop_bit_eq)
    also have "\<dots> = ?m mod 32"
      using unsigned_less [of v, where 'a = nat] by (simp add: take_bit_eq_mod drop_bit_eq_div)
    finally show ?thesis .
  qed
  moreover have "?m mod 32 = ?m - 32" using b(2,3) by (simp add: mod_if)
  ultimately have sub: "drop_bit ?s v AND 31 = of_nat (?m - 32)"
    by (simp add: word_of_unat)
  have "64 + of_nat (?s - 1) * 32 + (drop_bit ?s v AND 31) = (of_nat (64 + (?s - 1) * 32 + (?m - 32)) :: u64)"
    unfolding sub by simp
  also have "64 + (?s - 1) * 32 + (?m - 32) = bidx (unat v)"
    using b by (simp add: bidx_def algebra_simps)
  finally have "unat (64 + of_nat (?s - 1) * 32 + (drop_bit ?s v AND 31)) = bidx (unat v)"
    using small by (simp add: unsigned_of_nat take_bit_nat_eq_self)
  moreover have "58 - countl_zero v = ?s" "57 - countl_zero v = ?s - 1"
    using shift by simp_all
  ultimately show ?thesis
    using False by (simp add: bucketIndexFor_def kSubBucketBits_def)
qed

lemma octave_word:
  "push_bit s (32 + of_nat m) + push_bit s 1 - 1 = (of_nat ((m + 33) * 2 ^ s - 1) :: u64)"
proof -
  have "push_bit s (32 + of_nat m) + push_bit s 1 = (of_nat ((m + 33) * 2 ^ s) :: u64)"
    by (simp add: push_bit_eq_mult distrib_right)
  moreover have "1 \<le> (m + 33) * 2 ^ s" by simp
  ultimately show ?thesis by (simp only: of_nat_diff of_nat_1)
qed

lemma offset_word:
  assumes "64 \<le> i" and "i < 1920"
  shows "unat ((of_nat i - 64 :: u64) div 32 + 1) = i div 32 - 1"
    and "(of_nat i - 64 :: u64) mod 32 = of_nat (i mod 32)"
proof -
  have off: "(of_nat i - 64 :: u64) = of_nat (i - 64)" using assms by (simp add: of_nat_diff)
  have u: "unat (of_nat (i - 64) :: u64) = i - 64"
    by (rule unat_of_nat_small) (use assms in simp)
  have "(of_nat (i - 64) :: u64) div 32 = of_nat ((i - 64) div 32)"
    by (rule word_of_unat) (simp add: unat_div_distrib u)
  then have d: "(of_nat (i - 64) :: u64) div 32 + 1 = of_nat (Suc ((i - 64) div 32))"
    by simp
  obtain j where j: "i = 64 + j" using assms(1) le_Suc_ex by blast
  have s: "Suc ((i - 64) div 32) = i div 32 - 1" by (simp add: j)
  have "i div 32 < 60" using assms by simp
  then show "unat ((of_nat i - 64 :: u64) div 32 + 1) = i div 32 - 1"
    unfolding off d s by (simp add: unsigned_of_nat take_bit_nat_eq_self)
  have "(i - 64) mod 32 = i mod 32"
    using mod_mult_self1 [of j 2 32] by (simp add: j add.commute)
  then show "(of_nat i - 64 :: u64) mod 32 = of_nat (i mod 32)"
    unfolding off by (intro word_of_unat) (simp add: unat_mod_distrib u)
qed

lemma bucketUpperBound_bub: "i < 1920 \<Longrightarrow> unat (bucketUpperBound i) = bub i"
proof (cases "i < 64")
  case True
  then show ?thesis
    by (simp add: bucketUpperBound_def bub_def unsigned_of_nat take_bit_nat_eq_self)
next
  case False
  assume i: "i < 1920"
  have w: "bucketUpperBound i = of_nat (bub i)"
    using False offset_word [of i] i octave_word [of "i div 32 - 1" "i mod 32"]
    by (simp add: bucketUpperBound_def bub_def Let_def del: of_nat_diff)
  have "bub i \<le> bub 1919"
    using bidx_le_iff [of "bub i" 1919] i by (simp add: bidx_bub)
  then have "bub i < 2 ^ 64" using bub_last by simp
  then show ?thesis
    unfolding w by (simp add: unsigned_of_nat take_bit_nat_eq_self)
qed

section \<open>The histogram as a multiset of samples\<close>

text \<open>Samples are clamped to be non-negative, as \<open>recordMany\<close> does.\<close>

definition in_bucket :: "nat \<Rightarrow> int multiset \<Rightarrow> nat" where
  "in_bucket i M = size (filter_mset (\<lambda>x. bidx (nat x) = i) M)"

definition hist_rep :: "LatencyHistogram \<Rightarrow> int multiset \<Rightarrow> bool" where
  "hist_rep h M \<longleftrightarrow>
     buckets h = map (\<lambda>i. of_nat (in_bucket i M)) [0..<1920] \<and>
     hcount h = of_nat (size M) \<and> size M < 2 ^ 64 \<and>
     (\<forall>x\<in>#M. 0 \<le> x \<and> x \<le> INT64_MAX) \<and>
     hmax h = Max (insert 0 (set_mset M)) \<and> hmin h = Min (insert INT64_MAX (set_mset M))"

lemma in_bucket_simps [simp]:
  "in_bucket i {#} = 0"
  "in_bucket i (M + N) = in_bucket i M + in_bucket i N"
  by (simp_all add: in_bucket_def)

lemma in_bucket_replicate [simp]:
  "in_bucket i (replicate_mset n x) = (if bidx (nat x) = i then n else 0)"
  by (induction n) (simp_all add: in_bucket_def)

lemma hist_rep_new: "hist_rep new_LatencyHistogram {#}"
  by (simp add: hist_rep_def new_LatencyHistogram_def map_replicate_const INT64_MAX_def
      del: upt_rec_numeral)

lemma hist_rep_reset: "hist_rep (hist_reset h) {#}"
  by (simp add: hist_rep_def hist_reset_def map_replicate_const INT64_MAX_def del: upt_rec_numeral)

lemma Max_insert_union:
  "finite A \<Longrightarrow> finite B \<Longrightarrow> Max (insert a (A \<union> B)) = max (Max (insert a A)) (Max (insert a B))" for a :: int
  using Max_Un [of "insert a A" "insert a B"] by (simp add: insert_absorb2)

lemma Min_insert_union:
  "finite A \<Longrightarrow> finite B \<Longrightarrow> Min (insert a (A \<union> B)) = min (Min (insert a A)) (Min (insert a B))" for a :: int
  using Min_Un [of "insert a A" "insert a B"] by (simp add: insert_absorb2)

lemma hist_rep_recordMany:
  assumes rep: "hist_rep h M" and "v \<le> INT64_MAX" and "size M + unat n < 2 ^ 64"
  shows "hist_rep (recordMany h v n) (M + replicate_mset (unat n) (max v 0))"
proof (cases "n = 0")
  case True
  then show ?thesis using rep by (simp add: recordMany_def)
next
  case False
  let ?c = "max v 0"
  have c: "0 \<le> ?c" "?c \<le> INT64_MAX" using assms(2) by (auto simp: INT64_MAX_def)
  then have "unat (word_of_int ?c :: u64) = nat ?c"
    by (simp add: INT64_MAX_def unat_eq_nat_uint uint_word_of_int_eq take_bit_int_eq_self)
  then have idx: "bucketIndexFor (word_of_int ?c) = bidx (nat ?c)"
    by (simp add: bucketIndexFor_bidx)
  have lt: "bidx (nat ?c) < 1920"
    using c by (intro bidx_bound) (simp add: INT64_MAX_def nat_less_iff)
  have n: "(of_nat (unat n) :: u64) = n" by simp
  have pos: "unat n \<noteq> 0" using False by (simp add: unat_eq_zero)
  have b: "(buckets h)[bidx (nat ?c) := buckets h ! bidx (nat ?c) + n]
      = map (\<lambda>i. of_nat (in_bucket i (M + replicate_mset (unat n) ?c))) [0..<1920]"
    using rep lt by (intro nth_equalityI) (auto simp: hist_rep_def nth_list_update simp del: upt_rec_numeral)
  have s: "set_mset (M + replicate_mset (unat n) ?c) = set_mset M \<union> {?c}"
    using pos by simp
  have mx: "max (hmax h) ?c = Max (insert 0 (set_mset (M + replicate_mset (unat n) ?c)))"
    using rep c by (simp only: s Max_insert_union finite_set_mset finite.intros) (simp add: hist_rep_def)
  have mn: "min (hmin h) ?c = Min (insert INT64_MAX (set_mset (M + replicate_mset (unat n) ?c)))"
    using rep c by (simp only: s Min_insert_union finite_set_mset finite.intros) (simp add: hist_rep_def min_absorb2 [OF c(2)])
  show ?thesis
    using rep False b mx mn assms(3) c pos idx
    by (auto simp: hist_rep_def recordMany_def Let_def simp del: upt_rec_numeral)
qed

lemma hist_rep_record:
  "hist_rep h M \<Longrightarrow> v \<le> INT64_MAX \<Longrightarrow> size M + 1 < 2 ^ 64 \<Longrightarrow> hist_rep (hrecord h v) (add_mset (max v 0) M)"
  using hist_rep_recordMany [of h M v 1] by (simp add: hrecord_def)

lemma hist_rep_merge:
  assumes "hist_rep h M" and "hist_rep k N" and "size M + size N < 2 ^ 64"
  shows "hist_rep (merge h k) (M + N)"
proof (cases "hcount k = 0")
  case True
  then have "size N = 0"
    using assms(2) unat_of_nat_small [of "size N", where 'a = 64] by (auto simp: hist_rep_def)
  then show ?thesis using assms(1) True by (simp add: merge_def)
next
  case False
  have "map2 (+) (buckets h) (buckets k) = map (\<lambda>i. of_nat (in_bucket i (M + N))) [0..<1920]"
    using assms(1,2) by (intro nth_equalityI) (auto simp: hist_rep_def simp del: upt_rec_numeral)
  moreover have "max (hmax h) (hmax k) = Max (insert 0 (set_mset (M + N)))"
    "min (hmin h) (hmin k) = Min (insert INT64_MAX (set_mset (M + N)))"
    using assms(1,2) Max_insert_union [of "set_mset M" "set_mset N" 0]
      Min_insert_union [of "set_mset M" "set_mset N" INT64_MAX] by (auto simp: hist_rep_def)
  ultimately show ?thesis
    using False assms by (auto simp: hist_rep_def merge_def simp del: upt_rec_numeral)
qed

section \<open>The contract of a sample store\<close>

text \<open>
  What a component that feeds samples relies on: a store represents the multiset
  of the samples it was given, clamped from below by zero.
\<close>

locale sample_store =
  fixes empty_store :: 'h
    and put :: "'h \<Rightarrow> int \<Rightarrow> 'h"
    and contents :: "'h \<Rightarrow> int multiset \<Rightarrow> bool"
  assumes empty: "contents empty_store {#}"
    and put: "contents h M \<Longrightarrow> v \<le> INT64_MAX \<Longrightarrow> size M + 1 < 2 ^ 64 \<Longrightarrow> contents (put h v) (add_mset (max v 0) M)"
begin

lemma put_all:
  "contents h M \<Longrightarrow> \<forall>v\<in>set vs. v \<le> INT64_MAX \<Longrightarrow> size M + length vs < 2 ^ 64 \<Longrightarrow>
   contents (foldl put h vs) (M + mset (map (\<lambda>v. max v 0) vs))"
proof (induction vs arbitrary: h M)
  case (Cons v vs)
  then have "contents (put h v) (add_mset (max v 0) M)"
    by (intro put) simp_all
  then show ?case
    using Cons.IH [of "put h v" "add_mset (max v 0) M"] Cons.prems by simp
qed simp

lemma put_all_empty:
  "\<forall>v\<in>set vs. v \<le> INT64_MAX \<Longrightarrow> length vs < 2 ^ 64 \<Longrightarrow>
   contents (foldl put empty_store vs) (mset (map (\<lambda>v. max v 0) vs))"
  using put_all [OF empty, of vs] by simp

end

interpretation hist: sample_store new_LatencyHistogram hrecord hist_rep
  by unfold_locales (fact hist_rep_new hist_rep_record)+

section \<open>Percentiles\<close>

lemma size_filter_disjoint:
  "(\<And>x. \<not> (P x \<and> Q x)) \<Longrightarrow>
   size (filter_mset (\<lambda>x. P x \<or> Q x) M) = size (filter_mset P M) + size (filter_mset Q M)"
  by (induction M) auto

lemma sum_in_bucket:
  "sum_list (map (\<lambda>i. in_bucket i M) [0..<k]) = size (filter_mset (\<lambda>x. bidx (nat x) < k) M)"
proof (induction k)
  case (Suc k)
  have "size (filter_mset (\<lambda>x. bidx (nat x) < k \<or> bidx (nat x) = k) M)
      = size (filter_mset (\<lambda>x. bidx (nat x) < k) M) + in_bucket k M"
    unfolding in_bucket_def by (rule size_filter_disjoint) simp
  with Suc show ?case by (simp add: less_Suc_eq)
qed simp

lemma scan_finds:
  "S < T \<Longrightarrow> T \<le> S + sum_list ns \<Longrightarrow> S + sum_list ns < 2 ^ 64 \<Longrightarrow>
   \<exists>k<length ns. scan_buckets (of_nat T) i (of_nat S) (map of_nat ns) = Some (i + k) \<and>
     S + sum_list (take k ns) < T \<and> T \<le> S + sum_list (take (Suc k) ns)"
proof (induction ns arbitrary: i S)
  case (Cons n ns)
  have cmp: "(of_nat T :: u64) \<le> of_nat S + of_nat n \<longleftrightarrow> T \<le> S + n"
  proof -
    have "unat (of_nat T :: u64) = T"
      by (rule unat_of_nat_small) (use Cons.prems in simp)
    moreover have "unat (of_nat (S + n) :: u64) = S + n"
      by (rule unat_of_nat_small) (use Cons.prems in simp)
    ultimately show ?thesis by (simp add: word_le_nat_alt)
  qed
  show ?case
  proof (cases "T \<le> S + n")
    case True
    then show ?thesis using Cons.prems cmp by (intro exI [of _ 0]) simp
  next
    case False
    then obtain k where "k < length ns"
      "scan_buckets (of_nat T) (Suc i) (of_nat (S + n)) (map of_nat ns) = Some (Suc i + k)"
      "S + n + sum_list (take k ns) < T" "T \<le> S + n + sum_list (take (Suc k) ns)"
      using Cons.IH [of "S + n" "Suc i"] Cons.prems by auto
    then show ?thesis using False cmp by (intro exI [of _ "Suc k"]) simp
  qed
qed simp

lemma sorted_nth_le:
  "sorted xs \<Longrightarrow> k < length xs \<Longrightarrow> xs ! k \<le> b \<longleftrightarrow> k < length (filter (\<lambda>x. x \<le> b) xs)" for b :: int
proof (induction xs arbitrary: k)
  case (Cons x xs)
  show ?case
  proof (cases "x \<le> b")
    case True
    then show ?thesis using Cons by (cases k) auto
  next
    case False
    then have "\<forall>y\<in>set (x # xs). \<not> y \<le> b" using Cons.prems(1) by auto
    moreover have "(x # xs) ! k \<in> set (x # xs)" using Cons.prems(2) by (rule nth_mem)
    ultimately have "\<not> (x # xs) ! k \<le> b" "filter (\<lambda>x. x \<le> b) (x # xs) = []"
      by (blast, simp add: filter_empty_conv)
    then show ?thesis by simp
  qed
qed simp

definition ranked :: "int multiset \<Rightarrow> nat \<Rightarrow> int" where
  "ranked M t = sorted_list_of_multiset M ! (t - 1)"

lemma ranked_le:
  assumes "1 \<le> t" and "t \<le> size M"
  shows "ranked M t \<le> b \<longleftrightarrow> t \<le> size (filter_mset (\<lambda>x. x \<le> b) M)"
proof -
  let ?xs = "sorted_list_of_multiset M"
  have "length ?xs = size M" by (metis mset_sorted_list_of_multiset size_mset)
  moreover have "length (filter (\<lambda>x. x \<le> b) ?xs) = size (filter_mset (\<lambda>x. x \<le> b) M)"
    by (metis mset_filter mset_sorted_list_of_multiset size_mset)
  ultimately show ?thesis
    using sorted_nth_le [of ?xs "t - 1" b] assms by (auto simp: ranked_def)
qed

lemma ranked_mem: "1 \<le> t \<Longrightarrow> t \<le> size M \<Longrightarrow> ranked M t \<in># M"
proof -
  assume "1 \<le> t" "t \<le> size M"
  moreover have "length (sorted_list_of_multiset M) = size M"
    by (metis mset_sorted_list_of_multiset size_mset)
  ultimately have "ranked M t \<in> set (sorted_list_of_multiset M)"
    unfolding ranked_def by (intro nth_mem) simp
  then show ?thesis by (simp only: set_sorted_list_of_multiset)
qed

text \<open>The bucket the scan stops at is the bucket of the sample of that rank.\<close>

lemma scan_ranked:
  assumes rep: "hist_rep h M" and t: "1 \<le> t" "t \<le> size M"
  shows "scan_buckets (of_nat t) 0 0 (buckets h) = Some (bidx (nat (ranked M t)))"
proof -
  let ?ns = "map (\<lambda>i. in_bucket i M) [0..<1920]"
  have all: "size (filter_mset (\<lambda>x. bidx (nat x) < 1920) M) = size M"
  proof -
    have "\<forall>x\<in>#M. bidx (nat x) < 1920"
      using rep by (auto simp: hist_rep_def INT64_MAX_def nat_less_iff intro!: bidx_bound)
    then have "filter_mset (\<lambda>x. bidx (nat x) < 1920) M = M"
      by (simp add: filter_mset_eq_conv)
    then show ?thesis by simp
  qed
  have total: "sum_list ?ns = size M" using all by (simp only: sum_in_bucket)
  have b: "buckets h = map of_nat ?ns" using rep by (simp add: hist_rep_def o_def del: upt_rec_numeral)
  obtain k where k: "k < 1920" "scan_buckets (of_nat t) 0 0 (buckets h) = Some k"
      "sum_list (take k ?ns) < t" "t \<le> sum_list (take (Suc k) ?ns)"
    using scan_finds [of 0 t ?ns 0] t total rep unfolding b
    by (auto simp: hist_rep_def simp del: upt_rec_numeral)
  have cum: "sum_list (take j ?ns) = size (filter_mset (\<lambda>x. bidx (nat x) < j) M)" if "j \<le> 1920" for j
    using that by (simp only: take_map take_upt add_0 sum_in_bucket)
  have pos: "\<forall>x\<in>#M. 0 \<le> x" using rep by (simp add: hist_rep_def)
  have below: "filter_mset (\<lambda>x. bidx (nat x) < Suc j) M = filter_mset (\<lambda>x. x \<le> int (bub j)) M" for j
    using pos by (intro filter_mset_cong) (auto simp: less_Suc_eq_le bidx_le_iff nat_le_iff)
  have "ranked M t \<le> int (bub k)"
    using k(1,4) t by (simp only: ranked_le cum [of "Suc k"] below)
  then have "bidx (nat (ranked M t)) \<le> k" by (simp add: bidx_le_iff nat_le_iff)
  moreover have "k \<le> bidx (nat (ranked M t))"
  proof (cases k)
    case (Suc j)
    have "sum_list (take k ?ns) = size (filter_mset (\<lambda>x. x \<le> int (bub j)) M)"
      using cum [of k] k(1) by (simp only: Suc below less_imp_le)
    then have "\<not> ranked M t \<le> int (bub j)"
      using k(3) t by (simp only: ranked_le not_le)
    moreover have "0 \<le> ranked M t" using pos ranked_mem [OF t] by blast
    ultimately have "\<not> bidx (nat (ranked M t)) \<le> j" by (auto simp: bidx_le_iff nat_le_iff)
    then show ?thesis using Suc by simp
  qed simp
  ultimately show ?thesis using k(2) by simp
qed

lemma target_rank_bounds:
  assumes "hist_rep h M" and "M \<noteq> {#}" and "target_rank h q = Some t"
  shows "1 \<le> unat t" and "unat t \<le> size M"
proof -
  have c: "unat (hcount h) = size M"
    using assms(1) unat_of_nat_small [of "size M", where 'a = 64] by (simp add: hist_rep_def)
  have "1 \<le> hcount h"
    using c assms(2) nonempty_has_size [of M] by (simp add: word_le_nat_alt Suc_le_eq)
  moreover obtain u where "t = (if u < 1 then 1 else if hcount h < u then hcount h else u)"
    using assms(3) by (auto simp: target_rank_def Let_def split: option.splits)
  ultimately have "1 \<le> t" "t \<le> hcount h"
    by (metis linorder_not_less order.refl order.strict_implies_order)+
  then show "1 \<le> unat t" "unat t \<le> size M"
    using c by (simp_all add: word_le_nat_alt)
qed

lemma percentile_value:
  assumes rep: "hist_rep h M" and ne: "M \<noteq> {#}" and t: "target_rank h q = Some t"
  shows "percentile h q = Some (min (int (bub (bidx (nat (ranked M (unat t)))))) (Max (set_mset M)))"
proof -
  note b = target_rank_bounds [OF assms]
  let ?s = "ranked M (unat t)"
  have count: "hcount h \<noteq> 0"
  proof -
    have "unat (hcount h) = size M"
      using rep unat_of_nat_small [of "size M", where 'a = 64] by (simp add: hist_rep_def)
    then show ?thesis using ne by auto
  qed
  have s: "0 \<le> ?s" "?s \<le> INT64_MAX" using ranked_mem [OF b] rep by (auto simp: hist_rep_def)
  have "bub (bidx (nat ?s)) < 2 ^ 63"
  proof -
    have "bidx (2 ^ 63 - 1) = 1887" using bidx_in_octave [of 63 57 "2 ^ 63 - 1"] by simp
    moreover have "nat ?s \<le> 2 ^ 63 - 1" using s by (simp add: INT64_MAX_def nat_le_iff)
    ultimately have "bidx (nat ?s) \<le> 1887" using bidx_mono by metis
    then have "bidx (bub (bidx (nat ?s))) \<le> 1887" by (simp add: bidx_bub)
    then have "bub (bidx (nat ?s)) \<le> bub 1887" by (simp add: bidx_le_iff)
    then show ?thesis by (simp add: bub_def)
  qed
  moreover have i: "bidx (nat ?s) < 1920"
    using s by (intro bidx_bound) (simp add: INT64_MAX_def nat_less_iff)
  ultimately have ub: "sint (bucketUpperBound (bidx (nat ?s))) = int (bub (bidx (nat ?s)))"
    using word_of_unat [OF bucketUpperBound_bub [OF i]]
    by (simp add: signed_of_nat signed_take_bit_int_eq_self)
  have mx: "hmax h = Max (set_mset M)"
  proof -
    have "Max (insert 0 (set_mset M)) = max 0 (Max (set_mset M))" using ne by simp
    moreover have "0 \<le> Max (set_mset M)"
      using ranked_mem [OF b] s(1) Max_ge [OF finite_set_mset] by (meson order.trans)
    ultimately show ?thesis using rep by (simp add: hist_rep_def)
  qed
  have "scan_buckets t 0 0 (buckets h) = Some (bidx (nat ?s))"
    using scan_ranked [OF rep b] by simp
  then show ?thesis
    using count t ub mx by (simp add: percentile_def)
qed

text \<open>The rank is defined for every quantile that is a number and every realistic count.\<close>

lemma rounded_two_pow_63: "rounded (2 ^ 63) = 2 ^ 63"
proof (rule rounded_integer_multiple [of _ "2 ^ 52"])
  have "ilog2 (2 ^ 63) = 63" by (rule ilog2_unique) simp_all
  then show "(2 ^ 63 :: rat) = of_int (2 ^ 52) * ulp_of (2 ^ 63)"
    by (simp add: ulp_of_def)
qed

lemma fl_bounded: "0 \<le> x \<Longrightarrow> x \<le> 2 ^ 63 \<Longrightarrow> fl x = Fin (rounded x) \<and> 0 \<le> rounded x \<and> rounded x \<le> 2 ^ 63"
proof -
  assume x: "0 \<le> x" "x \<le> 2 ^ 63"
  then have "0 \<le> rounded x" "rounded x \<le> 2 ^ 63"
    using rounded_nonneg [of x] rounded_mono [of x "2 ^ 63"] by (simp_all only: rounded_two_pow_63)
  moreover have "(2 :: rat) ^ 63 < 2 ^ 1024" by (rule power_strict_increasing) simp_all
  ultimately show ?thesis by (auto simp: fl_def Let_def)
qed

definition quantile_of :: "double \<Rightarrow> rat" where
  "quantile_of q = (case dclamp q (Fin 0) (Fin 1) of Fin a \<Rightarrow> a | _ \<Rightarrow> 0)"

lemma dclamp_unit:
  "q \<noteq> NaN \<Longrightarrow> dclamp q (Fin 0) (Fin 1) = Fin (quantile_of q) \<and> 0 \<le> quantile_of q \<and> quantile_of q \<le> 1"
  by (cases q) (auto simp: dclamp_def quantile_of_def)

lemma quantile_of_mono: "dle q q' \<Longrightarrow> quantile_of q \<le> quantile_of q'"
  by (cases q; cases q') (auto simp: dclamp_def quantile_of_def)

lemma dle_not_nan: "dle q q' \<Longrightarrow> q \<noteq> NaN \<and> q' \<noteq> NaN"
  by (cases q; cases q') auto

text \<open>The product the rank is rounded up from.\<close>

definition rank_product :: "nat \<Rightarrow> double \<Rightarrow> rat" where
  "rank_product n q = rounded (quantile_of q * rounded (of_nat n))"

lemma rank_product_bounds:
  assumes "n \<le> 2 ^ 63" and "q \<noteq> NaN"
  shows "dmul (dclamp q (Fin 0) (Fin 1)) (double_of_int (int n)) = Fin (rank_product n q)"
    and "0 \<le> rank_product n q" and "rank_product n q \<le> 2 ^ 63"
proof -
  have "(of_nat n :: rat) \<le> of_nat (2 ^ 63)" using assms(1) by (simp only: of_nat_le_iff)
  then have n: "fl (of_nat n) = Fin (rounded (of_nat n))" "0 \<le> rounded (of_nat n)" "rounded (of_nat n) \<le> 2 ^ 63"
    using fl_bounded [of "of_nat n"] by simp_all
  note q = dclamp_unit [OF assms(2)]
  have "quantile_of q * rounded (of_nat n) \<le> 1 * 2 ^ 63"
    using q n by (intro mult_mono) simp_all
  moreover have "0 \<le> quantile_of q * rounded (of_nat n)" using q n by simp
  ultimately have p: "fl (quantile_of q * rounded (of_nat n)) = Fin (rank_product n q)"
    "0 \<le> rank_product n q" "rank_product n q \<le> 2 ^ 63"
    using fl_bounded [of "quantile_of q * rounded (of_nat n)"] by (simp_all add: rank_product_def)
  then show "dmul (dclamp q (Fin 0) (Fin 1)) (double_of_int (int n)) = Fin (rank_product n q)"
    using q n(1) by (simp add: double_of_int_def)
  show "0 \<le> rank_product n q" "rank_product n q \<le> 2 ^ 63" using p by simp_all
qed

lemma target_rank_value:
  assumes rep: "hist_rep h M" and n: "size M \<le> 2 ^ 63" and q: "q \<noteq> NaN"
  shows "target_rank h q = Some (of_nat (if \<lceil>rank_product (size M) q\<rceil> < 1 then 1
           else if int (size M) < \<lceil>rank_product (size M) q\<rceil> then size M else nat \<lceil>rank_product (size M) q\<rceil>))"
proof -
  let ?p = "rank_product (size M) q"
  note b = rank_product_bounds [OF n q]
  have c: "0 \<le> \<lceil>?p\<rceil>" "\<lceil>?p\<rceil> \<le> 2 ^ 63"
    using b(2,3) by (simp_all add: ceiling_le_iff)
  obtain k where k: "\<lceil>?p\<rceil> = int k" "k \<le> 2 ^ 63"
    using c nonneg_int_cases [of "\<lceil>?p\<rceil>"] by (metis of_nat_le_iff of_nat_numeral of_nat_power)
  have count: "hcount h = of_nat (size M)" using rep by (simp add: hist_rep_def)
  have u: "unat (of_nat (size M) :: u64) = size M" "unat (of_nat k :: u64) = k"
    using n k(2) by (auto intro!: unat_of_nat_small)
  have "uint (hcount h) = int (size M)" using u(1) count by (metis uint_nat)
  then have "double_to_u64 (dceil (dmul (dclamp q (Fin 0) (Fin 1)) (double_of_int (uint (hcount h))))) = Some (of_nat k)"
    using b(1) k by simp
  moreover have "(of_nat k :: u64) < 1 \<longleftrightarrow> k < 1" "(of_nat (size M) :: u64) < of_nat k \<longleftrightarrow> size M < k"
    using u by (simp_all only: word_less_nat_alt unat_1)
  ultimately show ?thesis
    using count k(1) by (simp add: target_rank_def Let_def)
qed

lemma ranked_mono: "1 \<le> t \<Longrightarrow> t \<le> t' \<Longrightarrow> t' \<le> size M \<Longrightarrow> ranked M t \<le> ranked M t'"
  using ranked_le [of t M "ranked M t'"] ranked_le [of t' M "ranked M t'"] by simp

lemma bub_mono: "v \<le> w \<Longrightarrow> bub (bidx v) \<le> bub (bidx w)"
  using bidx_mono [of v w] bidx_le_iff [of "bub (bidx v)" "bidx w"] by (simp add: bidx_bub)

section \<open>Properties\<close>

text \<open>
  The layout is sound: every 64-bit value has a bucket inside the array, lies
  at or below that bucket's upper bound and above the previous one's, the bound
  exceeds it by at most a thirty-second, and bounds are values of their own bucket.
\<close>

theorem bucket_layout:
  "bucketIndexFor v < kBucketCount
   \<and> unat v \<le> unat (bucketUpperBound (bucketIndexFor v))
   \<and> 32 * (unat (bucketUpperBound (bucketIndexFor v)) - unat v) \<le> unat v
   \<and> (bucketIndexFor v = 0 \<or> unat (bucketUpperBound (bucketIndexFor v - 1)) < unat v)
   \<and> bucketIndexFor (bucketUpperBound (bucketIndexFor v)) = bucketIndexFor v"
proof -
  have v: "bidx (unat v) < 1920"
    using unsigned_less [of v, where 'a = nat] by (intro bidx_bound) simp
  note ub = bucketUpperBound_bub [OF v]
  have "unat (bucketUpperBound (bidx (unat v) - 1)) < unat v" if "bidx (unat v) \<noteq> 0"
    using bucketUpperBound_bub [of "bidx (unat v) - 1"] v that bidx_le_iff [of "unat v" "bidx (unat v) - 1"]
    by auto
  then show ?thesis
    using v ub bub_upper [of "unat v"] bub_precision [of "unat v"]
    by (auto simp: bucketIndexFor_bidx bidx_bub)
qed

text \<open>
  C26. What a percentile means: the reported value is at least the sample of the
  computed rank, at most the largest sample, and exceeds the ranked sample by at
  most a thirty-second of it.
\<close>

theorem percentile_sound:
  assumes "hist_rep h M" and "M \<noteq> {#}" and "target_rank h q = Some t"
  shows "\<exists>p. percentile h q = Some p \<and> 1 \<le> unat t \<and> unat t \<le> size M
    \<and> ranked M (unat t) \<le> p \<and> p \<le> Max (set_mset M) \<and> 32 * (p - ranked M (unat t)) \<le> ranked M (unat t)"
proof -
  note b = target_rank_bounds [OF assms]
  let ?s = "ranked M (unat t)"
  have s: "0 \<le> ?s" "?s \<le> Max (set_mset M)"
    using ranked_mem [OF b] assms(1) by (auto simp: hist_rep_def)
  have "?s \<le> int (bub (bidx (nat ?s)))" using bub_upper [of "nat ?s"] s(1) by linarith
  moreover have "32 * (int (bub (bidx (nat ?s))) - ?s) \<le> ?s"
    using bub_precision [of "nat ?s"] bub_upper [of "nat ?s"] s(1)
    by (simp add: of_nat_diff nat_le_iff flip: of_nat_le_iff [where 'a = int])
  ultimately show ?thesis
    using percentile_value [OF assms] b s by (auto simp: min_def)
qed

text \<open>One recorded sample, as evidence that the hypotheses can be met.\<close>

lemma one_sample: "hist_rep (hrecord new_LatencyHistogram 100) {#100#}"
  using hist_rep_record [OF hist_rep_new, of 100] by (simp add: INT64_MAX_def)

lemma one_sample_rank: "target_rank (hrecord new_LatencyHistogram 100) (Fin 1) = Some 1"
proof -
  have "rounded 1 = 1" using rounded_small_int [of 1] by simp
  then have "rank_product 1 (Fin 1) = 1"
    by (simp add: rank_product_def quantile_of_def dclamp_def)
  then show ?thesis using target_rank_value [OF one_sample, of "Fin 1"] by simp
qed

theorem percentile_sound_witness:
  "\<exists>p. percentile (hrecord new_LatencyHistogram 100) (Fin 1) = Some p \<and> p = 100"
  using percentile_sound [OF one_sample _ one_sample_rank] by (auto simp: ranked_def)

text \<open>
  Percentiles are always defined for quantiles that are numbers (anything is
  accepted and clamped to the unit interval) and grow with the quantile.
\<close>

theorem percentile_monotone:
  assumes "hist_rep h M" and "size M \<le> 2 ^ 63" and "dle q q'"
  shows "\<exists>p p'. percentile h q = Some p \<and> percentile h q' = Some p' \<and> p \<le> p'"
proof (cases "M = {#}")
  case True
  then show ?thesis using assms(1) by (simp add: percentile_def hist_rep_def)
next
  case False
  define C where "C = (\<lambda>q. \<lceil>rank_product (size M) q\<rceil>)"
  define T where "T = (\<lambda>q. if C q < 1 then 1 else if int (size M) < C q then size M else nat (C q))"
  have nan: "q \<noteq> NaN" "q' \<noteq> NaN" using dle_not_nan [OF assms(3)] by simp_all
  have t: "target_rank h q = Some (of_nat (T q))" "target_rank h q' = Some (of_nat (T q'))"
    unfolding T_def C_def using target_rank_value [OF assms(1,2)] nan by blast+
  have size: "1 \<le> size M" using False by (simp add: Suc_le_eq nonempty_has_size)
  have T: "1 \<le> T q" "T q' \<le> size M" "T q \<le> size M"
    using size by (auto simp: T_def nat_le_iff)
  have u: "unat (of_nat (T q) :: u64) = T q" "unat (of_nat (T q') :: u64) = T q'"
    using T assms(2) by (auto intro!: unat_of_nat_small)
  have "0 \<le> rounded (of_nat (size M))" by (rule rounded_nonneg) simp
  then have "rank_product (size M) q \<le> rank_product (size M) q'"
    unfolding rank_product_def
    by (intro rounded_mono mult_right_mono quantile_of_mono [OF assms(3)])
  then have "C q \<le> C q'" unfolding C_def by (rule ceiling_mono)
  then have "T q \<le> T q'" using size by (auto simp: T_def nat_le_iff)
  then have "nat (ranked M (T q)) \<le> nat (ranked M (T q'))"
    using ranked_mono [of "T q" "T q'" M] T by simp
  then have "int (bub (bidx (nat (ranked M (T q))))) \<le> int (bub (bidx (nat (ranked M (T q')))))"
    by (simp add: bub_mono)
  then show ?thesis
    using percentile_value [OF assms(1) False t(1)] percentile_value [OF assms(1) False t(2)] u by auto
qed

theorem percentile_monotone_witness:
  "\<exists>p p'. percentile (hrecord new_LatencyHistogram 100) (Fin (1 / 2)) = Some p
     \<and> percentile (hrecord new_LatencyHistogram 100) PInf = Some p' \<and> p \<le> p'"
  by (rule percentile_monotone [OF one_sample]) simp_all

lemma hist_rep_unique:
  assumes "hist_rep h M" and "hist_rep k M"
  shows "buckets h = buckets k \<and> hcount h = hcount k \<and> hmax h = hmax k \<and> hmin h = hmin k"
  using assms by (simp add: hist_rep_def)



end
