(* ===== verification/No_Alloc_Guard.thy ===== *)
theory No_Alloc_Guard
  imports Prelude
begin

text \<open>
  The allocation guard (\<open>include/safeedge/rt/no_alloc_guard.hpp\<close>,
  \<open>src/rt/no_alloc_guard.cpp\<close>, \<open>src/rt/no_alloc_guard_hooks.cpp\<close>): the depth counters
  of the calling thread, the process-wide report, and the \<open>operator new\<close> family
  that consults them.  \<open>malloc\<close> and \<open>aligned_alloc\<close> are parameters that return an
  address or a null pointer.  A violation under \<open>kAbort\<close> is an outcome of its own,
  with the text that goes to standard error.
\<close>

section \<open>Model\<close>

datatype AllocationPolicy = kIgnore | kCount | kAbort

record alloc_guard =
  t_no_alloc_depth :: int
  t_allow_depth :: int
  g_violations :: u64
  g_largest_bytes :: u64
  g_policy :: AllocationPolicy
  g_guard_installed :: bool

definition new_guard :: alloc_guard where
  "new_guard =
     \<lparr>t_no_alloc_depth = 0, t_allow_depth = 0, g_violations = 0, g_largest_bytes = 0,
      g_policy = kAbort, g_guard_installed = False\<rparr>"

text \<open>
  \<open>write_call offset remaining\<close> is what \<open>write(2)\<close> returns; the result is the text that
  went out.
\<close>

function emitRaw :: "(nat \<Rightarrow> nat \<Rightarrow> int) \<Rightarrow> string \<Rightarrow> nat \<Rightarrow> string" where
  "emitRaw write_call txt offset =
     (if offset < length txt then
        let written = write_call offset (length txt - offset) in
        if written \<le> 0 then []
        else take (nat written) (drop offset txt) @ emitRaw write_call txt (offset + nat written)
      else [])"
  by pat_completeness auto
termination
  by (relation "measure (\<lambda>(w, t, k). length t - k)") auto

declare emitRaw.simps [simp del]

text \<open>The digits of a value, least significant first, in a buffer of limited room.\<close>

fun digit_loop :: "nat \<Rightarrow> u64 \<Rightarrow> string" where
  "digit_loop 0 value = []"
| "digit_loop (Suc room) value =
     (if 0 < value then char_of (48 + unat (value mod 10)) # digit_loop room (value div 10) else [])"

fun put_digits :: "nat \<Rightarrow> string \<Rightarrow> string \<Rightarrow> nat \<Rightarrow> string \<times> nat" where
  "put_digits capacity [] buffer offset = (buffer, offset)"
| "put_digits capacity (d # ds) buffer offset =
     (if offset + 1 < capacity then put_digits capacity ds (buffer[offset := d]) (offset + 1)
      else (buffer, offset))"

definition appendUnsigned :: "string \<Rightarrow> nat \<Rightarrow> nat \<Rightarrow> u64 \<Rightarrow> string \<times> nat" where
  "appendUnsigned buffer capacity offset value =
     (let digits = (if value = 0 then ''0'' else digit_loop 24 value);
          (buffer, offset) = put_digits capacity (rev digits) buffer offset
      in (buffer[offset := CHR 0x00], offset))"

definition violation_prefix :: string where
  "violation_prefix = CHR 0x0A # ''safeedge: FATAL -- allocation of ''"

definition violation_suffix :: string where
  "violation_suffix = '' bytes inside a NoAllocScope (real-time path)'' @ [CHR 0x0A]"

text \<open>
  The message is assembled in a buffer of 192 bytes whose initial content
  (\<open>message\<close>) is arbitrary.
\<close>

definition violation_message :: "string \<Rightarrow> u64 \<Rightarrow> string" where
  "violation_message message bytes =
     (let message = copy_at 0 violation_prefix message;
          message = message[length violation_prefix := CHR 0x00];
          (message, offset) = appendUnsigned message 192 (length violation_prefix) bytes;
          message = (if offset + length violation_suffix < 192
                     then copy_at offset (violation_suffix @ [CHR 0x00]) message else message)
      in c_string message)"

datatype guard_outcome = Continues alloc_guard | Aborts string

text \<open>The compare-exchange loop leaves the larger of the two sizes.\<close>

definition reportViolation :: "string \<Rightarrow> u64 \<Rightarrow> alloc_guard \<Rightarrow> guard_outcome" where
  "reportViolation message bytes g =
     (let g = g\<lparr>g_violations := g_violations g + 1\<rparr>;
          previous = g_largest_bytes g;
          g = (if previous < bytes then g\<lparr>g_largest_bytes := bytes\<rparr> else g)
      in if g_policy g \<noteq> kAbort then Continues g
         else Aborts (violation_message message bytes))"

definition enterNoAlloc :: "alloc_guard \<Rightarrow> alloc_guard" where
  "enterNoAlloc g = g\<lparr>t_no_alloc_depth := t_no_alloc_depth g + 1\<rparr>"

definition leaveNoAlloc :: "alloc_guard \<Rightarrow> alloc_guard" where
  "leaveNoAlloc g = g\<lparr>t_no_alloc_depth := t_no_alloc_depth g - 1\<rparr>"

definition enterAllow :: "alloc_guard \<Rightarrow> alloc_guard" where
  "enterAllow g = g\<lparr>t_allow_depth := t_allow_depth g + 1\<rparr>"

definition leaveAllow :: "alloc_guard \<Rightarrow> alloc_guard" where
  "leaveAllow g = g\<lparr>t_allow_depth := t_allow_depth g - 1\<rparr>"

definition setAllocationPolicy :: "AllocationPolicy \<Rightarrow> alloc_guard \<Rightarrow> alloc_guard" where
  "setAllocationPolicy policy g = g\<lparr>g_policy := policy\<rparr>"

definition allocationPolicy :: "alloc_guard \<Rightarrow> AllocationPolicy" where
  "allocationPolicy g = g_policy g"

record AllocationReport =
  violations :: u64
  largest_bytes :: u64

definition allocationReport :: "alloc_guard \<Rightarrow> AllocationReport" where
  "allocationReport g = \<lparr>violations = g_violations g, largest_bytes = g_largest_bytes g\<rparr>"

definition resetAllocationReport :: "alloc_guard \<Rightarrow> alloc_guard" where
  "resetAllocationReport g = g\<lparr>g_violations := 0, g_largest_bytes := 0\<rparr>"

definition inNoAllocScope :: "alloc_guard \<Rightarrow> bool" where
  "inNoAllocScope g \<longleftrightarrow> t_no_alloc_depth g > 0 \<and> t_allow_depth g = 0"

definition guardIsInstalled :: "alloc_guard \<Rightarrow> bool" where
  "guardIsInstalled g = g_guard_installed g"

definition noteAllocation :: "string \<Rightarrow> u64 \<Rightarrow> alloc_guard \<Rightarrow> guard_outcome" where
  "noteAllocation message bytes g =
     (if t_no_alloc_depth g > 0 \<and> t_allow_depth g = 0 then reportViolation message bytes g
      else Continues g)"

definition markGuardInstalled :: "alloc_guard \<Rightarrow> alloc_guard" where
  "markGuardInstalled g = g\<lparr>g_guard_installed := True\<rparr>"

definition roundUpTo :: "u64 \<Rightarrow> u64 \<Rightarrow> u64" where
  "roundUpTo value alignment =
     (let remainder = value mod alignment in
      if remainder = 0 then value else value + (alignment - remainder))"

datatype new_outcome = NewAborts string | NewThrows alloc_guard | NewReturns "u64 option" alloc_guard

definition operator_new :: "(u64 \<Rightarrow> u64 option) \<Rightarrow> string \<Rightarrow> u64 \<Rightarrow> alloc_guard \<Rightarrow> new_outcome" where
  "operator_new malloc message bytes g =
     (case noteAllocation message bytes g of
        Aborts m \<Rightarrow> NewAborts m
      | Continues g \<Rightarrow>
          (case malloc (if bytes = 0 then 1 else bytes) of
             None \<Rightarrow> NewThrows g
           | Some p \<Rightarrow> NewReturns (Some p) g))"

definition operator_new_nothrow ::
  "(u64 \<Rightarrow> u64 option) \<Rightarrow> string \<Rightarrow> u64 \<Rightarrow> alloc_guard \<Rightarrow> new_outcome" where
  "operator_new_nothrow malloc message bytes g =
     (case noteAllocation message bytes g of
        Aborts m \<Rightarrow> NewAborts m
      | Continues g \<Rightarrow> NewReturns (malloc (if bytes = 0 then 1 else bytes)) g)"

definition operator_new_aligned ::
  "(u64 \<Rightarrow> u64 \<Rightarrow> u64 option) \<Rightarrow> string \<Rightarrow> u64 \<Rightarrow> u64 \<Rightarrow> alloc_guard \<Rightarrow> new_outcome" where
  "operator_new_aligned aligned_alloc message bytes align g =
     (case noteAllocation message bytes g of
        Aborts m \<Rightarrow> NewAborts m
      | Continues g \<Rightarrow>
          (case aligned_alloc align (roundUpTo (if bytes = 0 then 1 else bytes) align) of
             None \<Rightarrow> NewThrows g
           | Some p \<Rightarrow> NewReturns (Some p) g))"

definition operator_new_aligned_nothrow ::
  "(u64 \<Rightarrow> u64 \<Rightarrow> u64 option) \<Rightarrow> string \<Rightarrow> u64 \<Rightarrow> u64 \<Rightarrow> alloc_guard \<Rightarrow> new_outcome" where
  "operator_new_aligned_nothrow aligned_alloc message bytes align g =
     (case noteAllocation message bytes g of
        Aborts m \<Rightarrow> NewAborts m
      | Continues g \<Rightarrow>
          NewReturns (aligned_alloc align (roundUpTo (if bytes = 0 then 1 else bytes) align)) g)"

section \<open>The report\<close>

lemma digit_loop_decimal:
  "0 < value \<Longrightarrow> unat value < 10 ^ room \<Longrightarrow> rev (digit_loop room value) = decimal (unat value)"
proof (induction room arbitrary: "value")
  case (Suc room)
  have unat10: "unat (value div 10) = unat value div 10" "unat (value mod 10) = unat value mod 10"
    by (simp_all add: unat_div unat_mod)
  show ?case
  proof (cases "unat value < 10")
    case True
    then have "unat (value div 10) = 0" "unat value mod 10 = unat value" by (simp_all add: unat10)
    then have "value div 10 = 0" by (simp only: unat_eq_zero)
    then have "digit_loop room (value div 10) = []" by (cases room) simp_all
    with True Suc.prems(1) show ?thesis by (subst decimal.simps) (simp add: unat10)
  next
    case False
    then have "0 < unat (value div 10)" by (simp add: unat10)
    then have pos: "0 < value div 10" by (simp only: unat_gt_0 word_neq_0_conv)
    have "unat (value div 10) < 10 ^ room"
      using Suc.prems(2) by (simp add: unat10 less_mult_imp_div_less mult.commute)
    from Suc.IH [OF pos this] False Suc.prems(1) show ?thesis
      by (subst decimal.simps) (simp add: unat10)
  qed
qed (simp add: word_less_nat_alt)

lemma put_digits_copy:
  "offset + length ds < capacity \<Longrightarrow> length buffer = capacity \<Longrightarrow>
   put_digits capacity ds buffer offset = (copy_at offset ds buffer, offset + length ds)"
proof (induction ds arbitrary: buffer offset)
  case Nil
  then show ?case by (simp add: copy_at_def)
next
  case (Cons d ds)
  have "take (Suc offset) (buffer[offset := d]) = take offset buffer @ [d]"
    using Cons.prems by (simp add: take_Suc_conv_app_nth)
  then have "copy_at (Suc offset) ds (buffer[offset := d]) = copy_at offset (d # ds) buffer"
    by (simp add: copy_at_def)
  with Cons show ?case by simp
qed

lemma appendUnsigned_decimal:
  assumes "length buffer = capacity" and "offset + 20 < capacity"
  shows "appendUnsigned buffer capacity offset value =
    (let n = offset + length (decimal (unat value))
     in ((copy_at offset (decimal (unat value)) buffer)[n := CHR 0x00], n))"
proof -
  let ?ds = "if value = 0 then ''0'' else digit_loop 24 value"
  have bound: "unat value < 10 ^ 20" using unat_u64 [of "value"] by simp
  have "rev ?ds = decimal (unat value)"
  proof (cases "value = 0")
    case True
    then show ?thesis by (simp add: decimal.simps [of 0] char_of_def bit_0)
  next
    case False
    then have "0 < value" by (simp add: word_neq_0_conv)
    from digit_loop_decimal [OF this, of 24] False bound show ?thesis by (simp del: digit_loop.simps)
  qed
  moreover have "length (decimal (unat value)) \<le> 20"
    by (rule decimal_u64_length)
  ultimately show ?thesis
    using assms put_digits_copy [of offset "decimal (unat value)" capacity buffer]
    by (simp add: appendUnsigned_def Let_def del: digit_loop.simps)
qed

lemma violation_message_text:
  assumes "length message = 192"
  shows "violation_message message bytes = violation_prefix @ decimal (unat bytes) @ violation_suffix"
proof -
  let ?m = "(copy_at 0 violation_prefix message)[length violation_prefix := CHR 0x00]"
  let ?d = "decimal (unat bytes)"
  let ?n = "length violation_prefix + length ?d"
  let ?b = "(copy_at (length violation_prefix) ?d ?m)[?n := CHR 0x00]"
  have len: "length violation_prefix = 34" "length violation_suffix = 46"
    by (simp_all add: violation_prefix_def violation_suffix_def)
  have lm: "length ?m = 192" using assms len by (simp add: copy_at_def)
  have d20: "length ?d \<le> 20"
    by (rule decimal_u64_length)
  have "take (length violation_prefix) ?m = violation_prefix"
    by (simp add: copy_at_def)
  then have "take ?n (copy_at (length violation_prefix) ?d ?m) = violation_prefix @ ?d"
    by (simp add: copy_at_def)
  then have prefix: "take ?n ?b = violation_prefix @ ?d" by simp
  have app: "appendUnsigned ?m 192 (length violation_prefix) bytes = (?b, ?n)"
    using appendUnsigned_decimal [OF lm, of "length violation_prefix" bytes] len(1) by (simp add: Let_def)
  have fits: "?n + length violation_suffix < 192" using len d20 by simp
  have no_nul: "CHR 0x00 \<notin> set (violation_prefix @ ?d @ violation_suffix)"
  proof -
    have "CHR 0x00 \<notin> set ?d" using decimal_digits [of "CHR 0x00" "unat bytes"] by auto
    then show ?thesis by (simp add: violation_prefix_def violation_suffix_def)
  qed
  have "violation_message message bytes = c_string (copy_at ?n (violation_suffix @ [CHR 0x00]) ?b)"
    using app fits by (simp only: violation_message_def Let_def split_conv if_True)
  also have "copy_at ?n (violation_suffix @ [CHR 0x00]) ?b
      = (violation_prefix @ ?d @ violation_suffix) @ CHR 0x00 # drop (?n + length violation_suffix + 1) ?b"
    using prefix by (simp only: copy_at_def append_assoc append_Cons append_Nil length_append list.size) simp
  finally show ?thesis using c_string_terminated [OF no_nul] by simp
qed

lemma emitRaw_whole:
  assumes "\<And>k n. 0 < n \<Longrightarrow> 0 < write_call k n \<and> write_call k n \<le> int n"
  shows "emitRaw write_call txt offset = drop offset txt"
proof (induction "length txt - offset" arbitrary: offset rule: less_induct)
  case less
  show ?case
  proof (cases "offset < length txt")
    case True
    let ?w = "write_call offset (length txt - offset)"
    have w: "0 < ?w" using assms [of "length txt - offset" offset] True by simp
    then have "emitRaw write_call txt (offset + nat ?w) = drop (offset + nat ?w) txt"
      using less True by simp
    with w True show ?thesis
      by (subst emitRaw.simps) (simp add: Let_def, metis append_take_drop_id drop_drop add.commute)
  qed (simp add: emitRaw.simps)
qed

section \<open>Traces of a thread\<close>

datatype guard_op = EnterNoAlloc | LeaveNoAlloc | EnterAllow | LeaveAllow | New u64

fun guard_op_step :: "string \<Rightarrow> guard_op \<Rightarrow> alloc_guard \<Rightarrow> guard_outcome" where
  "guard_op_step m EnterNoAlloc g = Continues (enterNoAlloc g)"
| "guard_op_step m LeaveNoAlloc g = Continues (leaveNoAlloc g)"
| "guard_op_step m EnterAllow g = Continues (enterAllow g)"
| "guard_op_step m LeaveAllow g = Continues (leaveAllow g)"
| "guard_op_step m (New n) g = noteAllocation m n g"

fun guard_run :: "string \<Rightarrow> guard_op list \<Rightarrow> alloc_guard \<Rightarrow> guard_outcome" where
  "guard_run m [] g = Continues g"
| "guard_run m (x # xs) g =
     (case guard_op_step m x g of Aborts t \<Rightarrow> Aborts t | Continues g' \<Rightarrow> guard_run m xs g')"

lemma guard_run_news:
  assumes "g_policy g \<noteq> kAbort \<or> \<not> inNoAllocScope g \<or> sizes = []"
  shows "guard_run m (map New sizes) g = Continues
    (if inNoAllocScope g
     then g\<lparr>g_violations := g_violations g + of_nat (length sizes), g_largest_bytes := fold max sizes (g_largest_bytes g)\<rparr>
     else g)"
  using assms
proof (induction sizes arbitrary: g)
  case (Cons n sizes)
  show ?case
  proof (cases "inNoAllocScope g")
    case True
    let ?g = "g\<lparr>g_violations := g_violations g + 1, g_largest_bytes := max n (g_largest_bytes g)\<rparr>"
    have "g_policy g \<noteq> kAbort" using Cons.prems True by simp
    then have step: "noteAllocation m n g = Continues ?g"
      using True by (auto simp: noteAllocation_def inNoAllocScope_def reportViolation_def Let_def max_def not_less)
    have "inNoAllocScope ?g" using True by (simp add: inNoAllocScope_def)
    then show ?thesis
      using Cons.IH [of ?g] \<open>g_policy g \<noteq> kAbort\<close> True by (simp add: step algebra_simps)
  next
    case False
    then have "noteAllocation m n g = Continues g" by (auto simp: noteAllocation_def inNoAllocScope_def)
    then show ?thesis using Cons.IH [of g] False by simp
  qed
qed simp

text \<open>
  The specification: a scope is open when more of its constructors than of its
  destructors ran, and the violating allocations are those made with a
  \<open>NoAllocScope\<close> open and the two ends of every \<open>AllowAllocScope\<close> balanced.
\<close>

definition balance :: "guard_op \<Rightarrow> guard_op \<Rightarrow> guard_op list \<Rightarrow> int" where
  "balance enter leave xs = int (count_list xs enter) - int (count_list xs leave)"

definition guarded :: "guard_op list \<Rightarrow> bool" where
  "guarded xs \<longleftrightarrow> balance EnterNoAlloc LeaveNoAlloc xs > 0 \<and> balance EnterAllow LeaveAllow xs = 0"

definition violating :: "guard_op list \<Rightarrow> u64 list" where
  "violating xs =
     concat (map (\<lambda>i. case xs ! i of New n \<Rightarrow> if guarded (take i xs) then [n] else [] | _ \<Rightarrow> [])
       [0..<length xs])"

lemma violating_snoc:
  "violating (xs @ [x]) =
     violating xs @ (case x of New n \<Rightarrow> if guarded xs then [n] else [] | _ \<Rightarrow> [])"
proof -
  have "map (\<lambda>i. case (xs @ [x]) ! i of New n \<Rightarrow> if guarded (take i (xs @ [x])) then [n] else [] | _ \<Rightarrow> []) [0..<length xs]
      = map (\<lambda>i. case xs ! i of New n \<Rightarrow> if guarded (take i xs) then [n] else [] | _ \<Rightarrow> []) [0..<length xs]"
    by (rule map_cong) (auto simp: nth_append split: guard_op.splits)
  moreover have "guarded (take (length xs) (xs @ [x])) = guarded xs" by simp
  ultimately show ?thesis
    by (simp only: violating_def length_append_singleton upt_Suc_append [OF le0] map_append concat_append
        list.map concat.simps nth_append_length append_Nil2)
qed

lemma balance_snoc:
  "balance e l (xs @ [x]) = balance e l xs + (if x = e then 1 else 0) - (if x = l then 1 else 0)"
  by (simp add: balance_def)

lemma guard_run_snoc:
  "guard_run m (xs @ [x]) g =
     (case guard_run m xs g of Aborts t \<Rightarrow> Aborts t | Continues g' \<Rightarrow> guard_op_step m x g')"
  by (induction xs arbitrary: g) (auto split: guard_outcome.splits)

text \<open>The state after a trace that did not abort.\<close>

definition after_trace :: "guard_op list \<Rightarrow> alloc_guard \<Rightarrow> alloc_guard" where
  "after_trace xs g =
     g\<lparr>t_no_alloc_depth := balance EnterNoAlloc LeaveNoAlloc xs,
       t_allow_depth := balance EnterAllow LeaveAllow xs,
       g_violations := g_violations g + of_nat (length (violating xs)),
       g_largest_bytes := fold max (violating xs) (g_largest_bytes g)\<rparr>"

lemma after_trace_step:
  assumes "g_policy g \<noteq> kAbort"
  shows "guard_op_step m x (after_trace xs g) = Continues (after_trace (xs @ [x]) g)"
  using assms
  by (cases x)
    (auto simp: after_trace_def balance_snoc violating_snoc enterNoAlloc_def leaveNoAlloc_def enterAllow_def
      leaveAllow_def noteAllocation_def reportViolation_def guarded_def Let_def max_def not_less)

lemma guard_run_counts:
  assumes "g_policy g \<noteq> kAbort" and "t_no_alloc_depth g = 0" and "t_allow_depth g = 0"
  shows "guard_run m xs g = Continues (after_trace xs g)"
proof (induction xs rule: rev_induct)
  case Nil
  then show ?case using assms by (simp add: after_trace_def balance_def violating_def)
next
  case (snoc x xs)
  then show ?case by (simp add: guard_run_snoc after_trace_step [OF assms(1)])
qed

lemma guard_run_aborts:
  assumes "g_policy g = kAbort" and "t_no_alloc_depth g = 0" and "t_allow_depth g = 0"
  shows "guard_run m xs g =
    (if violating xs = [] then Continues (after_trace xs g) else Aborts (violation_message m (hd (violating xs))))"
proof (induction xs rule: rev_induct)
  case Nil
  then show ?case using assms by (simp add: after_trace_def balance_def violating_def)
next
  case (snoc x xs)
  show ?case
  proof (cases "violating xs = []")
    case True
    with snoc show ?thesis
      using assms(1)
      by (cases x)
        (auto simp: guard_run_snoc after_trace_def balance_snoc violating_snoc enterNoAlloc_def leaveNoAlloc_def
          enterAllow_def leaveAllow_def noteAllocation_def reportViolation_def guarded_def Let_def)
  next
    case False
    with snoc show ?thesis by (simp add: guard_run_snoc violating_snoc)
  qed
qed

lemma roundUpTo_multiple:
  assumes "0 < unat alignment" and "unat bytes + unat alignment \<le> 2 ^ 64"
  shows "unat (roundUpTo bytes alignment) mod unat alignment = 0 \<and> unat bytes \<le> unat (roundUpTo bytes alignment)
    \<and> unat (roundUpTo bytes alignment) < unat bytes + unat alignment"
proof (cases "bytes mod alignment = 0")
  case True
  then have "unat bytes mod unat alignment = 0" by (metis unat_mod unsigned_0)
  with True assms(1) show ?thesis by (simp add: roundUpTo_def)
next
  case False
  let ?s = "unat bytes" and ?a = "unat alignment"
  have r: "unat (bytes mod alignment) = ?s mod ?a" "?s mod ?a < ?a" "?s mod ?a \<noteq> 0"
    using assms(1) False by (simp add: unat_mod, simp, metis unat_mod unat_eq_zero)
  have "unat (alignment - bytes mod alignment) = ?a - ?s mod ?a"
    using r by (simp add: unat_sub word_le_nat_alt)
  then have "unat (roundUpTo bytes alignment) = ?s + (?a - ?s mod ?a)"
    using False assms(2) r unat_of_nat_small [of "?s + (?a - ?s mod ?a)", where 'a = 64]
    by (simp add: roundUpTo_def unat_word_ariths)
  moreover have "(?s + (?a - ?s mod ?a)) mod ?a = 0"
  proof -
    have "?s + (?a - ?s mod ?a) = ?s div ?a * ?a + ?a"
      using r(2) div_mult_mod_eq [of ?s ?a] by linarith
    then show ?thesis by simp
  qed
  ultimately show ?thesis using r by simp
qed

text \<open>A size within the alignment of \<open>2 ^ 64\<close> is rounded up to nothing.\<close>

lemma roundUpTo_wraps: "roundUpTo (- 1) 64 = 0"
  by (simp add: roundUpTo_def Let_def)

text \<open>\<open>kIgnore\<close> counts as \<open>kCount\<close> does.\<close>

lemma ignored_violation_counted:
  "guard_run m [EnterNoAlloc, New 32] (new_guard\<lparr>g_policy := kIgnore\<rparr>)
   = Continues (new_guard\<lparr>g_policy := kIgnore, t_no_alloc_depth := 1, g_violations := 1, g_largest_bytes := 32\<rparr>)"
  by (simp add: new_guard_def enterNoAlloc_def noteAllocation_def reportViolation_def)

section \<open>Properties\<close>

text \<open>
  C28. The guard sees every allocation it should and no other: over any trace of
  scopes and \<open>operator new\<close> calls of a thread, the violation count grows by the
  number of allocations made inside an active \<open>NoAllocScope\<close> and the recorded size
  is their largest; under \<open>kAbort\<close> the first of them ends the process, with its
  exact size in the message.
\<close>

theorem guard_sees_violations:
  assumes "t_no_alloc_depth g = 0" and "t_allow_depth g = 0" and "length m = 192"
  shows "guard_run m xs g =
    (if g_policy g = kAbort \<and> violating xs \<noteq> []
     then Aborts (violation_prefix @ decimal (unat (hd (violating xs))) @ violation_suffix)
     else Continues (after_trace xs g))"
  using guard_run_counts [of g m xs] guard_run_aborts [of g m xs] assms(1,2) violation_message_text [OF assms(3)]
  by (cases "g_policy g = kAbort") auto

theorem guard_sees_violations_witness:
  "guard_run (replicate 192 CHR 0x41) [New 8, EnterNoAlloc, EnterAllow, New 16, LeaveAllow, New 32] new_guard
   = Aborts (violation_prefix @ decimal 32 @ violation_suffix)"
  using guard_sees_violations [of new_guard "replicate 192 CHR 0x41" "[New 8, EnterNoAlloc, EnterAllow, New 16, LeaveAllow, New 32]"]
  by (simp add: new_guard_def violating_def guarded_def balance_def nth_Cons upt_rec)

end
