(* ===== verification/Alloc_Threads.thy ===== *)
theory Alloc_Threads
  imports No_Alloc_Guard
begin

text \<open>
  The allocation guard in a process of several threads (\<open>src/rt/no_alloc_guard.cpp\<close>,
  \<open>src/rt/no_alloc_guard_hooks.cpp\<close>): the depth counters belong to a thread, the report to
  the process, and a violation is reported in atomic accesses that interleave with
  those of other threads, the weak compare-exchange with its spurious failures among them.  The theory
  shows that no violation is lost or invented and that the largest size survives every
  race; and that the replaced operators \<open>new\<close> and \<open>delete\<close> fit each other.
\<close>

section \<open>Model\<close>

subsection \<open>The threads\<close>

text \<open>Where a thread is in \<open>reportViolation\<close>: past the count, in the loop with what it last saw, past the loop.\<close>

datatype report_at = Outside | Counted u64 | Comparing u64 u64 | Deciding u64

record guard_thread =
  no_alloc_depth :: int
  allow_depth :: int
  report_is :: report_at

record guard_process =
  guard_threads :: "nat \<Rightarrow> guard_thread"
  all_violations :: u64
  all_largest :: u64
  all_policy :: AllocationPolicy
  aborted :: "string option"

definition new_guard_process :: "AllocationPolicy \<Rightarrow> guard_process" where
  "new_guard_process policy =
     \<lparr>guard_threads = (\<lambda>_. \<lparr>no_alloc_depth = 0, allow_depth = 0, report_is = Outside\<rparr>),
      all_violations = 0, all_largest = 0, all_policy = policy, aborted = None\<rparr>"

definition set_thread :: "nat \<Rightarrow> guard_thread \<Rightarrow> guard_process \<Rightarrow> guard_process" where
  "set_thread i x s = s\<lparr>guard_threads := (guard_threads s)(i := x)\<rparr>"

text \<open>The constructors and destructors of the scopes, and the first access of \<open>noteAllocation\<close>.\<close>

fun issue :: "nat \<Rightarrow> guard_op \<Rightarrow> guard_process \<Rightarrow> guard_process" where
  "issue i EnterNoAlloc s = (let x = guard_threads s i in set_thread i (x\<lparr>no_alloc_depth := no_alloc_depth x + 1\<rparr>) s)"
| "issue i LeaveNoAlloc s = (let x = guard_threads s i in set_thread i (x\<lparr>no_alloc_depth := no_alloc_depth x - 1\<rparr>) s)"
| "issue i EnterAllow s = (let x = guard_threads s i in set_thread i (x\<lparr>allow_depth := allow_depth x + 1\<rparr>) s)"
| "issue i LeaveAllow s = (let x = guard_threads s i in set_thread i (x\<lparr>allow_depth := allow_depth x - 1\<rparr>) s)"
| "issue i (New n) s =
     (let x = guard_threads s i in
      if no_alloc_depth x > 0 \<and> allow_depth x = 0
      then set_thread i (x\<lparr>report_is := Counted n\<rparr>) (s\<lparr>all_violations := all_violations s + 1\<rparr>)
      else s)"

datatype guard_event = Issues nat guard_op | Loads nat | Compares nat bool | Decides nat

text \<open>
  One access.  \<open>Compares i spurious\<close> is a turn of the loop: its condition on what was last
  seen, and the exchange, which may fail although the value is the one expected.  The content of
  the message buffer before it is written is \<open>buffer\<close>.
\<close>

inductive guard_process_step :: "string \<Rightarrow> guard_process \<Rightarrow> guard_event \<Rightarrow> guard_process \<Rightarrow> bool" for buffer :: string where
  issues: "aborted s = None \<Longrightarrow> report_is (guard_threads s i) = Outside \<Longrightarrow>
    guard_process_step buffer s (Issues i x) (issue i x s)"
| loads: "aborted s = None \<Longrightarrow> report_is (guard_threads s i) = Counted n \<Longrightarrow>
    guard_process_step buffer s (Loads i) (set_thread i ((guard_threads s i)\<lparr>report_is := Comparing n (all_largest s)\<rparr>) s)"
| leaves_loop: "aborted s = None \<Longrightarrow> report_is (guard_threads s i) = Comparing n previous \<Longrightarrow> \<not> previous < n \<Longrightarrow>
    guard_process_step buffer s (Compares i spurious) (set_thread i ((guard_threads s i)\<lparr>report_is := Deciding n\<rparr>) s)"
| exchanges: "aborted s = None \<Longrightarrow> report_is (guard_threads s i) = Comparing n previous \<Longrightarrow> previous < n \<Longrightarrow>
    all_largest s = previous \<Longrightarrow>
    guard_process_step buffer s (Compares i False)
      (set_thread i ((guard_threads s i)\<lparr>report_is := Deciding n\<rparr>) (s\<lparr>all_largest := n\<rparr>))"
| fails: "aborted s = None \<Longrightarrow> report_is (guard_threads s i) = Comparing n previous \<Longrightarrow> previous < n \<Longrightarrow>
    all_largest s \<noteq> previous \<or> spurious \<Longrightarrow>
    guard_process_step buffer s (Compares i spurious)
      (set_thread i ((guard_threads s i)\<lparr>report_is := Comparing n (all_largest s)\<rparr>) s)"
| returns: "aborted s = None \<Longrightarrow> report_is (guard_threads s i) = Deciding n \<Longrightarrow> all_policy s \<noteq> kAbort \<Longrightarrow>
    guard_process_step buffer s (Decides i) (set_thread i ((guard_threads s i)\<lparr>report_is := Outside\<rparr>) s)"
| aborts: "aborted s = None \<Longrightarrow> report_is (guard_threads s i) = Deciding n \<Longrightarrow> all_policy s = kAbort \<Longrightarrow>
    guard_process_step buffer s (Decides i) (s\<lparr>aborted := Some (violation_message buffer n)\<rparr>)"

inductive_cases guard_process_stepE: "guard_process_step buffer s e s'"

inductive guard_process_run :: "string \<Rightarrow> AllocationPolicy \<Rightarrow> guard_event list \<Rightarrow> guard_process \<Rightarrow> bool"
  for buffer :: string and policy :: AllocationPolicy where
  guard_begin: "guard_process_run buffer policy [] (new_guard_process policy)"
| guard_next: "guard_process_run buffer policy es s \<Longrightarrow> guard_process_step buffer s e s' \<Longrightarrow>
    guard_process_run buffer policy (es @ [e]) s'"

text \<open>The same as a function of the event.\<close>

fun access :: "string \<Rightarrow> guard_event \<Rightarrow> guard_process \<Rightarrow> guard_process option" where
  "access buffer (Issues i x) s =
     (if aborted s = None \<and> report_is (guard_threads s i) = Outside then Some (issue i x s) else None)"
| "access buffer (Loads i) s =
     (if aborted s \<noteq> None then None
      else case report_is (guard_threads s i) of
             Counted n \<Rightarrow> Some (set_thread i ((guard_threads s i)\<lparr>report_is := Comparing n (all_largest s)\<rparr>) s)
           | _ \<Rightarrow> None)"
| "access buffer (Compares i spurious) s =
     (if aborted s \<noteq> None then None
      else case report_is (guard_threads s i) of
             Comparing n previous \<Rightarrow> Some
               (if \<not> previous < n then set_thread i ((guard_threads s i)\<lparr>report_is := Deciding n\<rparr>) s
                else if all_largest s = previous \<and> \<not> spurious
                then set_thread i ((guard_threads s i)\<lparr>report_is := Deciding n\<rparr>) (s\<lparr>all_largest := n\<rparr>)
                else set_thread i ((guard_threads s i)\<lparr>report_is := Comparing n (all_largest s)\<rparr>) s)
           | _ \<Rightarrow> None)"
| "access buffer (Decides i) s =
     (if aborted s \<noteq> None then None
      else case report_is (guard_threads s i) of
             Deciding n \<Rightarrow> Some
               (if all_policy s \<noteq> kAbort then set_thread i ((guard_threads s i)\<lparr>report_is := Outside\<rparr>) s
                else s\<lparr>aborted := Some (violation_message buffer n)\<rparr>)
           | _ \<Rightarrow> None)"

fun accesses :: "string \<Rightarrow> guard_event list \<Rightarrow> guard_process \<Rightarrow> guard_process option" where
  "accesses buffer [] s = Some s"
| "accesses buffer (e # es) s = (case access buffer e s of None \<Rightarrow> None | Some s' \<Rightarrow> accesses buffer es s')"

subsection \<open>The hooks\<close>

text \<open>
  A static initialiser marks the guard as installed.  The array forms forward to the plain ones, and
  under the thread sanitizer its allocation hook takes the place of the whole family.
\<close>

definition GuardInstaller :: "alloc_guard \<Rightarrow> alloc_guard" where
  "GuardInstaller g = markGuardInstalled g"

definition sanitizer_malloc_hook :: "string \<Rightarrow> u64 \<Rightarrow> alloc_guard \<Rightarrow> guard_outcome" where
  "sanitizer_malloc_hook m bytes g = noteAllocation m bytes g"

datatype new_form = New_Plain | New_Array | New_Nothrow | New_Array_Nothrow
  | New_Aligned u64 | New_Array_Aligned u64 | New_Aligned_Nothrow u64 | New_Array_Aligned_Nothrow u64

text \<open>\<open>malloc\<close> is what \<open>allocate\<close> calls.\<close>

fun operator_new_form ::
  "(u64 \<Rightarrow> u64 option) \<Rightarrow> (u64 \<Rightarrow> u64 \<Rightarrow> u64 option) \<Rightarrow> new_form \<Rightarrow> string \<Rightarrow> u64 \<Rightarrow> alloc_guard \<Rightarrow> new_outcome" where
  "operator_new_form malloc aligned_alloc New_Plain m bytes g = operator_new malloc m bytes g"
| "operator_new_form malloc aligned_alloc New_Array m bytes g = operator_new malloc m bytes g"
| "operator_new_form malloc aligned_alloc New_Nothrow m bytes g = operator_new_nothrow malloc m bytes g"
| "operator_new_form malloc aligned_alloc New_Array_Nothrow m bytes g = operator_new_nothrow malloc m bytes g"
| "operator_new_form malloc aligned_alloc (New_Aligned al) m bytes g = operator_new_aligned aligned_alloc m bytes al g"
| "operator_new_form malloc aligned_alloc (New_Array_Aligned al) m bytes g = operator_new_aligned aligned_alloc m bytes al g"
| "operator_new_form malloc aligned_alloc (New_Aligned_Nothrow al) m bytes g = operator_new_aligned_nothrow aligned_alloc m bytes al g"
| "operator_new_form malloc aligned_alloc (New_Array_Aligned_Nothrow al) m bytes g =
     operator_new_aligned_nothrow aligned_alloc m bytes al g"

text \<open>\<open>free\<close> on the blocks in use: releasing anything else is undefined.\<close>

fun c_free :: "u64 option \<Rightarrow> u64 set \<Rightarrow> u64 set option" where
  "c_free None live = Some live"
| "c_free (Some p) live = (if p \<in> live then Some (live - {p}) else None)"

datatype delete_form = Delete_Plain | Delete_Array | Delete_Sized u64 | Delete_Array_Sized u64
  | Delete_Nothrow | Delete_Array_Nothrow | Delete_Aligned u64 | Delete_Array_Aligned u64
  | Delete_Sized_Aligned u64 u64 | Delete_Array_Sized_Aligned u64 u64
  | Delete_Aligned_Nothrow u64 | Delete_Array_Aligned_Nothrow u64

fun operator_delete :: "delete_form \<Rightarrow> u64 option \<Rightarrow> u64 set \<Rightarrow> u64 set option" where
  "operator_delete Delete_Plain p live = c_free p live"
| "operator_delete Delete_Array p live = c_free p live"
| "operator_delete (Delete_Sized n) p live = c_free p live"
| "operator_delete (Delete_Array_Sized n) p live = c_free p live"
| "operator_delete Delete_Nothrow p live = c_free p live"
| "operator_delete Delete_Array_Nothrow p live = c_free p live"
| "operator_delete (Delete_Aligned al) p live = c_free p live"
| "operator_delete (Delete_Array_Aligned al) p live = c_free p live"
| "operator_delete (Delete_Sized_Aligned n al) p live = c_free p live"
| "operator_delete (Delete_Array_Sized_Aligned n al) p live = c_free p live"
| "operator_delete (Delete_Aligned_Nothrow al) p live = c_free p live"
| "operator_delete (Delete_Array_Aligned_Nothrow al) p live = c_free p live"

lemma access_step: "access buffer e s = Some s' \<longleftrightarrow> guard_process_step buffer s e s'"
proof
  show "access buffer e s = Some s' \<Longrightarrow> guard_process_step buffer s e s'"
    by (cases e) (auto split: if_splits report_at.splits intro: guard_process_step.intros)
  show "guard_process_step buffer s e s' \<Longrightarrow> access buffer e s = Some s'"
    by (elim guard_process_stepE) auto
qed

lemma accesses_snoc:
  "accesses buffer (es @ [e]) s = (case accesses buffer es s of None \<Rightarrow> None | Some s' \<Rightarrow> access buffer e s')"
  by (induction es arbitrary: s) (auto split: option.splits)

lemma accesses_run: "accesses buffer es (new_guard_process policy) = Some s \<Longrightarrow> guard_process_run buffer policy es s"
proof (induction es arbitrary: s rule: rev_induct)
  case (snoc e es)
  then show ?case by (auto simp: accesses_snoc access_step intro: guard_next split: option.splits)
qed (simp add: guard_begin)

section \<open>What the threads did\<close>

text \<open>The operations of one thread, and the violations of all of them in the order they were counted.\<close>

definition ops_of :: "nat \<Rightarrow> guard_event list \<Rightarrow> guard_op list" where
  "ops_of i es = concat (map (\<lambda>e. case e of Issues j x \<Rightarrow> if j = i then [x] else [] | _ \<Rightarrow> []) es)"

fun noted_by :: "guard_event list \<Rightarrow> guard_event \<Rightarrow> (nat \<times> u64) list" where
  "noted_by before (Issues i (New n)) = (if guarded (ops_of i before) then [(i, n)] else [])"
| "noted_by before _ = []"

definition noted_violations :: "guard_event list \<Rightarrow> (nat \<times> u64) list" where
  "noted_violations es = concat (map (\<lambda>k. noted_by (take k es) (es ! k)) [0..<length es])"

lemma ops_of_simps [simp]:
  "ops_of i [] = []" "ops_of i (es @ [Loads j]) = ops_of i es" "ops_of i (es @ [Compares j b]) = ops_of i es"
  "ops_of i (es @ [Decides j]) = ops_of i es"
  "ops_of i (es @ [Issues j x]) = ops_of i es @ (if j = i then [x] else [])"
  by (simp_all add: ops_of_def)

lemma noted_violations_snoc: "noted_violations (es @ [e]) = noted_violations es @ noted_by es e"
proof -
  have "map (\<lambda>k. noted_by (take k (es @ [e])) ((es @ [e]) ! k)) [0..<length es] =
      map (\<lambda>k. noted_by (take k es) (es ! k)) [0..<length es]"
    by (rule map_cong) (auto simp: nth_append)
  then show ?thesis
    by (simp only: noted_violations_def length_append_singleton upt_Suc_append [OF le0] map_append concat_append list.map
        concat.simps nth_append_length append_Nil2) simp
qed

text \<open>Of each thread they are the violations of its own operations: no scope reaches another thread.\<close>

lemma noted_violations_of: "map snd (filter (\<lambda>x. fst x = j) (noted_violations es)) = violating (ops_of j es)"
proof (induction es rule: rev_induct)
  case Nil
  then show ?case by (simp add: noted_violations_def violating_def)
next
  case (snoc e es)
  show ?case
  proof (cases e)
    case (Issues i x)
    then show ?thesis
      using snoc by (cases x) (auto simp: noted_violations_snoc violating_snoc)
  qed (use snoc in \<open>simp_all add: noted_violations_snoc\<close>)
qed

section \<open>Races\<close>

fun reporting :: "report_at \<Rightarrow> u64 option" where
  "reporting Outside = None"
| "reporting (Counted n) = Some n"
| "reporting (Comparing n p) = Some n"
| "reporting (Deciding n) = Some n"

fun not_yet_compared :: "report_at \<Rightarrow> u64 option" where
  "not_yet_compared (Counted n) = Some n"
| "not_yet_compared (Comparing n p) = Some n"
| "not_yet_compared _ = None"

text \<open>The depths are the balances of the thread's own scopes, and the count is that of the violations.\<close>

definition depths_inv :: "guard_event list \<Rightarrow> guard_process \<Rightarrow> bool" where
  "depths_inv es s \<longleftrightarrow> all_violations s = of_nat (length (noted_violations es)) \<and>
     (\<forall>i. no_alloc_depth (guard_threads s i) = balance EnterNoAlloc LeaveNoAlloc (ops_of i es) \<and>
          allow_depth (guard_threads s i) = balance EnterAllow LeaveAllow (ops_of i es))"

text \<open>
  The largest size is that of a violation, and covers every violation that is not about to be
  compared; what a thread last saw is not above it.
\<close>

definition largest_ok :: "(nat \<times> u64) set \<Rightarrow> u64 \<Rightarrow> (nat \<Rightarrow> report_at) \<Rightarrow> bool" where
  "largest_ok V L at_report \<longleftrightarrow> (L = 0 \<or> L \<in> snd ` V) \<and>
     (\<forall>i n. (i, n) \<in> V \<longrightarrow> n \<le> L \<or> not_yet_compared (at_report i) = Some n) \<and>
     (\<forall>i n p. at_report i = Comparing n p \<longrightarrow> p \<le> L) \<and> (\<forall>i n. reporting (at_report i) = Some n \<longrightarrow> (i, n) \<in> V)"

abbreviation largest_inv :: "guard_event list \<Rightarrow> guard_process \<Rightarrow> bool" where
  "largest_inv es s \<equiv> largest_ok (set (noted_violations es)) (all_largest s) (\<lambda>i. report_is (guard_threads s i))"

definition abort_inv :: "string \<Rightarrow> AllocationPolicy \<Rightarrow> guard_event list \<Rightarrow> guard_process \<Rightarrow> bool" where
  "abort_inv buffer policy es s \<longleftrightarrow> all_policy s = policy \<and>
     (\<forall>txt. aborted s = Some txt \<longrightarrow>
        policy = kAbort \<and> (\<exists>i n. (i, n) \<in> set (noted_violations es) \<and> txt = violation_message buffer n)) \<and>
     (policy = kAbort \<longrightarrow> aborted s = None \<longrightarrow>
        (\<forall>i n. (i, n) \<in> set (noted_violations es) \<longrightarrow> report_is (guard_threads s i) \<noteq> Outside))"

lemma depths_inv_step:
  assumes "guard_process_step buffer s e s'" and "depths_inv es s"
  shows "depths_inv (es @ [e]) s'"
  using assms(1)
proof (cases rule: guard_process_step.cases)
  case (issues i x)
  then show ?thesis
    using assms(2)
    by (cases x) (auto simp: depths_inv_def noted_violations_snoc set_thread_def Let_def balance_snoc guarded_def)
qed (use assms(2) in \<open>auto simp: depths_inv_def noted_violations_snoc set_thread_def\<close>)

fun allocates :: "guard_op \<Rightarrow> bool" where
  "allocates (New n) = True"
| "allocates _ = False"

lemma issued_new:
  assumes "depths_inv es s"
  shows "guard_threads (issue i (New n) s) =
      (if guarded (ops_of i es) then (guard_threads s)(i := (guard_threads s i)\<lparr>report_is := Counted n\<rparr>) else guard_threads s)"
  using assms by (simp add: depths_inv_def guarded_def set_thread_def Let_def)

lemma issued [simp]:
  "all_largest (issue i x s) = all_largest s" "all_policy (issue i x s) = all_policy s" "aborted (issue i x s) = aborted s"
  by (cases x; simp add: set_thread_def Let_def)+

lemma issued_scope: "\<not> allocates x \<Longrightarrow> report_is (guard_threads (issue i x s) j) = report_is (guard_threads s j)"
  by (cases x) (simp_all add: set_thread_def Let_def)

lemma not_allocating: "\<not> allocates x \<Longrightarrow> noted_by es (Issues i x) = []"
  by (cases x) auto

lemma largest_okD:
  assumes "largest_ok V L at_report"
  shows "(i, n) \<in> V \<Longrightarrow> not_yet_compared (at_report i) \<noteq> Some n \<Longrightarrow> n \<le> L"
    and "at_report i = Comparing n p \<Longrightarrow> p \<le> L" and "reporting (at_report i) = Some n \<Longrightarrow> (i, n) \<in> V"
    and "L = 0 \<or> L \<in> snd ` V"
proof -
  note parts = assms [unfolded largest_ok_def]
  show "(i, n) \<in> V \<Longrightarrow> not_yet_compared (at_report i) \<noteq> Some n \<Longrightarrow> n \<le> L"
    using conjunct1 [OF conjunct2 [OF parts]] by blast
  show "at_report i = Comparing n p \<Longrightarrow> p \<le> L"
    using conjunct1 [OF conjunct2 [OF conjunct2 [OF parts]]] by blast
  show "reporting (at_report i) = Some n \<Longrightarrow> (i, n) \<in> V"
    using conjunct2 [OF conjunct2 [OF conjunct2 [OF parts]]] by blast
  show "L = 0 \<or> L \<in> snd ` V" by (rule conjunct1 [OF parts])
qed

text \<open>One thread moves, and the violations and the largest size may grow with it.\<close>

lemma largest_ok_update:
  assumes "largest_ok V L at_report" and "V \<subseteq> V'" and "V' \<subseteq> V \<union> {i} \<times> UNIV" and "L \<le> L'" and "L' = L \<or> L' \<in> snd ` V'"
    and "\<And>n. (i, n) \<in> V' \<Longrightarrow> n \<le> L' \<or> not_yet_compared r = Some n"
    and "\<And>n p. r = Comparing n p \<Longrightarrow> p \<le> L'" and "\<And>n. reporting r = Some n \<Longrightarrow> (i, n) \<in> V'"
  shows "largest_ok V' L' (at_report(i := r))"
  unfolding largest_ok_def
proof (intro conjI allI impI)
  show "L' = 0 \<or> L' \<in> snd ` V'" using largest_okD(4) [OF assms(1)] assms(2,5) by (metis image_mono subsetD)
  show "n \<le> L' \<or> not_yet_compared ((at_report(i := r)) j) = Some n" if "(j, n) \<in> V'" for j n
  proof (cases "j = i")
    case False
    then have "(j, n) \<in> V" using that assms(3) by auto
    then have "n \<le> L \<or> not_yet_compared (at_report j) = Some n" using largest_okD(1) [OF assms(1)] by metis
    then show ?thesis using False assms(4) by auto
  qed (use that assms(6) in simp)
  show "p \<le> L'" if "(at_report(i := r)) j = Comparing n p" for j n p
  proof (cases "j = i")
    case False
    then have "p \<le> L" using that largest_okD(2) [OF assms(1), of j n p] by simp
    then show ?thesis using assms(4) by simp
  qed (use that assms(7) in simp)
  show "(j, n) \<in> V'" if "reporting ((at_report(i := r)) j) = Some n" for j n
  proof (cases "j = i")
    case False
    then have "(j, n) \<in> V" using that largest_okD(3) [OF assms(1), of j n] by simp
    then show ?thesis using assms(2) by (rule subsetD [rotated])
  qed (use that assms(8) in simp)
qed

lemma set_thread_report:
  "(\<lambda>j. report_is (guard_threads (set_thread i (x\<lparr>report_is := r\<rparr>) s) j)) = (\<lambda>j. report_is (guard_threads s j))(i := r)"
  "all_largest (set_thread i x s) = all_largest s" "all_policy (set_thread i x s) = all_policy s" "aborted (set_thread i x s) = aborted s"
  by (auto simp: set_thread_def)

lemma largest_inv_move:
  assumes "largest_inv es s" and "all_largest s \<le> L" and "L = all_largest s \<or> (i, L) \<in> set (noted_violations es)"
    and "\<And>n. not_yet_compared (report_is (guard_threads s i)) = Some n \<Longrightarrow> n \<le> L \<or> not_yet_compared r = Some n"
    and "\<And>n p. r = Comparing n p \<Longrightarrow> p \<le> L" and "\<And>n. reporting r = Some n \<Longrightarrow> reporting (report_is (guard_threads s i)) = Some n"
  shows "largest_ok (set (noted_violations es)) L ((\<lambda>j. report_is (guard_threads s j))(i := r))"
proof (rule largest_ok_update [OF assms(1)])
  show "L = all_largest s \<or> L \<in> snd ` set (noted_violations es)" using assms(3) by force
  show "n \<le> L \<or> not_yet_compared r = Some n" if "(i, n) \<in> set (noted_violations es)" for n
    using largest_okD(1) [OF assms(1) that] assms(2,4) by force
  show "(i, n) \<in> set (noted_violations es)" if "reporting r = Some n" for n
    using largest_okD(3) [OF assms(1)] assms(6) that by blast
qed (use assms(2,5) in auto)

lemma largest_inv_step:
  assumes "guard_process_step buffer s e s'" and "largest_inv es s" and "depths_inv es s"
  shows "largest_inv (es @ [e]) s'"
  using assms(1)
proof (cases rule: guard_process_step.cases)
  case (issues i x)
  show ?thesis
  proof (cases "allocates x \<and> guarded (ops_of i es)")
    case True
    then obtain n where x: "x = New n" by (cases x) auto
    have "largest_ok (set (noted_violations es) \<union> {(i, n)}) (all_largest s) ((\<lambda>j. report_is (guard_threads s j))(i := Counted n))"
      using largest_okD(1) [OF assms(2), of i] issues(4) by (intro largest_ok_update [OF assms(2)]) auto
    moreover have "(\<lambda>j. report_is (guard_threads s' j)) = (\<lambda>j. report_is (guard_threads s j))(i := Counted n)"
      unfolding issues(2) x issued_new [OF assms(3)] using True by auto
    ultimately show ?thesis
      using True by (simp add: issues(1,2) x noted_violations_snoc del: issue.simps)
  next
    case False
    then have "(\<lambda>j. report_is (guard_threads s' j)) = (\<lambda>j. report_is (guard_threads s j))" "noted_by es e = []"
      unfolding issues(1,2) by (cases x; simp add: issued_new [OF assms(3)] issued_scope del: issue.simps)+
    then show ?thesis using assms(2) by (simp add: issues(2) noted_violations_snoc)
  qed
next
  case (loads i n)
  then show ?thesis
    using largest_inv_move [OF assms(2), of "all_largest s" i "Comparing n (all_largest s)"]
    by (simp add: noted_violations_snoc set_thread_report)
next
  case (leaves_loop i n previous spurious)
  then have "n \<le> all_largest s" using largest_okD(2) [OF assms(2), of i] by force
  then show ?thesis
    using leaves_loop largest_inv_move [OF assms(2), of "all_largest s" i "Deciding n"]
    by (simp add: noted_violations_snoc set_thread_report)
next
  case (exchanges i n previous)
  then have "(i, n) \<in> set (noted_violations es)" using largest_okD(3) [OF assms(2), of i] by simp
  then have "largest_ok (set (noted_violations es)) n ((\<lambda>j. report_is (guard_threads s j))(i := Deciding n))"
    using exchanges by (intro largest_inv_move [OF assms(2)]) auto
  moreover have "(\<lambda>j. report_is (guard_threads s' j)) = (\<lambda>j. report_is (guard_threads s j))(i := Deciding n)" "all_largest s' = n"
    unfolding exchanges(2) by (auto simp: set_thread_def)
  ultimately show ?thesis by (simp add: noted_violations_snoc exchanges(1))
next
  case (fails i n previous spurious)
  then show ?thesis
    using largest_inv_move [OF assms(2), of "all_largest s" i "Comparing n (all_largest s)"]
    by (simp add: noted_violations_snoc set_thread_report)
next
  case (returns i n)
  then show ?thesis
    using largest_inv_move [OF assms(2), of "all_largest s" i Outside] by (simp add: noted_violations_snoc set_thread_report)
next
  case (aborts i n)
  then show ?thesis using assms(2) by (simp add: noted_violations_snoc)
qed

lemma abort_inv_step:
  assumes "guard_process_step buffer s e s'" and "abort_inv buffer policy es s" and "depths_inv es s" and "largest_inv es s"
  shows "abort_inv buffer policy (es @ [e]) s'"
  using assms(1)
proof (cases rule: guard_process_step.cases)
  case (issues i x)
  show ?thesis
  proof (cases "allocates x")
    case True
    then obtain n where x: "x = New n" by (cases x) auto
    show ?thesis
      using assms(2) issues(3,4)
      by (auto simp: issues(1,2) x abort_inv_def issued_new [OF assms(3)] noted_violations_snoc simp del: issue.simps split: if_splits)
  next
    case False
    then show ?thesis
      using assms(2) not_allocating [of x es i]
      by (simp add: issues(1,2) abort_inv_def noted_violations_snoc issued_scope)
  qed
next
  case (aborts i n)
  then have "(i, n) \<in> set (noted_violations es)" using largest_okD(3) [OF assms(4), of i] by simp
  then show ?thesis using aborts assms(2) by (auto simp: abort_inv_def noted_violations_snoc)
qed (use assms(2) in \<open>auto simp: abort_inv_def noted_violations_snoc set_thread_def\<close>)

lemma guard_process_inv:
  "guard_process_run buffer policy es s \<Longrightarrow> depths_inv es s \<and> largest_inv es s \<and> abort_inv buffer policy es s"
proof (induction rule: guard_process_run.induct)
  case guard_begin
  then show ?case
    by (simp add: depths_inv_def largest_ok_def abort_inv_def new_guard_process_def noted_violations_def balance_def)
next
  case (guard_next es s e s')
  then show ?case using depths_inv_step largest_inv_step abort_inv_step by blast
qed

section \<open>Alone\<close>

text \<open>
  A thread in the middle of a report finishes it by itself in five accesses, wherever the others
  stand, as long as the exchange fails only for a reason.
\<close>

fun report_left :: "u64 \<Rightarrow> report_at \<Rightarrow> nat" where
  "report_left L Outside = 0"
| "report_left L (Counted n) = 3"
| "report_left L (Comparing n p) = (if p < n \<and> p \<noteq> L then 3 else 2)"
| "report_left L (Deciding n) = 1"

fun next_access :: "nat \<Rightarrow> report_at \<Rightarrow> guard_event" where
  "next_access i (Counted n) = Loads i"
| "next_access i (Comparing n p) = Compares i False"
| "next_access i _ = Decides i"

lemma reports_alone:
  assumes "aborted s = None" and "report_is (guard_threads s i) \<noteq> Outside"
  shows "\<exists>s'. guard_process_step buffer s (next_access i (report_is (guard_threads s i))) s' \<and>
    (\<forall>j. j \<noteq> i \<longrightarrow> guard_threads s' j = guard_threads s j) \<and>
    (aborted s' \<noteq> None \<or>
     report_left (all_largest s') (report_is (guard_threads s' i)) < report_left (all_largest s) (report_is (guard_threads s i)))"
proof (cases "report_is (guard_threads s i)")
  case (Counted n)
  then show ?thesis using loads [OF assms(1) Counted, of buffer] by (intro exI conjI) (simp, simp_all add: set_thread_def)
next
  case (Comparing n p)
  consider "\<not> p < n" | "p < n" "all_largest s = p" | "p < n" "all_largest s \<noteq> p" by blast
  then show ?thesis
  proof cases
    case 1
    then show ?thesis
      using leaves_loop [OF assms(1) Comparing 1, of buffer False] Comparing
      by (intro exI conjI) (simp, simp_all add: set_thread_def)
  next
    case 2
    then show ?thesis
      using exchanges [OF assms(1) Comparing 2, of buffer] Comparing by (intro exI conjI) (simp, simp_all add: set_thread_def)
  next
    case 3
    then show ?thesis
      using fails [OF assms(1) Comparing 3(1), of False buffer] Comparing
      by (intro exI conjI) (simp, auto simp: set_thread_def)
  qed
next
  case (Deciding n)
  then show ?thesis
  proof (cases "all_policy s = kAbort")
    case True
    then show ?thesis using aborts [OF assms(1) Deciding True, of buffer] Deciding by (intro exI conjI) (simp, simp_all)
  next
    case False
    then show ?thesis
      using returns [OF assms(1) Deciding False, of buffer] Deciding by (intro exI conjI) (simp, simp_all add: set_thread_def)
  qed
qed (use assms(2) in simp)

text \<open>So from any state the thread is through with its report, or the process has ended, after at most three accesses.\<close>

lemma reports_finish:
  assumes "guard_process_run buffer policy es s" and "aborted s = None"
  shows "\<exists>fs s'. guard_process_run buffer policy (es @ fs) s' \<and> length fs \<le> report_left (all_largest s) (report_is (guard_threads s i)) \<and>
    (aborted s' \<noteq> None \<or> report_is (guard_threads s' i) = Outside)"
  using assms
proof (induction "report_left (all_largest s) (report_is (guard_threads s i))" arbitrary: es s rule: less_induct)
  case less
  show ?case
  proof (cases "report_is (guard_threads s i) = Outside")
    case True
    then show ?thesis using less.prems(1) by (intro exI [of _ "[]"] exI [of _ s]) simp
  next
    case False
    let ?e = "next_access i (report_is (guard_threads s i))"
    let ?left = "\<lambda>s. report_left (all_largest s) (report_is (guard_threads s i))"
    obtain u where u: "guard_process_step buffer s ?e u" "aborted u \<noteq> None \<or> ?left u < ?left s"
      using reports_alone [OF less.prems(2) False] by metis
    have pos: "0 < ?left s" using False by (cases "report_is (guard_threads s i)") auto
    have run: "guard_process_run buffer policy (es @ [?e]) u" by (rule guard_next [OF less.prems(1) u(1)])
    show ?thesis
    proof (cases "aborted u = None")
      case True
      then obtain fs s' where "guard_process_run buffer policy ((es @ [?e]) @ fs) s'" "length fs \<le> ?left u"
        "aborted s' \<noteq> None \<or> report_is (guard_threads s' i) = Outside"
        using less.hyps [OF _ run True] u(2) by blast
      then show ?thesis using u(2) True by (intro exI [of _ "?e # fs"] exI [of _ s']) simp
    next
      case False
      then show ?thesis using run pos by (intro exI [of _ "[?e]"] exI [of _ u]) simp
    qed
  qed
qed

section \<open>The operators\<close>

text \<open>
  Every form of \<open>new\<close> tells the guard the size it was asked for, exactly as the sanitizer's hook does, and asks
  the allocator for at least one byte.
\<close>

lemma every_form_noted:
  "case operator_new_form malloc aligned_alloc form m bytes g of
     NewAborts t \<Rightarrow> sanitizer_malloc_hook m bytes g = Aborts t
   | NewThrows g' \<Rightarrow> sanitizer_malloc_hook m bytes g = Continues g'
   | NewReturns p g' \<Rightarrow> sanitizer_malloc_hook m bytes g = Continues g'"
  by (cases form)
    (auto simp: sanitizer_malloc_hook_def operator_new_def operator_new_nothrow_def operator_new_aligned_def
      operator_new_aligned_nothrow_def split: guard_outcome.splits option.splits)

text \<open>
  Whatever form of \<open>new\<close> a block comes from, every form of \<open>delete\<close> releases it, and
  nothing else; a null pointer is ignored.
\<close>

lemma delete_releases: "operator_delete form p live = c_free p live"
  by (cases form) simp_all

fun live_after :: "new_outcome \<Rightarrow> u64 set \<Rightarrow> u64 set" where
  "live_after (NewReturns (Some p) g) live = insert p live"
| "live_after _ live = live"

lemma new_then_delete:
  assumes "operator_new_form malloc aligned_alloc nform m bytes g = NewReturns p g'" and "\<And>q. p = Some q \<Longrightarrow> q \<notin> live"
  shows "operator_delete dform p (live_after (operator_new_form malloc aligned_alloc nform m bytes g) live) = Some live"
  using assms(2) unfolding assms(1) by (cases p) (simp_all add: delete_releases)

text \<open>A second release of the same block is undefined.\<close>

lemma double_delete:
  "operator_delete form (Some q) live = Some live' \<Longrightarrow> operator_delete form' (Some q) live' = None"
  by (auto simp: delete_releases split: if_splits)

section \<open>Properties\<close>

text \<open>
  C29. The guard is exact across threads: in every interleaving of the accesses of any number of
  threads, the count is the number of violations, those of a thread are the ones of its own scopes
  and allocations, and when no report is under way the largest size is the largest of them
  all, whichever exchanges failed; under \<open>kAbort\<close> no violation is left without the end of the
  process, whose message names the size of one.
\<close>

theorem guard_threads_exact:
  assumes "guard_process_run buffer policy es s" and "length buffer = 192"
  shows "all_violations s = of_nat (length (noted_violations es)) \<and>
    (\<forall>j. map snd (filter (\<lambda>x. fst x = j) (noted_violations es)) = violating (ops_of j es)) \<and>
    ((\<forall>i. report_is (guard_threads s i) = Outside) \<longrightarrow>
       all_largest s = Max (insert 0 (snd ` set (noted_violations es))) \<and>
       (policy = kAbort \<and> aborted s = None \<longrightarrow> noted_violations es = [])) \<and>
    (\<forall>txt. aborted s = Some txt \<longrightarrow> policy = kAbort \<and>
       (\<exists>i n. (i, n) \<in> set (noted_violations es) \<and> txt = violation_prefix @ decimal (unat n) @ violation_suffix))"
proof -
  have inv: "depths_inv es s" "largest_inv es s" "abort_inv buffer policy es s" using guard_process_inv [OF assms(1)] by blast+
  have "all_largest s = Max (insert 0 (snd ` set (noted_violations es)))" if out: "\<forall>i. report_is (guard_threads s i) = Outside"
  proof (rule Max_eqI [symmetric])
    show "n \<le> all_largest s" if "n \<in> insert 0 (snd ` set (noted_violations es))" for n
      using that largest_okD(1) [OF inv(2)] out by force
    show "all_largest s \<in> insert 0 (snd ` set (noted_violations es))" using largest_okD(4) [OF inv(2)] by simp
  qed simp
  moreover have "noted_violations es = []" if "\<forall>i. report_is (guard_threads s i) = Outside" "policy = kAbort" "aborted s = None"
    using inv(3) that by (cases "noted_violations es") (auto simp: abort_inv_def)
  ultimately show ?thesis
    using inv(1,3) noted_violations_of violation_message_text [OF assms(2)] by (simp add: depths_inv_def abort_inv_def)
qed

text \<open>
  Two threads race: the smaller size is counted first and loaded against an old value, its
  exchange fails, and the larger one stays.
\<close>

definition race :: "guard_event list" where
  "race = [Issues 0 EnterNoAlloc, Issues 1 EnterNoAlloc, Issues 0 (New 8), Issues 1 (New 64), Loads 0, Loads 1,
     Compares 1 False, Compares 0 False, Compares 0 False, Decides 0, Decides 1]"

theorem guard_threads_exact_witness:
  "\<exists>s. guard_process_run (replicate 192 CHR 0x41) kCount race s \<and> all_violations s = 2 \<and> all_largest s = 64"
proof -
  let ?b = "replicate 192 CHR 0x41"
  obtain s where s: "accesses ?b race (new_guard_process kCount) = Some s" "\<forall>i. report_is (guard_threads s i) = Outside"
    by (simp add: race_def new_guard_process_def set_thread_def Let_def)
  have run: "guard_process_run ?b kCount race s" by (rule accesses_run [OF s(1)])
  have "noted_violations race = [(0, 8), (1, 64)]"
    by (simp add: noted_violations_def race_def upt_rec nth_Cons ops_of_def guarded_def balance_def)
  then have "all_violations s = 2 \<and> all_largest s = Max {0, 8, 64}"
    using guard_threads_exact [OF run] s(2) by simp
  then show ?thesis using run by (intro exI [of _ s]) simp
qed

end
