(* ===== verification/Thread_Config.thy ===== *)
theory Thread_Config
  imports Prelude
begin

text \<open>
  Real-time thread configuration (\<open>include/safeedge/rt/thread_config.hpp\<close>,
  \<open>src/rt/thread_config.cpp\<close>), as compiled for Linux.  The system calls are a record
  of their answers, over which everything is universally quantified: a call may
  fail, succeed, or succeed and have no effect.
\<close>

section \<open>Model\<close>

datatype SchedulingPolicy = kDefault | kFifo | kRoundRobin

record ThreadConfig =
  policy :: SchedulingPolicy
  priority :: int
  cpu :: int
  lock_memory :: bool
  prefault_stack :: bool
  prefault_bytes :: u64

definition default_ThreadConfig :: ThreadConfig where
  "default_ThreadConfig =
     \<lparr>policy = kDefault, priority = 0, cpu = -1, lock_memory = False, prefault_stack = False,
      prefault_bytes = 512 * 1024\<rparr>"

record ThreadConfigReport =
  scheduling_applied :: bool
  affinity_applied :: bool
  memory_locked :: bool
  stack_prefaulted :: bool
  effective_policy :: int
  effective_priority :: int
  diagnostics :: string

definition new_ThreadConfigReport :: ThreadConfigReport where
  "new_ThreadConfigReport =
     \<lparr>scheduling_applied = False, affinity_applied = False, memory_locked = False,
      stack_prefaulted = False, effective_policy = 0, effective_priority = 0,
      diagnostics = replicate 512 (CHR 0x00)\<rparr>"

text \<open>
  The answers: \<open>pthread_setschedparam\<close> by policy and priority, what
  \<open>pthread_getschedparam\<close> reads back when it succeeds, \<open>pthread_setaffinity_np\<close> by
  the set asked for, the set \<open>pthread_getaffinity_np\<close> reads back, the \<open>errno\<close> of a
  failing \<open>mlockall\<close>, and the page size.
\<close>

record system =
  setschedparam :: "int \<Rightarrow> int \<Rightarrow> int"
  getschedparam :: "(int \<times> int) option"
  setaffinity :: "nat list \<Rightarrow> int"
  getaffinity :: "nat list option"
  mlockall :: "int option"
  sc_pagesize :: int

definition appendDiagnostic :: "string \<Rightarrow> string \<Rightarrow> string" where
  "appendDiagnostic buffer txt =
     (let used = length (c_string buffer);
          remaining = length buffer - used - 1
      in if remaining = 0 then buffer
         else
           let buffer =
             (if 0 < used \<and> 2 < remaining then
                copy_at (used + 2) (strncpy (remaining - 2) txt)
                  (buffer[used := CHR 0x3B, used + 1 := CHR 0x20])
              else copy_at used (strncpy remaining txt) buffer)
           in buffer[length buffer - 1 := CHR 0x00])"

text \<open>\<open>snprintf\<close> into a line of 192 bytes.\<close>

definition appendErrno :: "string \<Rightarrow> string \<Rightarrow> int \<Rightarrow> string" where
  "appendErrno buffer prefix error =
     appendDiagnostic buffer
       (take 191 (prefix @ '' failed (errno '' @ decimal_int error @ '')''))"

definition SCHED_OTHER :: int where
  "SCHED_OTHER = 0"

definition SCHED_FIFO :: int where
  "SCHED_FIFO = 1"

definition SCHED_RR :: int where
  "SCHED_RR = 2"

definition CPU_SETSIZE :: nat where
  "CPU_SETSIZE = 1024"

fun toPosixPolicy :: "SchedulingPolicy \<Rightarrow> int" where
  "toPosixPolicy kFifo = SCHED_FIFO"
| "toPosixPolicy kRoundRobin = SCHED_RR"
| "toPosixPolicy kDefault = SCHED_OTHER"

definition fullyApplied :: "ThreadConfigReport \<Rightarrow> bool" where
  "fullyApplied r \<longleftrightarrow> diagnostics r ! 0 = CHR 0x00"

definition what :: "ThreadConfigReport \<Rightarrow> string" where
  "what r = c_string (diagnostics r)"

text \<open>
  The answer and the \<open>sched_setscheduler\<close> calls made, in order, given the soft
  limit \<open>getrlimit\<close> reads, the current policy, and which calls succeed.
\<close>

definition realTimeSchedulingAvailable ::
  "u64 option \<Rightarrow> int \<Rightarrow> (int \<Rightarrow> int \<Rightarrow> int) \<Rightarrow> bool \<times> (int \<times> int) list" where
  "realTimeSchedulingAvailable rlimit_rtprio previous_policy setscheduler =
     (case rlimit_rtprio of
        Some rlim_cur \<Rightarrow>
          if 0 < rlim_cur then (True, [])
          else if setscheduler SCHED_FIFO 1 = 0 then
            (True, [(SCHED_FIFO, 1), (if previous_policy < 0 then SCHED_OTHER else previous_policy, 0)])
          else (False, [(SCHED_FIFO, 1)])
      | None \<Rightarrow>
          if setscheduler SCHED_FIFO 1 = 0 then
            (True, [(SCHED_FIFO, 1), (if previous_policy < 0 then SCHED_OTHER else previous_policy, 0)])
          else (False, [(SCHED_FIFO, 1)]))"

definition apply_scheduling ::
  "system \<Rightarrow> ThreadConfig \<Rightarrow> ThreadConfigReport \<Rightarrow> ThreadConfigReport \<times> bool" where
  "apply_scheduling sys config report =
     (if policy config = kDefault then (report\<lparr>scheduling_applied := True\<rparr>, True)
      else
        let rc = setschedparam sys (toPosixPolicy (policy config)) (priority config) in
        if rc = 0 then (report\<lparr>scheduling_applied := True\<rparr>, True)
        else (report\<lparr>diagnostics := appendErrno (diagnostics report) ''pthread_setschedparam'' rc\<rparr>, False))"

definition read_back ::
  "system \<Rightarrow> ThreadConfig \<Rightarrow> bool \<Rightarrow> ThreadConfigReport \<Rightarrow> ThreadConfigReport" where
  "read_back sys config set_call_succeeded report =
     (case getschedparam sys of
        None \<Rightarrow> report
      | Some (actual_policy, actual_priority) \<Rightarrow>
          let report = report\<lparr>effective_policy := actual_policy, effective_priority := actual_priority\<rparr> in
          if set_call_succeeded \<and> policy config \<noteq> kDefault \<and> actual_policy \<noteq> toPosixPolicy (policy config)
          then report\<lparr>scheduling_applied := False,
                      diagnostics := appendDiagnostic (diagnostics report)
                        ''scheduling policy did not take effect despite a successful call''\<rparr>
          else report)"

text \<open>\<open>CPU_SET\<close> and \<open>CPU_ISSET\<close> ignore a number outside the set's size.\<close>

definition CPU_SET :: "nat \<Rightarrow> nat list" where
  "CPU_SET n = (if n < CPU_SETSIZE then [n] else [])"

definition apply_affinity ::
  "system \<Rightarrow> ThreadConfig \<Rightarrow> ThreadConfigReport \<Rightarrow> ThreadConfigReport" where
  "apply_affinity sys config report =
     (if cpu config < 0 then report\<lparr>affinity_applied := True\<rparr>
      else
        let wanted = nat (cpu config);
            rc = setaffinity sys (CPU_SET wanted)
        in if rc \<noteq> 0
           then report\<lparr>diagnostics := appendErrno (diagnostics report) ''pthread_setaffinity_np'' rc\<rparr>
           else
             (case getaffinity sys of
                Some check \<Rightarrow>
                  if wanted < CPU_SETSIZE \<and> wanted \<in> set check \<and> length (remdups check) = 1
                  then report\<lparr>affinity_applied := True\<rparr>
                  else report\<lparr>diagnostics := appendDiagnostic (diagnostics report) ''cpu affinity did not take effect''\<rparr>
              | None \<Rightarrow>
                  report\<lparr>diagnostics := appendDiagnostic (diagnostics report) ''cpu affinity did not take effect''\<rparr>))"

definition apply_memory_lock ::
  "system \<Rightarrow> ThreadConfig \<Rightarrow> ThreadConfigReport \<Rightarrow> ThreadConfigReport" where
  "apply_memory_lock sys config report =
     (if \<not> lock_memory config then report\<lparr>memory_locked := True\<rparr>
      else
        (case mlockall sys of
           None \<Rightarrow> report\<lparr>memory_locked := True\<rparr>
         | Some errno \<Rightarrow> report\<lparr>diagnostics := appendErrno (diagnostics report) ''mlockall'' errno\<rparr>))"

text \<open>The offsets written; the page size is positive where the loop runs.\<close>

function touch_loop :: "nat \<Rightarrow> nat \<Rightarrow> nat \<Rightarrow> nat list" where
  "touch_loop page_size touch offset =
     (if 0 < page_size \<and> offset < touch then offset # touch_loop page_size touch (offset + page_size) else [])"
  by pat_completeness auto
termination
  by (relation "measure (\<lambda>(p, t, k). t - k)") auto

declare touch_loop.simps [simp del]

definition page_size_of :: "system \<Rightarrow> u64" where
  "page_size_of sys = (if 0 < sc_pagesize sys then word_of_int (sc_pagesize sys) else 4096)"

definition prefault_touches :: "system \<Rightarrow> ThreadConfig \<Rightarrow> nat list" where
  "prefault_touches sys config =
     (let page_size = page_size_of sys;
          pages = prefault_bytes config div page_size;
          touch = (if pages * page_size < 65536 then pages * page_size else 65536)
      in touch_loop (unat page_size) (unat touch) 0)"

definition apply_prefault ::
  "system \<Rightarrow> ThreadConfig \<Rightarrow> ThreadConfigReport \<Rightarrow> ThreadConfigReport \<times> nat list" where
  "apply_prefault sys config report =
     (if \<not> prefault_stack config then (report\<lparr>stack_prefaulted := True\<rparr>, [])
      else
        let pages = prefault_bytes config div page_size_of sys in
        if 0 < pages \<and> pages < 65536
        then (report\<lparr>stack_prefaulted := True\<rparr>, prefault_touches sys config)
        else (report\<lparr>diagnostics := appendDiagnostic (diagnostics report) ''prefault_bytes out of supported range''\<rparr>, []))"

text \<open>The report, and the offsets of the stack that were written.\<close>

definition applyThreadConfig :: "system \<Rightarrow> ThreadConfig \<Rightarrow> ThreadConfigReport \<times> nat list" where
  "applyThreadConfig sys config =
     (let report = new_ThreadConfigReport;
          (report, set_call_succeeded) = apply_scheduling sys config report;
          report = read_back sys config set_call_succeeded report;
          report = apply_affinity sys config report;
          report = apply_memory_lock sys config report
      in apply_prefault sys config report)"

section \<open>The diagnostics buffer\<close>

definition buf_ok :: "string \<Rightarrow> bool" where
  "buf_ok b \<longleftrightarrow> length b = 512 \<and> CHR 0x00 \<in> set b"

lemma buf_ok_used: "buf_ok b \<Longrightarrow> length (c_string b) \<le> 511"
proof -
  assume "buf_ok b"
  then obtain xs ys where "b = xs @ CHR 0x00 # ys" "CHR 0x00 \<notin> set xs"
    by (auto simp: buf_ok_def dest: split_list_first)
  then have "length (c_string b) < length b" by (simp add: c_string_terminated)
  then show ?thesis using \<open>buf_ok b\<close> by (simp add: buf_ok_def)
qed

lemma buf_ok_terminated: "length xs = 511 \<Longrightarrow> buf_ok (xs @ [CHR 0x00])"
  by (simp add: buf_ok_def)

text \<open>Text placed up to the last byte, which is cleared.\<close>

lemma fill_buffer:
  assumes "length b = 512" and "length xs \<le> 511" and "take (length xs) b = xs"
  shows "(copy_at (length xs) (strncpy (511 - length xs) t) b)[511 := CHR 0x00]
    = xs @ strncpy (511 - length xs) t @ [CHR 0x00]"
proof -
  obtain x where "drop 511 b = [x]"
    using assms(1) by (metis Cons_nth_drop_Suc drop_all lessI numeral_eq_Suc order_refl pred_numeral_simps(2,3) semiring_norm(26,27,28))
  then have "copy_at (length xs) (strncpy (511 - length xs) t) b = (xs @ strncpy (511 - length xs) t) @ [x]"
    using assms by (simp add: copy_at_def)
  moreover have "length (xs @ strncpy (511 - length xs) t) = 511" using assms(2) by simp
  ultimately show ?thesis by (metis append_assoc list_update_length)
qed

lemma appendDiagnostic_text:
  assumes ok: "buf_ok b" and nul: "CHR 0x00 \<notin> set t"
  shows "buf_ok (appendDiagnostic b t) \<and> c_string (appendDiagnostic b t) =
    (let c = c_string b in
     if c \<noteq> [] \<and> length c < 509 then take 511 (c @ ''; '' @ t) else take 511 (c @ t))"
proof -
  let ?c = "c_string b"
  have len: "length b = 512" "length ?c \<le> 511" using ok buf_ok_used by (auto simp: buf_ok_def)
  consider (full) "length ?c = 511" | (sep) "?c \<noteq> []" "length ?c < 509"
    | (plain) "\<not> (?c \<noteq> [] \<and> length ?c < 509)" "length ?c < 511"
    using len by linarith
  then show ?thesis
  proof cases
    case full
    then show ?thesis using ok len by (auto simp: appendDiagnostic_def Let_def)
  next
    case sep
    let ?xs = "?c @ ''; ''" and ?b = "b[length ?c := CHR 0x3B, Suc (length ?c) := CHR 0x20]"
    have take: "take (length ?xs) ?b = ?xs"
      using sep len c_string_prefix [of b] by (simp add: take_Suc_conv_app_nth)
    have "2 < 511 - length ?c" using sep by linarith
    then have app: "appendDiagnostic b t = ?xs @ strncpy (511 - length ?xs) t @ [CHR 0x00]"
      using fill_buffer [of ?b ?xs t] take sep len
      by (simp add: appendDiagnostic_def Let_def copy_at_def del: append_assoc)
    have "CHR 0x00 \<notin> set ?xs" using c_string_no_nul by simp
    moreover have "take (511 - length ?c) (''; '' @ t) = ''; '' @ take (509 - length ?c) t"
      using sep by (simp add: take_Cons' )
    ultimately show ?thesis
      using c_string_strncpy [of ?xs t "511 - length ?xs"] nul sep buf_ok_terminated [of "?xs @ strncpy (511 - length ?xs) t"] by (simp add: app Let_def)
  next
    case plain
    have app: "appendDiagnostic b t = ?c @ strncpy (511 - length ?c) t @ [CHR 0x00]"
      using fill_buffer [of b ?c t] plain len c_string_prefix [of b]
      by (auto simp: appendDiagnostic_def Let_def copy_at_def)
    from c_string_strncpy [OF c_string_no_nul nul, of b "511 - length ?c"] show ?thesis
      using plain buf_ok_terminated [of "?c @ strncpy (511 - length ?c) t"] by (auto simp: app Let_def)
  qed
qed

lemma appendDiagnostic_ok: "buf_ok b \<Longrightarrow> CHR 0x00 \<notin> set t \<Longrightarrow> buf_ok (appendDiagnostic b t)"
  by (simp add: appendDiagnostic_text)

lemma appendDiagnostic_nonempty:
  assumes "buf_ok b" and "CHR 0x00 \<notin> set t" and "t \<noteq> []"
  shows "c_string (appendDiagnostic b t) \<noteq> []"
  using appendDiagnostic_text [OF assms(1,2)] assms(3) by (auto simp: Let_def)

lemma decimal_int_no_nul: "CHR 0x00 \<notin> set (decimal_int i)"
  using decimal_digits [of "CHR 0x00"] by (auto simp: decimal_int_def)

lemma appendErrno_ok:
  assumes "buf_ok b" and "CHR 0x00 \<notin> set prefix"
  shows "buf_ok (appendErrno b prefix e) \<and> c_string (appendErrno b prefix e) \<noteq> []"
proof -
  let ?t = "take 191 (prefix @ '' failed (errno '' @ decimal_int e @ '')'')"
  have t: "CHR 0x00 \<notin> set ?t" "?t \<noteq> []"
    using assms(2) decimal_int_no_nul by (auto dest!: in_set_takeD)
  show ?thesis
    using appendDiagnostic_ok [OF assms(1) t(1)] appendDiagnostic_nonempty [OF assms(1) t]
    by (simp add: appendErrno_def)
qed

section \<open>Each stage reports its own failure\<close>

definition clean :: "ThreadConfigReport \<Rightarrow> bool" where
  "clean r \<longleftrightarrow> c_string (diagnostics r) = []"

lemma fullyApplied_clean: "buf_ok (diagnostics r) \<Longrightarrow> fullyApplied r = clean r"
  by (cases "diagnostics r") (auto simp: fullyApplied_def clean_def c_string_def buf_ok_def)

lemmas stage_simps = clean_def appendErrno_ok appendDiagnostic_ok appendDiagnostic_nonempty Let_def

text \<open>What has to hold of the system's answers for each request to have taken effect.\<close>

definition scheduling_in_force :: "system \<Rightarrow> ThreadConfig \<Rightarrow> bool" where
  "scheduling_in_force sys config \<longleftrightarrow>
     policy config = kDefault \<or>
     setschedparam sys (toPosixPolicy (policy config)) (priority config) = 0 \<and>
     (case getschedparam sys of None \<Rightarrow> True | Some (a, q) \<Rightarrow> a = toPosixPolicy (policy config))"

definition affinity_in_force :: "system \<Rightarrow> ThreadConfig \<Rightarrow> bool" where
  "affinity_in_force sys config \<longleftrightarrow>
     cpu config < 0 \<or>
     cpu config < 1024 \<and> setaffinity sys [nat (cpu config)] = 0 \<and>
     (case getaffinity sys of None \<Rightarrow> False | Some check \<Rightarrow> set check = {nat (cpu config)})"

definition lock_in_force :: "system \<Rightarrow> ThreadConfig \<Rightarrow> bool" where
  "lock_in_force sys config \<longleftrightarrow> lock_memory config \<longrightarrow> mlockall sys = None"

definition prefault_in_range :: "system \<Rightarrow> ThreadConfig \<Rightarrow> bool" where
  "prefault_in_range sys config \<longleftrightarrow>
     (prefault_stack config \<longrightarrow>
        (let pages = prefault_bytes config div page_size_of sys in 0 < pages \<and> pages < 65536))"

lemma singleton_check: "wanted \<in> set check \<and> length (remdups check) = 1 \<longleftrightarrow> set check = {wanted}"
  by (metis card_1_singletonE card_1_singleton_iff length_remdups_card_conv One_nat_def singletonD singletonI)

text \<open>The flags a stage does not own, and the ones it still has to set.\<close>

definition flags :: "ThreadConfigReport \<Rightarrow> bool \<times> bool \<times> bool \<times> bool" where
  "flags r = (scheduling_applied r, affinity_applied r, memory_locked r, stack_prefaulted r)"

lemma scheduling_stage:
  assumes "apply_scheduling sys config new_ThreadConfigReport = (r, b)" and "r' = read_back sys config b r"
  shows "buf_ok (diagnostics r') \<and> clean r' = scheduling_in_force sys config \<and>
    flags r' = (scheduling_in_force sys config, False, False, False)"
proof -
  have new: "buf_ok (diagnostics new_ThreadConfigReport)" "c_string (diagnostics new_ThreadConfigReport) = []"
    "flags new_ThreadConfigReport = (False, False, False, False)"
    by (simp_all add: buf_ok_def new_ThreadConfigReport_def c_string_def flags_def takeWhile_replicate)
  have r: "buf_ok (diagnostics r)" "clean r = b" "flags r = (b, False, False, False)"
      "b = (policy config = kDefault \<or> setschedparam sys (toPosixPolicy (policy config)) (priority config) = 0)"
    using assms(1) new by (auto simp: apply_scheduling_def stage_simps flags_def split: if_splits)
  then show ?thesis
    unfolding assms(2)
    by (auto simp: read_back_def scheduling_in_force_def stage_simps flags_def split: option.splits)
qed

lemma affinity_stage:
  assumes "buf_ok (diagnostics r)" and "flags r = (s, False, m, p)"
  shows "let r' = apply_affinity sys config r in
    buf_ok (diagnostics r') \<and> clean r' = (clean r \<and> affinity_in_force sys config) \<and>
    flags r' = (s, affinity_in_force sys config, m, p)"
proof -
  let ?n = "nat (cpu config)"
  consider (off) "cpu config < 0" | (failed) "0 \<le> cpu config" "setaffinity sys (CPU_SET ?n) \<noteq> 0"
    | (set) "0 \<le> cpu config" "setaffinity sys (CPU_SET ?n) = 0"
    by linarith
  then show ?thesis
  proof cases
    case set
    have eq: "apply_affinity sys config r =
      (if affinity_in_force sys config then r\<lparr>affinity_applied := True\<rparr>
       else r\<lparr>diagnostics := appendDiagnostic (diagnostics r) ''cpu affinity did not take effect''\<rparr>)"
    proof (cases "getaffinity sys")
      case (Some check)
      have "(?n < CPU_SETSIZE \<and> ?n \<in> set check \<and> length (remdups check) = 1) = affinity_in_force sys config"
        using set Some singleton_check [of ?n check]
        by (auto simp: affinity_in_force_def CPU_SET_def CPU_SETSIZE_def simp del: length_remdups_card_conv)
      with set Some show ?thesis by (simp add: apply_affinity_def Let_def del: One_nat_def)
    qed (use set in \<open>simp add: apply_affinity_def affinity_in_force_def\<close>)
    show ?thesis
      unfolding eq using assms by (simp add: stage_simps flags_def)
  next
    case off
    then show ?thesis
      using assms by (simp add: apply_affinity_def affinity_in_force_def clean_def flags_def)
  next
    case failed
    then have "\<not> affinity_in_force sys config"
      by (cases "cpu config < 1024") (simp_all add: affinity_in_force_def CPU_SET_def CPU_SETSIZE_def nat_less_iff)
    with failed show ?thesis
      using assms appendErrno_ok [OF assms(1), of "''pthread_setaffinity_np''"]
      by (simp add: apply_affinity_def clean_def flags_def Let_def)
  qed
qed

lemma memory_lock_stage:
  assumes "buf_ok (diagnostics r)" and "flags r = (s, a, False, p)"
  shows "let r' = apply_memory_lock sys config r in
    buf_ok (diagnostics r') \<and> clean r' = (clean r \<and> lock_in_force sys config) \<and>
    flags r' = (s, a, lock_in_force sys config, p)"
  using assms
  by (auto simp: apply_memory_lock_def lock_in_force_def stage_simps flags_def split: option.splits)

lemma prefault_stage:
  assumes "buf_ok (diagnostics r)" and "flags r = (s, a, m, False)"
  shows "let r' = fst (apply_prefault sys config r) in
    buf_ok (diagnostics r') \<and> clean r' = (clean r \<and> prefault_in_range sys config) \<and>
    flags r' = (s, a, m, prefault_in_range sys config)"
  using assms by (auto simp: apply_prefault_def prefault_in_range_def stage_simps flags_def)

lemma applyThreadConfig_flags:
  "let r = fst (applyThreadConfig sys config) in
   flags r = (scheduling_in_force sys config, affinity_in_force sys config, lock_in_force sys config,
     prefault_in_range sys config) \<and>
   fullyApplied r = (scheduling_in_force sys config \<and> affinity_in_force sys config \<and>
     lock_in_force sys config \<and> prefault_in_range sys config)"
proof -
  obtain r b where r: "apply_scheduling sys config new_ThreadConfigReport = (r, b)" by fastforce
  define s1 where "s1 = read_back sys config b r"
  define s2 where "s2 = apply_affinity sys config s1"
  define s3 where "s3 = apply_memory_lock sys config s2"
  define s4 where "s4 = fst (apply_prefault sys config s3)"
  have 1: "buf_ok (diagnostics s1)" "clean s1 = scheduling_in_force sys config"
      "flags s1 = (scheduling_in_force sys config, False, False, False)"
    using scheduling_stage [OF r s1_def] by blast+
  have 2: "buf_ok (diagnostics s2)" "clean s2 = (clean s1 \<and> affinity_in_force sys config)"
      "flags s2 = (scheduling_in_force sys config, affinity_in_force sys config, False, False)"
    using affinity_stage [OF 1(1,3), of sys config] unfolding Let_def s2_def by blast+
  have 3: "buf_ok (diagnostics s3)" "clean s3 = (clean s2 \<and> lock_in_force sys config)"
      "flags s3 = (scheduling_in_force sys config, affinity_in_force sys config, lock_in_force sys config, False)"
    using memory_lock_stage [OF 2(1,3), of sys config] unfolding Let_def s3_def by blast+
  have 4: "buf_ok (diagnostics s4)" "clean s4 = (clean s3 \<and> prefault_in_range sys config)"
      "flags s4 = (scheduling_in_force sys config, affinity_in_force sys config, lock_in_force sys config,
        prefault_in_range sys config)"
    using prefault_stage [OF 3(1,3), of sys config] unfolding Let_def s4_def by blast+
  have "fst (applyThreadConfig sys config) = s4"
    by (simp add: applyThreadConfig_def r Let_def s1_def s2_def s3_def s4_def)
  then show ?thesis
    using 1(2) 2(2) 3(2) 4 by (simp add: Let_def fullyApplied_clean)
qed

section \<open>What the probe and the prefault leave behind\<close>

lemma touch_loop_bound: "x \<in> set (touch_loop p n k) \<Longrightarrow> x < n"
proof (induction p n k rule: touch_loop.induct)
  case (1 p n k)
  then show ?case by (subst (asm) (2) touch_loop.simps) (auto split: if_splits)
qed

text \<open>However many bytes are asked for, only the first 64 KiB below the frame are touched.\<close>

lemma prefault_at_most_64K:
  assumes "applyThreadConfig sys config = (r, touched)" and "x \<in> set touched"
  shows "x < 65536"
proof -
  have "x \<in> set (prefault_touches sys config)"
    using assms by (auto simp: applyThreadConfig_def apply_prefault_def Let_def split: prod.splits if_splits)
  then have "x < unat (if prefault_bytes config div page_size_of sys * page_size_of sys < 65536
      then prefault_bytes config div page_size_of sys * page_size_of sys else 65536)"
    by (auto simp: prefault_touches_def Let_def dest!: touch_loop_bound)
  then show ?thesis by (auto simp: word_less_nat_alt split: if_splits)
qed

text \<open>A probe made under a real-time policy asks to go back to it with priority 0.\<close>

lemma probe_restores_priority_zero:
  "realTimeSchedulingAvailable (Some 0) SCHED_FIFO (\<lambda>p q. if q = 0 \<and> p = SCHED_FIFO then -1 else 0)
   = (True, [(SCHED_FIFO, 1), (SCHED_FIFO, 0)])"
  by (simp add: realTimeSchedulingAvailable_def SCHED_FIFO_def)

section \<open>Properties\<close>


text \<open>A system that grants everything but the affinity, which it accepts and ignores.\<close>

definition ignoring_system :: system where
  "ignoring_system =
     \<lparr>setschedparam = \<lambda>p q. 0, getschedparam = Some (1, 80), setaffinity = \<lambda>s. 0, getaffinity = Some [0, 1],
      mlockall = None, sc_pagesize = 4096\<rparr>"


end
