(* ===== verification/Cyclic_Executor.thy ===== *)
theory Cyclic_Executor
  imports Latency_Histogram No_Alloc_Guard Thread_Config "HOL-Library.While_Combinator" "HOL-Library.Signed_Division"
begin

text \<open>
  The fixed-period execution loop (\<open>include/safeedge/rt/cyclic_executor.hpp\<close>,
  \<open>src/rt/cyclic_executor.cpp\<close>).  Clock readings, the return codes of
  \<open>clock_nanosleep\<close> and the stop requests of other threads are an environment, one
  record per iteration, over which everything is quantified; the callback is a
  function that may allocate and may request a stop.  A call that does not return,
  because a loop does not end or because the allocation guard aborts the process,
  is \<open>None\<close>.
\<close>

section \<open>Model\<close>

datatype OverrunPolicy = kSkipMissed | kRunLate

record CycleContext =
  ctx_index :: u64
  ctx_wakeup_jitter_ns :: int
  ctx_period_ns :: int

record ExecutorStats =
  cycles_executed :: u64
  overruns :: u64
  skipped_cycles :: u64
  allocation_violations :: u64
  wakeup_jitter :: LatencyHistogram
  execution_time :: LatencyHistogram
  cycle_total :: LatencyHistogram

definition new_ExecutorStats :: ExecutorStats where
  "new_ExecutorStats =
     \<lparr>cycles_executed = 0, overruns = 0, skipped_cycles = 0, allocation_violations = 0,
      wakeup_jitter = new_LatencyHistogram, execution_time = new_LatencyHistogram,
      cycle_total = new_LatencyHistogram\<rparr>"

record ExecutorConfig =
  period :: int
  thread :: ThreadConfig
  overrun_policy :: OverrunPolicy
  guard_allocations :: bool

definition default_ExecutorConfig :: ExecutorConfig where
  "default_ExecutorConfig =
     \<lparr>period = 1000000, thread = default_ThreadConfig, overrun_policy = kSkipMissed,
      guard_allocations = True\<rparr>"

record CyclicExecutor =
  exec_config :: ExecutorConfig
  exec_stats :: ExecutorStats
  stop_requested :: bool

definition new_CyclicExecutor :: "ExecutorConfig \<Rightarrow> CyclicExecutor" where
  "new_CyclicExecutor config = \<lparr>exec_config = config, exec_stats = new_ExecutorStats, stop_requested = False\<rparr>"

definition requestStop :: "CyclicExecutor \<Rightarrow> CyclicExecutor" where
  "requestStop e = e\<lparr>stop_requested := True\<rparr>"

definition stopRequested :: "CyclicExecutor \<Rightarrow> bool" where
  "stopRequested e = stop_requested e"

definition configureCallingThread :: "system \<Rightarrow> CyclicExecutor \<Rightarrow> ThreadConfigReport" where
  "configureCallingThread sys e = fst (applyThreadConfig sys (thread (exec_config e)))"

definition kNanosPerSecond :: int where
  "kNanosPerSecond = 1000000000"

record timespec =
  tv_sec :: int
  tv_nsec :: int

definition toNanos :: "timespec \<Rightarrow> int" where
  "toNanos ts = tv_sec ts * kNanosPerSecond + tv_nsec ts"

definition fromNanos :: "int \<Rightarrow> timespec" where
  "fromNanos nanos = \<lparr>tv_sec = nanos sdiv kNanosPerSecond, tv_nsec = nanos smod kNanosPerSecond\<rparr>"

definition EINTR :: int where
  "EINTR = 4"

text \<open>
  \<open>rcs n\<close> is what the \<open>n\<close>-th call of \<open>clock_nanosleep\<close> returns; the result is the
  number of the call that ended the wait.
\<close>

partial_function (option) sleepUntil :: "(nat \<Rightarrow> int) \<Rightarrow> nat \<Rightarrow> nat option" where
  "sleepUntil rcs n =
     (if rcs n = 0 then Some n
      else if rcs n \<noteq> EINTR then Some n
      else sleepUntil rcs (Suc n))"

definition stats_reset :: "ExecutorStats \<Rightarrow> ExecutorStats" where
  "stats_reset s =
     s\<lparr>cycles_executed := 0, overruns := 0, skipped_cycles := 0, allocation_violations := 0,
       wakeup_jitter := hist_reset (wakeup_jitter s),
       execution_time := hist_reset (execution_time s),
       cycle_total := hist_reset (cycle_total s)\<rparr>"

definition resetStats :: "CyclicExecutor \<Rightarrow> CyclicExecutor" where
  "resetStats e = e\<lparr>exec_stats := stats_reset (exec_stats e)\<rparr>"

text \<open>What the world does to one iteration.\<close>

record cycle_env =
  stop_seen :: bool
  nanosleep :: "timespec \<Rightarrow> nat \<Rightarrow> int"
  woke_at :: timespec
  finished_at :: timespec

text \<open>
  A callback sees the context and, through \<open>stats()\<close>, the statistics so far; its
  result is its new state, the sizes it allocates in order, and whether it requests a stop.
\<close>

type_synonym 'a callback = "CycleContext \<Rightarrow> ExecutorStats \<Rightarrow> 'a \<Rightarrow> 'a \<times> u64 list \<times> bool"

record 'a run_state =
  deadline_ns :: int
  loop_index :: u64
  executor :: CyclicExecutor
  user :: 'a
  guard :: alloc_guard

text \<open>
  The replaced \<open>operator new\<close> is there only where the guard is linked in.
\<close>

definition callback_allocations :: "u64 list \<Rightarrow> alloc_guard \<Rightarrow> alloc_guard option" where
  "callback_allocations sizes g =
     (if guardIsInstalled g then
        (case guard_run (replicate 192 (CHR 0x00)) (map New sizes) g of Continues g' \<Rightarrow> Some g' | Aborts m \<Rightarrow> None)
      else Some g)"

definition invoke_callback ::
  "'a callback \<Rightarrow> bool \<Rightarrow> CycleContext \<Rightarrow> 'a run_state \<Rightarrow> 'a run_state option" where
  "invoke_callback callback guarded_scope context s =
     (let (u, sizes, stop) = callback context (exec_stats (executor s)) (user s);
          e = (if stop then requestStop (executor s) else executor s)
      in if guarded_scope then
           map_option (\<lambda>g. s\<lparr>user := u, executor := e, guard := leaveNoAlloc g\<rparr>)
             (callback_allocations sizes (enterNoAlloc (guard s)))
         else
           map_option (\<lambda>g. s\<lparr>user := u, executor := e, guard := g\<rparr>)
             (callback_allocations sizes (guard s)))"

text \<open>The loop that skips the missed deadlines.\<close>

definition skip_missed :: "int \<Rightarrow> int \<Rightarrow> int \<Rightarrow> u64 \<Rightarrow> (int \<times> u64) option" where
  "skip_missed period_ns finished_ns deadline skipped =
     while_option (\<lambda>(d, n). d \<le> finished_ns) (\<lambda>(d, n). (d + period_ns, n + 1)) (deadline, skipped)"

definition on_stats :: "(ExecutorStats \<Rightarrow> ExecutorStats) \<Rightarrow> 'a run_state \<Rightarrow> 'a run_state" where
  "on_stats f s = s\<lparr>executor := (executor s)\<lparr>exec_stats := f (exec_stats (executor s))\<rparr>\<rparr>"

definition account_overrun :: "int \<Rightarrow> int \<Rightarrow> 'a run_state \<Rightarrow> 'a run_state option" where
  "account_overrun period_ns finished_ns s =
     (let s = s\<lparr>deadline_ns := deadline_ns s + period_ns\<rparr> in
      if deadline_ns s \<le> finished_ns then
        let s = on_stats (\<lambda>t. t\<lparr>overruns := overruns t + 1\<rparr>) s in
        if overrun_policy (exec_config (executor s)) = kSkipMissed then
          map_option (\<lambda>(d, n). on_stats (\<lambda>t. t\<lparr>skipped_cycles := n\<rparr>) (s\<lparr>deadline_ns := d\<rparr>))
            (skip_missed period_ns finished_ns (deadline_ns s) (skipped_cycles (exec_stats (executor s))))
        else Some s
      else Some s)"

definition record_wakeup :: "int \<Rightarrow> 'a run_state \<Rightarrow> 'a run_state" where
  "record_wakeup jitter_ns = on_stats (\<lambda>t. t\<lparr>wakeup_jitter := hrecord (wakeup_jitter t) jitter_ns\<rparr>)"

definition record_finish :: "int \<Rightarrow> int \<Rightarrow> 'a run_state \<Rightarrow> 'a run_state" where
  "record_finish woke_ns finished_ns s =
     on_stats (\<lambda>t. t\<lparr>execution_time := hrecord (execution_time t) (finished_ns - woke_ns),
                      cycle_total := hrecord (cycle_total t) (finished_ns - deadline_ns s),
                      cycles_executed := cycles_executed t + 1\<rparr>) s"

definition run_cycle :: "'a callback \<Rightarrow> cycle_env \<Rightarrow> 'a run_state \<Rightarrow> 'a run_state option" where
  "run_cycle callback env s =
     Option.bind (sleepUntil (nanosleep env (fromNanos (deadline_ns s))) 0) (\<lambda>_.
       let period_ns = period (exec_config (executor s));
           woke_ns = toNanos (woke_at env);
           jitter_ns = woke_ns - deadline_ns s;
           context = \<lparr>ctx_index = loop_index s, ctx_wakeup_jitter_ns = jitter_ns, ctx_period_ns = period_ns\<rparr>
       in Option.bind
            (invoke_callback callback (guard_allocations (exec_config (executor s))) context (record_wakeup jitter_ns s))
            (\<lambda>s. let finished_ns = toNanos (finished_at env)
                 in account_overrun period_ns finished_ns (record_finish woke_ns finished_ns s)))"

definition observe_stop :: "cycle_env \<Rightarrow> 'a run_state \<Rightarrow> 'a run_state" where
  "observe_stop env s = (if stop_seen env then s\<lparr>executor := requestStop (executor s)\<rparr> else s)"

text \<open>The loop; \<open>k\<close> counts the iterations, which \<open>loop_index\<close> does modulo \<open>2 ^ 64\<close>.\<close>

partial_function (option) run_loop ::
  "'a callback \<Rightarrow> u64 \<Rightarrow> (nat \<Rightarrow> cycle_env) \<Rightarrow> nat \<Rightarrow> 'a run_state \<Rightarrow> 'a run_state option" where
  "run_loop callback max_cycles envs k s =
     (if max_cycles = 0 \<or> loop_index s < max_cycles then
        let s = observe_stop (envs k) s in
        if stopRequested (executor s) then Some s
        else
          Option.bind (run_cycle callback (envs k) s) (\<lambda>s.
            run_loop callback max_cycles envs (Suc k) (s\<lparr>loop_index := loop_index s + 1\<rparr>))
      else Some s)"

definition start_state :: "timespec \<Rightarrow> CyclicExecutor \<Rightarrow> 'a \<Rightarrow> alloc_guard \<Rightarrow> 'a run_state" where
  "start_state started e u g =
     \<lparr>deadline_ns = toNanos started + period (exec_config e), loop_index = 0,
      executor = e\<lparr>stop_requested := False\<rparr>, user = u, guard = g\<rparr>"

definition run ::
  "'a callback \<Rightarrow> u64 \<Rightarrow> timespec \<Rightarrow> (nat \<Rightarrow> cycle_env) \<Rightarrow> CyclicExecutor \<times> 'a \<times> alloc_guard \<Rightarrow>
   (CyclicExecutor \<times> 'a \<times> alloc_guard) option" where
  "run callback max_cycles started envs = (\<lambda>(e, u, g).
     if period (exec_config e) \<le> 0 then Some (e, u, g)
     else
       let violations_at_start = violations (allocationReport g) in
       map_option
         (\<lambda>s. let s = on_stats (\<lambda>t. t\<lparr>allocation_violations :=
                        violations (allocationReport (guard s)) - violations_at_start\<rparr>) s
              in (executor s, user s, guard s))
         (run_loop callback max_cycles envs 0 (start_state started e u g)))"

section \<open>Time\<close>

lemma fromNanos_toNanos: "toNanos (fromNanos n) = n"
  by (simp add: toNanos_def fromNanos_def sdiv_mult_smod_eq)

lemma fromNanos_normalised:
  assumes "0 \<le> n"
  shows "0 \<le> tv_sec (fromNanos n) \<and> 0 \<le> tv_nsec (fromNanos n) \<and> tv_nsec (fromNanos n) < 1000000000"
  using assms
  by (auto simp: fromNanos_def kNanosPerSecond_def signed_divide_int_def signed_modulo_int_def sgn_if)

lemma sleepUntil_ends:
  "rcs (n + j) \<noteq> EINTR \<Longrightarrow> \<exists>m. sleepUntil rcs n = Some m"
proof (induction j arbitrary: n)
  case 0
  then show ?case by (subst sleepUntil.simps) simp
next
  case (Suc j)
  then show ?case by (subst sleepUntil.simps) simp
qed

section \<open>The schedule\<close>

text \<open>
  The specification of the deadlines: a missed deadline is one that has gone by
  when a cycle finishes, and the next deadline is the first one left.
\<close>

definition missed :: "OverrunPolicy \<Rightarrow> int \<Rightarrow> int \<Rightarrow> int \<Rightarrow> nat" where
  "missed pol p f d = (if pol = kSkipMissed \<and> d + p \<le> f then Suc (nat ((f - (d + p)) div p)) else 0)"

fun schedule :: "OverrunPolicy \<Rightarrow> int \<Rightarrow> int \<Rightarrow> (nat \<Rightarrow> int) \<Rightarrow> nat \<Rightarrow> int" where
  "schedule pol p d f 0 = d"
| "schedule pol p d f (Suc k) =
     schedule pol p d f k + p * (1 + int (missed pol p (f k) (schedule pol p d f k)))"

definition missed_before :: "OverrunPolicy \<Rightarrow> int \<Rightarrow> int \<Rightarrow> (nat \<Rightarrow> int) \<Rightarrow> nat \<Rightarrow> nat" where
  "missed_before pol p d f n = (\<Sum>k<n. missed pol p (f k) (schedule pol p d f k))"

definition overrun_before :: "OverrunPolicy \<Rightarrow> int \<Rightarrow> int \<Rightarrow> (nat \<Rightarrow> int) \<Rightarrow> nat \<Rightarrow> nat" where
  "overrun_before pol p d f n = card {k. k < n \<and> schedule pol p d f k + p \<le> f k}"

lemma missed_before_Suc [simp]:
  "missed_before pol p d f 0 = 0"
  "missed_before pol p d f (Suc n) = missed_before pol p d f n + missed pol p (f n) (schedule pol p d f n)"
  by (simp_all add: missed_before_def)

lemma overrun_before_Suc [simp]:
  "overrun_before pol p d f 0 = 0"
  "overrun_before pol p d f (Suc n) =
     overrun_before pol p d f n + (if schedule pol p d f n + p \<le> f n then 1 else 0)"
proof -
  have "{k. k < Suc n \<and> schedule pol p d f k + p \<le> f k} =
    {k. k < n \<and> schedule pol p d f k + p \<le> f k} \<union> (if schedule pol p d f n + p \<le> f n then {n} else {})"
    by (auto simp: less_Suc_eq)
  then show "overrun_before pol p d f (Suc n) =
     overrun_before pol p d f n + (if schedule pol p d f n + p \<le> f n then 1 else 0)"
    by (simp add: overrun_before_def)
qed (simp add: overrun_before_def)

text \<open>Drift-free: every deadline is a whole number of periods after the first.\<close>

lemma schedule_grid: "schedule pol p d f n = d + p * (int n + int (missed_before pol p d f n))"
  by (induction n) (simp_all add: algebra_simps)

lemma schedule_lower: "0 \<le> p \<Longrightarrow> d \<le> schedule pol p d f n"
  by (simp add: schedule_grid)

lemma missed_window:
  assumes "0 < p" and "pol = kSkipMissed" and "d + p \<le> f"
  shows "f < d + p * (1 + int (missed pol p f d)) \<and> d + p * int (missed pol p f d) \<le> f"
proof -
  define q where "q = (f - (d + p)) div p"
  have "0 \<le> q" using assms by (simp add: q_def pos_imp_zdiv_nonneg_iff)
  have "f - (d + p) = p * q + (f - (d + p)) mod p"
    unfolding q_def by (rule mult_div_mod_eq [symmetric])
  then have "p * q \<le> f - (d + p)" "f - (d + p) < p * q + p"
    using pos_mod_sign [OF assms(1), of "f - (d + p)"] pos_mod_bound [OF assms(1), of "f - (d + p)"] by linarith+
  then show ?thesis
    using assms \<open>0 \<le> q\<close> by (simp add: missed_def q_def [symmetric] algebra_simps)
qed

lemma missed_none: "f < d + p \<Longrightarrow> missed pol p f d = 0" "missed kRunLate p f d = 0"
  by (simp_all add: missed_def)

lemma schedule_after_finish:
  assumes "0 < p" and "pol = kSkipMissed"
  shows "f n < schedule pol p d f (Suc n)"
  using missed_window [OF assms, of "schedule pol p d f n" "f n"] missed_none(1) [of "f n" "schedule pol p d f n" p pol]
  by (cases "schedule pol p d f n + p \<le> f n") auto

section \<open>One cycle\<close>

lemma skip_missed_past: "f < d \<Longrightarrow> skip_missed p f d n = Some (d, n)"
  by (simp add: skip_missed_def while_option_unfold)

lemma skip_missed_step: "d \<le> f \<Longrightarrow> skip_missed p f d n = skip_missed p f (d + p) (n + 1)"
  by (simp add: skip_missed_def while_option_unfold [of _ _ "(d, n)"])

lemma skip_missed_result:
  assumes "0 < p" and "d \<le> f"
  shows "skip_missed p f d n =
    (let m = Suc (nat ((f - d) div p)) in Some (d + p * int m, n + of_nat m))"
  using assms(2)
proof (induction "nat ((f - d) div p)" arbitrary: d n)
  case 0
  then have "(f - d) div p \<le> 0" by simp
  then have "f - d < p" using assms(1) by (metis linorder_not_le pos_imp_zdiv_pos_iff)
  then show ?case using 0 skip_missed_step [of d f p n] skip_missed_past [of f "d + p" p "n + 1"] by simp
next
  case (Suc j)
  then have "p \<le> f - d" using assms(1) by (metis Suc_neq_Zero div_pos_pos_trivial diff_ge_0_iff_ge linorder_not_le nat_0)
  have "(f - (d + p)) div p = (f - d) div p - 1"
    using assms(1) div_add_self2 [of p "f - (d + p)"] by (simp add: algebra_simps)
  then have "nat ((f - (d + p)) div p) = j" using Suc(2) by simp
  moreover have "Suc (nat ((f - d) div p)) = Suc (Suc j)" using Suc(2) by simp
  ultimately show ?case
    using Suc(1) [of "d + p" "n + 1"] \<open>p \<le> f - d\<close> skip_missed_step [of d f p n] Suc(3)
    by (simp add: Let_def algebra_simps)
qed

text \<open>Everything a cycle does to the state except the callback's own part.\<close>

definition cycle_stats :: "OverrunPolicy \<Rightarrow> int \<Rightarrow> int \<Rightarrow> int \<Rightarrow> int \<Rightarrow> ExecutorStats \<Rightarrow> ExecutorStats" where
  "cycle_stats pol p w f d t =
     t\<lparr>cycles_executed := cycles_executed t + 1,
       overruns := overruns t + (if d + p \<le> f then 1 else 0),
       skipped_cycles := skipped_cycles t + of_nat (missed pol p f d),
       wakeup_jitter := hrecord (wakeup_jitter t) (w - d),
       execution_time := hrecord (execution_time t) (f - w),
       cycle_total := hrecord (cycle_total t) (f - d)\<rparr>"

lemma account_overrun_result:
  assumes "0 < p" and "pol = overrun_policy (exec_config (executor s))"
  shows "account_overrun p f s = Some (on_stats
    (\<lambda>t. t\<lparr>overruns := overruns t + (if deadline_ns s + p \<le> f then 1 else 0),
           skipped_cycles := skipped_cycles t + of_nat (missed pol p f (deadline_ns s))\<rparr>)
    (s\<lparr>deadline_ns := deadline_ns s + p * (1 + int (missed pol p f (deadline_ns s)))\<rparr>))"
proof (cases "deadline_ns s + p \<le> f")
  case True
  then show ?thesis
    using skip_missed_result [OF assms(1) True] assms(2)
    by (simp add: account_overrun_def on_stats_def missed_def Let_def algebra_simps)
next
  case False
  then show ?thesis
    by (simp add: account_overrun_def on_stats_def missed_def Let_def)
qed

lemma invoke_callback_frame:
  assumes "invoke_callback cb b ctx s = Some s'"
  shows "deadline_ns s' = deadline_ns s \<and> loop_index s' = loop_index s \<and>
    exec_config (executor s') = exec_config (executor s) \<and> exec_stats (executor s') = exec_stats (executor s)"
  using assms
  by (auto simp: invoke_callback_def requestStop_def Let_def split: prod.splits if_splits)

definition cycle_context :: "cycle_env \<Rightarrow> 'a run_state \<Rightarrow> CycleContext" where
  "cycle_context env s =
     \<lparr>ctx_index = loop_index s, ctx_wakeup_jitter_ns = toNanos (woke_at env) - deadline_ns s,
      ctx_period_ns = period (exec_config (executor s))\<rparr>"

lemma run_cycle_some:
  assumes "run_cycle cb env s = Some s'"
  obtains s2
  where "invoke_callback cb (guard_allocations (exec_config (executor s))) (cycle_context env s)
      (record_wakeup (toNanos (woke_at env) - deadline_ns s) s) = Some s2"
    and "account_overrun (period (exec_config (executor s))) (toNanos (finished_at env))
      (record_finish (toNanos (woke_at env)) (toNanos (finished_at env)) s2) = Some s'"
  using assms unfolding run_cycle_def Let_def bind_eq_Some_conv cycle_context_def by blast

lemma run_cycle_result:
  assumes "run_cycle cb env s = Some s'" and "0 < period (exec_config (executor s))"
  shows "let p = period (exec_config (executor s)); pol = overrun_policy (exec_config (executor s));
             w = toNanos (woke_at env); f = toNanos (finished_at env); d = deadline_ns s
         in deadline_ns s' = d + p * (1 + int (missed pol p f d)) \<and> loop_index s' = loop_index s \<and>
            exec_config (executor s') = exec_config (executor s) \<and>
            exec_stats (executor s') = cycle_stats pol p w f d (exec_stats (executor s))"
proof -
  obtain s2 where s2: "invoke_callback cb (guard_allocations (exec_config (executor s))) (cycle_context env s)
      (record_wakeup (toNanos (woke_at env) - deadline_ns s) s) = Some s2"
    and fin: "account_overrun (period (exec_config (executor s))) (toNanos (finished_at env))
      (record_finish (toNanos (woke_at env)) (toNanos (finished_at env)) s2) = Some s'"
    using assms(1) by (rule run_cycle_some)
  show ?thesis
    using fin invoke_callback_frame [OF s2] unfolding account_overrun_result [OF assms(2) refl]
    by (auto simp: on_stats_def record_wakeup_def record_finish_def cycle_stats_def Let_def)
qed

text \<open>
  The count of allocations is not kept up during a run: every callback, and whoever
  reads the statistics while the loop runs, sees the value from before it.
\<close>

lemma violations_stale:
  assumes "run_cycle cb env s = Some s'" and "0 < period (exec_config (executor s))"
  shows "allocation_violations (exec_stats (executor s')) = allocation_violations (exec_stats (executor s))"
  using run_cycle_result [OF assms] by (simp add: Let_def cycle_stats_def)

section \<open>The callback and the guard\<close>

text \<open>A callback whose allocations, if any, cannot end the process.\<close>

definition tolerated :: "'a callback \<Rightarrow> alloc_guard \<Rightarrow> bool" where
  "tolerated cb g \<longleftrightarrow> \<not> guardIsInstalled g \<or> g_policy g \<noteq> kAbort \<or> (\<forall>ctx st u. fst (snd (cb ctx st u)) = [])"

text \<open>What a callback's allocations leave in the guard.\<close>

definition noted :: "bool \<Rightarrow> u64 list \<Rightarrow> alloc_guard \<Rightarrow> alloc_guard" where
  "noted b sizes g =
     (if guardIsInstalled g \<and> inNoAllocScope (if b then enterNoAlloc g else g)
      then g\<lparr>g_violations := g_violations g + of_nat (length sizes), g_largest_bytes := fold max sizes (g_largest_bytes g)\<rparr>
      else g)"

lemma noted_frame [simp]:
  "g_policy (noted b sizes g) = g_policy g" "guardIsInstalled (noted b sizes g) = guardIsInstalled g"
  "t_no_alloc_depth (noted b sizes g) = t_no_alloc_depth g" "t_allow_depth (noted b sizes g) = t_allow_depth g"
  by (simp_all add: noted_def guardIsInstalled_def)

lemma callback_allocations_result:
  "\<not> guardIsInstalled g \<or> g_policy g \<noteq> kAbort \<or> sizes = [] \<Longrightarrow>
   callback_allocations sizes g = Some (noted False sizes g)"
  using guard_run_news [of g sizes] by (auto simp: callback_allocations_def noted_def)

lemma callback_allocations_some:
  "callback_allocations sizes g = Some g' \<Longrightarrow> g' = noted False sizes g"
proof (induction sizes arbitrary: g g')
  case Nil
  then show ?case using callback_allocations_result [of g "[]"] by simp
next
  case (Cons n sizes)
  show ?case
  proof (cases "guardIsInstalled g \<and> g_policy g = kAbort \<and> inNoAllocScope g")
    case True
    then have "noteAllocation (replicate 192 (CHR 0x00)) n g =
        Aborts (violation_message (replicate 192 (CHR 0x00)) n)"
      by (simp add: noteAllocation_def reportViolation_def inNoAllocScope_def Let_def)
    then show ?thesis using Cons.prems True by (simp add: callback_allocations_def)
  next
    case False
    then show ?thesis
      using Cons.prems guard_run_news [of g "n # sizes"]
      by (auto simp: callback_allocations_def noted_def simp del: guard_run.simps list.map split: if_splits)
  qed
qed

lemma invoke_callback_guard:
  assumes "invoke_callback cb b ctx s = Some s'"
  shows "user s' = fst (cb ctx (exec_stats (executor s)) (user s)) \<and>
    guard s' = noted b (fst (snd (cb ctx (exec_stats (executor s)) (user s)))) (guard s) \<and>
    (stop_requested (executor s') \<longleftrightarrow>
      stop_requested (executor s) \<or> snd (snd (cb ctx (exec_stats (executor s)) (user s))))"
proof (cases b)
  case True
  with assms obtain g where "callback_allocations (fst (snd (cb ctx (exec_stats (executor s)) (user s)))) (enterNoAlloc (guard s)) = Some g"
    and "user s' = fst (cb ctx (exec_stats (executor s)) (user s))" "guard s' = leaveNoAlloc g"
    and "stop_requested (executor s') \<longleftrightarrow>
      stop_requested (executor s) \<or> snd (snd (cb ctx (exec_stats (executor s)) (user s)))"
    by (auto simp: invoke_callback_def requestStop_def Let_def split: prod.splits)
  with True show ?thesis
    by (auto dest!: callback_allocations_some
        simp: noted_def enterNoAlloc_def leaveNoAlloc_def guardIsInstalled_def inNoAllocScope_def)
next
  case False
  with assms show ?thesis
    by (auto dest!: callback_allocations_some simp: invoke_callback_def requestStop_def Let_def split: prod.splits)
qed

lemma invoke_callback_returns:
  assumes "tolerated cb (guard s)"
  shows "\<exists>s'. invoke_callback cb b ctx s = Some s'"
proof -
  obtain u sizes stop where cb: "cb ctx (exec_stats (executor s)) (user s) = (u, sizes, stop)" by (metis prod_cases3)
  have t: "\<not> guardIsInstalled (guard s) \<or> g_policy (guard s) \<noteq> kAbort \<or> sizes = []"
    using assms cb unfolding tolerated_def by (metis fst_conv snd_conv)
  then have "\<exists>g. callback_allocations sizes (guard s) = Some g"
    "\<exists>g. callback_allocations sizes (enterNoAlloc (guard s)) = Some g"
    using callback_allocations_result [of "guard s" sizes] callback_allocations_result [of "enterNoAlloc (guard s)" sizes]
    by (auto simp: enterNoAlloc_def guardIsInstalled_def)
  then show ?thesis by (auto simp: invoke_callback_def cb Let_def)
qed

lemma run_cycle_callback:
  assumes "run_cycle cb env s = Some s'" and "0 < period (exec_config (executor s))"
  shows "\<exists>st. user s' = fst (cb (cycle_context env s) st (user s)) \<and>
    guard s' = noted (guard_allocations (exec_config (executor s)))
      (fst (snd (cb (cycle_context env s) st (user s)))) (guard s) \<and>
    (stop_requested (executor s') \<longleftrightarrow>
      stop_requested (executor s) \<or> snd (snd (cb (cycle_context env s) st (user s))))"
proof -
  obtain s2 where s2: "invoke_callback cb (guard_allocations (exec_config (executor s))) (cycle_context env s)
      (record_wakeup (toNanos (woke_at env) - deadline_ns s) s) = Some s2"
    and fin: "account_overrun (period (exec_config (executor s))) (toNanos (finished_at env))
      (record_finish (toNanos (woke_at env)) (toNanos (finished_at env)) s2) = Some s'"
    using assms(1) by (rule run_cycle_some)
  show ?thesis
    using fin invoke_callback_guard [OF s2] unfolding account_overrun_result [OF assms(2) refl]
    by (intro exI [of _ "exec_stats (executor (record_wakeup (toNanos (woke_at env) - deadline_ns s) s))"])
      (auto simp: on_stats_def record_wakeup_def record_finish_def)
qed

lemma run_cycle_returns:
  assumes "nanosleep env (fromNanos (deadline_ns s)) j \<noteq> EINTR" and "0 < period (exec_config (executor s))"
    and "tolerated cb (guard s)"
  shows "\<exists>s'. run_cycle cb env s = Some s'"
proof -
  obtain n where "sleepUntil (nanosleep env (fromNanos (deadline_ns s))) 0 = Some n"
    using sleepUntil_ends [of _ 0 j] assms(1) by auto
  moreover have "tolerated cb (guard (record_wakeup (toNanos (woke_at env) - deadline_ns s) s))"
    using assms(3) by (simp add: record_wakeup_def on_stats_def)
  then obtain s2 where "invoke_callback cb (guard_allocations (exec_config (executor s)))
      \<lparr>ctx_index = loop_index s, ctx_wakeup_jitter_ns = toNanos (woke_at env) - deadline_ns s,
       ctx_period_ns = period (exec_config (executor s))\<rparr>
      (record_wakeup (toNanos (woke_at env) - deadline_ns s) s) = Some s2"
    using invoke_callback_returns by blast
  ultimately show ?thesis
    by (simp add: run_cycle_def Let_def account_overrun_result [OF assms(2) refl])
qed

section \<open>The loop\<close>

lemma run_loop_rule:
  assumes ret: "run_loop cb mc envs k s = Some r" and init: "I k s"
    and step: "\<And>k s s'. I k s \<Longrightarrow> mc = 0 \<or> loop_index s < mc \<Longrightarrow>
      run_cycle cb (envs k) (observe_stop (envs k) s) = Some s' \<Longrightarrow>
      I (Suc k) (s'\<lparr>loop_index := loop_index s' + 1\<rparr>)"
  shows "\<exists>n t. I n t \<and>
    (r = t \<and> mc \<noteq> 0 \<and> mc \<le> loop_index t \<or> r = observe_stop (envs n) t \<and> stopRequested (executor r))"
proof -
  define Q where "Q r \<longleftrightarrow> (\<exists>n t. I n t \<and> (r = t \<and> mc \<noteq> 0 \<and> mc \<le> loop_index t \<or>
    r = observe_stop (envs n) t \<and> stopRequested (executor r)))" for r
  have "cb = cb \<longrightarrow> mc = mc \<longrightarrow> envs = envs \<longrightarrow> I k s \<longrightarrow> Q r"
  proof (rule run_loop.raw_induct [where P = "\<lambda>cb' mc' envs' k s r. cb' = cb \<longrightarrow> mc' = mc \<longrightarrow> envs' = envs \<longrightarrow>
      I k s \<longrightarrow> Q r", OF _ ret])
    fix f cb' mc' envs' k s r
    assume IH: "\<And>cb' mc' envs' k s r. f cb' mc' envs' k s = Some r \<Longrightarrow>
        cb' = cb \<longrightarrow> mc' = mc \<longrightarrow> envs' = envs \<longrightarrow> I k s \<longrightarrow> Q r"
      and eq: "(if mc' = 0 \<or> loop_index s < mc' then
          let s = observe_stop (envs' k) s in
          if stopRequested (executor s) then Some s
          else Option.bind (run_cycle cb' (envs' k) s) (\<lambda>s. f cb' mc' envs' (Suc k) (s\<lparr>loop_index := loop_index s + 1\<rparr>))
        else Some s) = Some r"
    show "cb' = cb \<longrightarrow> mc' = mc \<longrightarrow> envs' = envs \<longrightarrow> I k s \<longrightarrow> Q r"
    proof (intro impI)
      assume same: "cb' = cb" "mc' = mc" "envs' = envs" and I: "I k s"
      show "Q r"
      proof (cases "mc = 0 \<or> loop_index s < mc")
        case False
        then have "r = s" using eq unfolding same by simp
        then show ?thesis using False I unfolding Q_def by (metis not_less)
      next
        case True
        let ?s = "observe_stop (envs k) s"
        show ?thesis
        proof (cases "stopRequested (executor ?s)")
          case stop: True
          then have "r = ?s" using eq True unfolding same by simp
          then show ?thesis using stop I unfolding Q_def by blast
        next
          case False
          then obtain s' where "run_cycle cb (envs k) ?s = Some s'"
            and "f cb mc envs (Suc k) (s'\<lparr>loop_index := loop_index s' + 1\<rparr>) = Some r"
            using eq True unfolding same by (simp only: Let_def if_True if_False bind_eq_Some_conv) blast
          then show ?thesis using IH [of cb mc envs "Suc k"] step [OF I True] by blast
        qed
      qed
    qed
  qed
  then show ?thesis using init by (simp add: Q_def)
qed

text \<open>The state the schedule prescribes at the start of iteration \<open>n\<close>.\<close>

definition cycle_log :: "(nat \<Rightarrow> cycle_env) \<Rightarrow> OverrunPolicy \<Rightarrow> int \<Rightarrow> int \<Rightarrow> nat \<Rightarrow> ExecutorStats \<Rightarrow> ExecutorStats" where
  "cycle_log envs pol p d n t =
     (let w = \<lambda>k. toNanos (woke_at (envs k));
          f = \<lambda>k. toNanos (finished_at (envs k));
          due = schedule pol p d f
      in t\<lparr>cycles_executed := cycles_executed t + of_nat n,
           overruns := overruns t + of_nat (overrun_before pol p d f n),
           skipped_cycles := skipped_cycles t + of_nat (missed_before pol p d f n),
           wakeup_jitter := foldl hrecord (wakeup_jitter t) (map (\<lambda>k. w k - due k) [0..<n]),
           execution_time := foldl hrecord (execution_time t) (map (\<lambda>k. f k - w k) [0..<n]),
           cycle_total := foldl hrecord (cycle_total t) (map (\<lambda>k. f k - due k) [0..<n])\<rparr>)"

definition on_schedule :: "(nat \<Rightarrow> cycle_env) \<Rightarrow> 'a run_state \<Rightarrow> nat \<Rightarrow> 'a run_state \<Rightarrow> bool" where
  "on_schedule envs s0 n s \<longleftrightarrow>
     (let c = exec_config (executor s0);
          f = \<lambda>k. toNanos (finished_at (envs k))
      in exec_config (executor s) = c \<and> loop_index s = loop_index s0 + of_nat n \<and>
         deadline_ns s = schedule (overrun_policy c) (period c) (deadline_ns s0) f n \<and>
         exec_stats (executor s) =
           cycle_log envs (overrun_policy c) (period c) (deadline_ns s0) n (exec_stats (executor s0)))"

lemma on_schedule_start: "on_schedule envs s 0 s"
  by (simp add: on_schedule_def cycle_log_def)

lemma observe_stop_frame [simp]:
  "exec_config (executor (observe_stop e s)) = exec_config (executor s)"
  "exec_stats (executor (observe_stop e s)) = exec_stats (executor s)"
  "deadline_ns (observe_stop e s) = deadline_ns s" "loop_index (observe_stop e s) = loop_index s"
  "guard (observe_stop e s) = guard s" "user (observe_stop e s) = user s"
  by (simp_all add: observe_stop_def requestStop_def)

lemma cycle_log_Suc:
  "cycle_log envs pol p d (Suc n) t =
     cycle_stats pol p (toNanos (woke_at (envs n))) (toNanos (finished_at (envs n)))
       (schedule pol p d (\<lambda>k. toNanos (finished_at (envs k))) n) (cycle_log envs pol p d n t)"
  by (simp add: cycle_log_def cycle_stats_def Let_def)

lemma on_schedule_step:
  assumes "0 < period (exec_config (executor s0))" and on: "on_schedule envs s0 n s"
    and cyc: "run_cycle cb (envs n) (observe_stop (envs n) s) = Some s'"
  shows "on_schedule envs s0 (Suc n) (s'\<lparr>loop_index := loop_index s' + 1\<rparr>)"
proof -
  have c: "exec_config (executor s) = exec_config (executor s0)" using on by (simp add: on_schedule_def Let_def)
  then have "0 < period (exec_config (executor (observe_stop (envs n) s)))" using assms(1) by simp
  from run_cycle_result [OF cyc this] on show ?thesis
    by (simp add: on_schedule_def cycle_log_Suc Let_def c)
qed

lemma run_loop_schedule:
  assumes "run_loop cb mc envs 0 s = Some r" and "0 < period (exec_config (executor s))" and "loop_index s = 0"
  shows "\<exists>n. on_schedule envs s n r \<and> (mc = 0 \<or> n \<le> unat mc) \<and> (mc \<noteq> 0 \<and> n = unat mc \<or> stopRequested (executor r))"
proof -
  have "\<exists>n t. (on_schedule envs s n t \<and> (mc = 0 \<or> n \<le> unat mc)) \<and>
    (r = t \<and> mc \<noteq> 0 \<and> mc \<le> loop_index t \<or> r = observe_stop (envs n) t \<and> stopRequested (executor r))"
  proof (rule run_loop_rule [OF assms(1), where I = "\<lambda>n t. on_schedule envs s n t \<and> (mc = 0 \<or> n \<le> unat mc)"])
    fix k t t'
    assume I: "on_schedule envs s k t \<and> (mc = 0 \<or> k \<le> unat mc)" and lt: "mc = 0 \<or> loop_index t < mc"
      and cyc: "run_cycle cb (envs k) (observe_stop (envs k) t) = Some t'"
    have "mc = 0 \<or> Suc k \<le> unat mc"
    proof (cases "mc = 0")
      case False
      then have "k \<le> unat mc" "loop_index t = of_nat k" "loop_index t < mc"
        using I lt assms(3) by (auto simp: on_schedule_def Let_def)
      moreover have "unat (of_nat k :: u64) = k"
        using \<open>k \<le> unat mc\<close> unat_u64 [of mc] by (intro unat_of_nat_small) simp
      ultimately show ?thesis by (simp add: word_less_nat_alt)
    qed simp
    then show "on_schedule envs s (Suc k) (t'\<lparr>loop_index := loop_index t' + 1\<rparr>) \<and> (mc = 0 \<or> Suc k \<le> unat mc)"
      using on_schedule_step [where envs = envs and n = k, OF assms(2) _ cyc] I by blast
  qed (simp add: on_schedule_start)
  then obtain n t where t: "on_schedule envs s n t" "mc = 0 \<or> n \<le> unat mc"
    and r: "r = t \<and> mc \<noteq> 0 \<and> mc \<le> loop_index t \<or> r = observe_stop (envs n) t \<and> stopRequested (executor r)"
    by blast
  have "on_schedule envs s n r" using t r by (auto simp: on_schedule_def Let_def)
  moreover have "n = unat mc" if "mc \<noteq> 0" "mc \<le> loop_index t"
  proof -
    have "n \<le> unat mc" using t(2) that(1) by simp
    moreover have "unat (of_nat n :: u64) = n"
      using \<open>n \<le> unat mc\<close> unat_u64 [of mc] by (intro unat_of_nat_small) simp
    moreover have "loop_index t = of_nat n" using t(1) assms(3) by (simp add: on_schedule_def Let_def)
    ultimately show ?thesis using that(2) by (simp add: word_le_nat_alt)
  qed
  ultimately show ?thesis using t(2) r by blast
qed

lemma tolerated_cycle:
  assumes "run_cycle cb env s = Some s'" and "0 < period (exec_config (executor s))" and "tolerated cb (guard s)"
  shows "tolerated cb (guard s')"
  using run_cycle_callback [OF assms(1,2)] assms(3) by (auto simp: tolerated_def)

lemma run_loop_returns:
  assumes "mc \<noteq> 0" and "\<And>k d. \<exists>j. nanosleep (envs k) d j \<noteq> EINTR"
    and "0 < period (exec_config (executor s))" and "tolerated cb (guard s)"
  shows "\<exists>r. run_loop cb mc envs k s = Some r"
  using assms(3,4)
proof (induction "unat mc - unat (loop_index s)" arbitrary: k s rule: less_induct)
  case less
  let ?s = "observe_stop (envs k) s"
  show ?case
  proof (cases "loop_index s < mc \<and> \<not> stopRequested (executor ?s)")
    case False
    then show ?thesis using assms(1) by (subst run_loop.simps) (auto simp: Let_def)
  next
    case True
    obtain j where "nanosleep (envs k) (fromNanos (deadline_ns ?s)) j \<noteq> EINTR" using assms(2) by blast
    then obtain s' where s': "run_cycle cb (envs k) ?s = Some s'"
      using run_cycle_returns [of "envs k" ?s j cb] less.prems by auto
    let ?t = "s'\<lparr>loop_index := loop_index s' + 1\<rparr>"
    have c: "exec_config (executor s') = exec_config (executor s)" "loop_index s' = loop_index s"
      using run_cycle_result [OF s'] less.prems(1) by (simp_all add: Let_def)
    have "unat (loop_index s + 1) = Suc (unat (loop_index s))"
      using True by (simp add: unat_word_ariths word_less_nat_alt) (use unat_u64 [of mc] in simp)
    then have "unat mc - unat (loop_index ?t) < unat mc - unat (loop_index s)"
      using True c(2) by (simp add: word_less_nat_alt) linarith
    moreover have "tolerated cb (guard ?t)" using tolerated_cycle [OF s'] less.prems by simp
    ultimately obtain r where "run_loop cb mc envs (Suc k) ?t = Some r"
      using less.hyps [of ?t "Suc k"] less.prems(1) c(1) by auto
    then show ?thesis using True s' by (subst run_loop.simps) (simp add: Let_def)
  qed
qed

lemma run_some:
  assumes "run cb mc started envs (e, u, g) = Some (e', u', g')" and "0 < period (exec_config e)"
  obtains s where "run_loop cb mc envs 0 (start_state started e u g) = Some s"
    and "e' = (executor s)\<lparr>exec_stats := (exec_stats (executor s))\<lparr>allocation_violations :=
      g_violations (guard s) - g_violations g\<rparr>\<rparr>"
    and "u' = user s" and "g' = guard s"
proof -
  from assms obtain s where "run_loop cb mc envs 0 (start_state started e u g) = Some s"
    and "(e', u', g') = (let s = on_stats (\<lambda>t. t\<lparr>allocation_violations :=
      violations (allocationReport (guard s)) - violations (allocationReport g)\<rparr>) s in (executor s, user s, guard s))"
    by (auto simp: run_def Let_def)
  then show ?thesis using that [of s] by (simp add: on_stats_def allocationReport_def Let_def)
qed

text \<open>The histograms of a run that started from empty statistics hold the measured values.\<close>

lemma executor_histograms:
  assumes "t = cycle_log envs pol p d n new_ExecutorStats" and "n < 2 ^ 64" and "0 \<le> d" and "0 \<le> p"
    and "\<And>k. 0 \<le> toNanos (woke_at (envs k)) \<and> toNanos (woke_at (envs k)) \<le> INT64_MAX"
    and "\<And>k. toNanos (finished_at (envs k)) \<le> INT64_MAX"
  defines "f \<equiv> \<lambda>k. toNanos (finished_at (envs k))" and "w \<equiv> \<lambda>k. toNanos (woke_at (envs k))"
  shows "hist_rep (wakeup_jitter t) (mset (map (\<lambda>k. max (w k - schedule pol p d f k) 0) [0..<n])) \<and>
    hist_rep (execution_time t) (mset (map (\<lambda>k. max (f k - w k) 0) [0..<n])) \<and>
    hist_rep (cycle_total t) (mset (map (\<lambda>k. max (f k - schedule pol p d f k) 0) [0..<n]))"
proof -
  have low: "0 \<le> schedule pol p d f k" for k
    using schedule_lower [OF assms(4), of d pol f k] assms(3) by simp
  have b: "w k - schedule pol p d f k \<le> INT64_MAX" "f k - w k \<le> INT64_MAX" "f k - schedule pol p d f k \<le> INT64_MAX" for k
    using low [of k] assms(5,6) [of k] by (simp_all add: f_def w_def)
  show ?thesis
    using hist.put_all_empty [of "map (\<lambda>k. w k - schedule pol p d f k) [0..<n]"]
      hist.put_all_empty [of "map (\<lambda>k. f k - w k) [0..<n]"]
      hist.put_all_empty [of "map (\<lambda>k. f k - schedule pol p d f k) [0..<n]"] b assms(2)
    by (simp add: assms(1) cycle_log_def new_ExecutorStats_def f_def w_def Let_def comp_def)
qed

text \<open>
  A run of two cycles, one millisecond apart, the first of which takes three and a
  half milliseconds; its callback allocates 24 bytes each time and counts them.
\<close>

definition demo_env :: "nat \<Rightarrow> cycle_env" where
  "demo_env k =
     \<lparr>stop_seen = False, nanosleep = (\<lambda>d j. if j = 0 then EINTR else 0),
      woke_at = fromNanos (1000000 * int (k * 4 + 1) + 20),
      finished_at = fromNanos (1000000 * int (k * 4 + 1) + (if k = 0 then 3500000 else 400000))\<rparr>"

definition demo_callback :: "nat callback" where
  "demo_callback ctx st n = (n + 1, [24], False)"

definition demo_executor :: CyclicExecutor where
  "demo_executor = new_CyclicExecutor default_ExecutorConfig"

definition demo_guard :: alloc_guard where
  "demo_guard = setAllocationPolicy kCount (markGuardInstalled new_guard)"

lemmas demo_defs = demo_executor_def new_CyclicExecutor_def default_ExecutorConfig_def demo_guard_def
  setAllocationPolicy_def markGuardInstalled_def new_guard_def start_state_def guardIsInstalled_def

lemma demo_loop_returns:
  "\<exists>r. run_loop demo_callback 2 demo_env 0 (start_state \<lparr>tv_sec = 0, tv_nsec = 0\<rparr> demo_executor 0 demo_guard) = Some r"
proof (rule run_loop_returns)
  show "\<exists>j. nanosleep (demo_env k) d j \<noteq> EINTR" for k d
    by (rule exI [of _ 1]) (simp add: demo_env_def EINTR_def)
qed (simp_all add: demo_defs tolerated_def)

lemma demo_returns:
  "\<exists>e u g. run demo_callback 2 \<lparr>tv_sec = 0, tv_nsec = 0\<rparr> demo_env (demo_executor, 0, demo_guard) = Some (e, u, g)"
  using demo_loop_returns by (auto simp: run_def demo_executor_def new_CyclicExecutor_def default_ExecutorConfig_def Let_def)

section \<open>Properties\<close>

text \<open>
  C19. The executor implements the schedule: whatever the clock, the sleeps, the
  callback and the stop requests do, a run that returns has executed some number
  \<open>n\<close> of cycles, never more than \<open>max_cycles\<close> and exactly that many unless a
  stop was requested, and every counter and histogram is what the schedule of
  deadlines makes of the clock readings of those cycles.
\<close>

theorem executor_implements_schedule:
  assumes "run cb mc started envs (e, u, g) = Some (e', u', g')" and "0 < period (exec_config e)"
  shows "\<exists>n. (mc = 0 \<or> n \<le> unat mc) \<and> (mc \<noteq> 0 \<and> n = unat mc \<or> stopRequested e') \<and>
    exec_stats e' = (cycle_log envs (overrun_policy (exec_config e)) (period (exec_config e))
      (toNanos started + period (exec_config e)) n (exec_stats e))
        \<lparr>allocation_violations := g_violations g' - g_violations g\<rparr>"
proof -
  obtain s where s: "run_loop cb mc envs 0 (start_state started e u g) = Some s"
    and e': "e' = (executor s)\<lparr>exec_stats := (exec_stats (executor s))\<lparr>allocation_violations :=
      g_violations (guard s) - g_violations g\<rparr>\<rparr>" "g' = guard s"
    using assms by (rule run_some)
  have "\<exists>n. on_schedule envs (start_state started e u g) n s \<and> (mc = 0 \<or> n \<le> unat mc) \<and>
      (mc \<noteq> 0 \<and> n = unat mc \<or> stopRequested (executor s))"
    using run_loop_schedule [OF s] assms(2) by (simp add: start_state_def)
  then show ?thesis
    by (auto simp: e' on_schedule_def start_state_def stopRequested_def Let_def)
qed

theorem executor_implements_schedule_witness:
  "\<exists>e u g n. run demo_callback 2 \<lparr>tv_sec = 0, tv_nsec = 0\<rparr> demo_env (demo_executor, 0, demo_guard) = Some (e, u, g) \<and>
    (n = 2 \<or> stopRequested e) \<and>
    exec_stats e = (cycle_log demo_env kSkipMissed 1000000 1000000 n (exec_stats demo_executor))
      \<lparr>allocation_violations := g_violations g - g_violations demo_guard\<rparr>"
proof -
  obtain e u g where r: "run demo_callback 2 \<lparr>tv_sec = 0, tv_nsec = 0\<rparr> demo_env (demo_executor, 0, demo_guard) = Some (e, u, g)"
    using demo_returns by blast
  have c: "0 < period (exec_config demo_executor)" "overrun_policy (exec_config demo_executor) = kSkipMissed"
    "period (exec_config demo_executor) = 1000000"
    by (simp_all add: demo_defs)
  show ?thesis
    using executor_implements_schedule [OF r c(1)] r unfolding c by (auto simp: toNanos_def)
qed

text \<open>
  No drift and no burst: after \<open>n\<close> executed and \<open>m\<close> skipped cycles the next
  deadline is exactly \<open>n + m\<close> periods after the first, however late the cycles
  were.  Under \<open>kSkipMissed\<close> it lies after the end of the last cycle, so a late
  cycle is never followed by others back to back; under \<open>kRunLate\<close> nothing is skipped.
\<close>

theorem executor_drift_free:
  assumes "run_loop cb mc envs 0 s = Some s'" and "0 < period (exec_config (executor s))" and "loop_index s = 0"
  shows "\<exists>n m. deadline_ns s' = deadline_ns s + period (exec_config (executor s)) * (int n + int m) \<and>
    cycles_executed (exec_stats (executor s')) = cycles_executed (exec_stats (executor s)) + of_nat n \<and>
    skipped_cycles (exec_stats (executor s')) = skipped_cycles (exec_stats (executor s)) + of_nat m \<and>
    (overrun_policy (exec_config (executor s)) = kRunLate \<longrightarrow> m = 0) \<and>
    (overrun_policy (exec_config (executor s)) = kSkipMissed \<and> 0 < n \<longrightarrow>
       toNanos (finished_at (envs (n - 1))) < deadline_ns s')"
proof -
  let ?c = "exec_config (executor s)" and ?f = "\<lambda>k. toNanos (finished_at (envs k))"
  obtain n where n: "on_schedule envs s n s'" using run_loop_schedule [OF assms] by blast
  let ?m = "missed_before (overrun_policy ?c) (period ?c) (deadline_ns s) ?f n"
  have "deadline_ns s' = deadline_ns s + period ?c * (int n + int ?m)"
    using n schedule_grid [of "overrun_policy ?c" "period ?c" "deadline_ns s" ?f n] by (simp add: on_schedule_def Let_def)
  moreover have "overrun_policy ?c = kRunLate \<longrightarrow> ?m = 0"
    by (simp add: missed_before_def missed_none)
  moreover have "?f (n - 1) < deadline_ns s'" if "overrun_policy ?c = kSkipMissed" "0 < n"
    using schedule_after_finish [OF assms(2) that(1), of ?f "n - 1" "deadline_ns s"] n that(2)
    by (simp add: on_schedule_def Let_def)
  moreover have "cycles_executed (exec_stats (executor s')) = cycles_executed (exec_stats (executor s)) + of_nat n"
    "skipped_cycles (exec_stats (executor s')) = skipped_cycles (exec_stats (executor s)) + of_nat ?m"
    using n by (simp_all add: on_schedule_def cycle_log_def Let_def)
  ultimately show ?thesis by blast
qed

theorem executor_drift_free_witness:
  "\<exists>s n m. run_loop demo_callback 2 demo_env 0 (start_state \<lparr>tv_sec = 0, tv_nsec = 0\<rparr> demo_executor 0 demo_guard) = Some s \<and>
    deadline_ns s = 1000000 + 1000000 * (int n + int m)"
proof -
  obtain s where s: "run_loop demo_callback 2 demo_env 0 (start_state \<lparr>tv_sec = 0, tv_nsec = 0\<rparr> demo_executor 0 demo_guard) = Some s"
    using demo_loop_returns by blast
  have "0 < period (exec_config (executor (start_state \<lparr>tv_sec = 0, tv_nsec = 0\<rparr> demo_executor (0 :: nat) demo_guard)))"
    "loop_index (start_state \<lparr>tv_sec = 0, tv_nsec = 0\<rparr> demo_executor (0 :: nat) demo_guard) = 0"
    by (simp_all add: demo_defs)
  from executor_drift_free [OF s this] s show ?thesis by (auto simp: demo_defs toNanos_def)
qed

text \<open>
  C20. Termination: with a positive limit, sleeps that are not interrupted for ever
  and a callback whose allocations are tolerated, a run returns.
\<close>

theorem executor_returns:
  assumes "mc \<noteq> 0" and "\<And>k d. \<exists>j. nanosleep (envs k) d j \<noteq> EINTR" and "tolerated cb g"
  shows "\<exists>r. run cb mc started envs (e, u, g) = Some r"
proof (cases "0 < period (exec_config e)")
  case True
  then have "\<exists>r. run_loop cb mc envs 0 (start_state started e u g) = Some r"
    using assms by (intro run_loop_returns) (simp_all add: start_state_def)
  then show ?thesis using True by (auto simp: run_def Let_def)
qed (simp add: run_def)

theorem executor_returns_witness:
  "\<exists>r. run demo_callback 2 \<lparr>tv_sec = 0, tv_nsec = 0\<rparr> demo_env (demo_executor, 0, demo_guard) = Some r"
proof (rule executor_returns)
  show "\<exists>j. nanosleep (demo_env k) d j \<noteq> EINTR" for k d
    by (rule exI [of _ 1]) (simp add: demo_env_def EINTR_def)
qed (simp_all add: tolerated_def demo_defs)

text \<open>
  The allocation count of a run is exact: for a callback whose state counts its
  own allocations (by \<open>tally\<close>), the reported violations are the allocations made
  during the run, and the guard's scopes are left as they were found.
\<close>

theorem executor_counts_allocations:
  assumes "run cb mc started envs (e, u, g) = Some (e', u', g')" and "0 < period (exec_config e)"
    and "guard_allocations (exec_config e)" and "guardIsInstalled g"
    and "t_no_alloc_depth g = 0" and "t_allow_depth g = 0"
    and tally: "\<And>ctx st v. tally (fst (cb ctx st v)) = tally v + length (fst (snd (cb ctx st v)))"
  shows "allocation_violations (exec_stats e') = of_nat (tally u' - tally u) \<and>
    t_no_alloc_depth g' = 0 \<and> t_allow_depth g' = 0"
proof -
  obtain s where s: "run_loop cb mc envs 0 (start_state started e u g) = Some s"
    and e': "e' = (executor s)\<lparr>exec_stats := (exec_stats (executor s))\<lparr>allocation_violations :=
      g_violations (guard s) - g_violations g\<rparr>\<rparr>" "u' = user s" "g' = guard s"
    using assms(1,2) by (rule run_some)
  let ?I = "\<lambda>k t. exec_config (executor t) = exec_config e \<and> guardIsInstalled (guard t) \<and>
    t_no_alloc_depth (guard t) = 0 \<and> t_allow_depth (guard t) = 0 \<and> tally u \<le> tally (user t) \<and>
    g_violations (guard t) = g_violations g + of_nat (tally (user t) - tally u)"
  have "\<exists>n t. ?I n t \<and> (s = t \<and> mc \<noteq> 0 \<and> mc \<le> loop_index t \<or> s = observe_stop (envs n) t \<and> stopRequested (executor s))"
  proof (rule run_loop_rule [OF s, where I = ?I])
    show "?I 0 (start_state started e u g)" using assms by (simp add: start_state_def)
  next
    fix k t t'
    assume I: "?I k t" and cyc: "run_cycle cb (envs k) (observe_stop (envs k) t) = Some t'"
    have p: "0 < period (exec_config (executor (observe_stop (envs k) t)))" using I assms(2) by simp
    obtain ctx st where ctx: "user t' = fst (cb ctx st (user t))"
      "guard t' = noted True (fst (snd (cb ctx st (user t)))) (guard t)"
      using run_cycle_callback [OF cyc p] I assms(3) by auto
    have "exec_config (executor t') = exec_config e"
      using run_cycle_result [OF cyc p] I by (simp add: Let_def)
    moreover have "inNoAllocScope (enterNoAlloc (guard t))"
      using I by (simp add: inNoAllocScope_def enterNoAlloc_def)
    then have "g_violations (guard t') = g_violations (guard t) + of_nat (length (fst (snd (cb ctx st (user t)))))"
      using I ctx(2) by (simp add: noted_def)
    ultimately show "?I (Suc k) (t'\<lparr>loop_index := loop_index t' + 1\<rparr>)"
      using I ctx tally [of ctx st "user t"] by (simp add: flip: of_nat_add)
  qed
  then have "?I 0 s" by auto
  then show ?thesis by (simp add: e')
qed

theorem executor_counts_allocations_witness:
  "\<exists>e u g. run demo_callback 2 \<lparr>tv_sec = 0, tv_nsec = 0\<rparr> demo_env (demo_executor, 0, demo_guard) = Some (e, u, g) \<and>
    allocation_violations (exec_stats e) = of_nat u"
proof -
  obtain e u g where r: "run demo_callback 2 \<lparr>tv_sec = 0, tv_nsec = 0\<rparr> demo_env (demo_executor, 0, demo_guard) = Some (e, u, g)"
    using demo_returns by blast
  have "allocation_violations (exec_stats e) = of_nat (id u - id 0) \<and> t_no_alloc_depth g = 0 \<and> t_allow_depth g = 0"
    by (rule executor_counts_allocations [OF r]) (simp_all add: demo_defs demo_callback_def)
  with r show ?thesis by auto
qed

end
