(* ===== verification/Runtime_Snapshot.thy ===== *)
theory Runtime_Snapshot
  imports Seqlock_Slot
begin

text \<open>
  What the control loop publishes (\<open>include/safeedge/edge/runtime_snapshot.hpp\<close>): the
  structure, and its layout as the 64-bit words a seqlock slot copies, in declaration
  order with natural alignment and little-endian halves.  The bytes of the two gaps
  are arbitrary.  The theory shows that a reader of a slot gets the structure back.
\<close>

section \<open>Model\<close>

record RuntimeSnapshot =
  s_cycles_executed :: u64
  s_overruns :: u64
  s_skipped_cycles :: u64
  s_allocation_violations :: u64
  s_jitter_p50_ns :: int
  s_jitter_p99_ns :: int
  s_jitter_p999_ns :: int
  s_jitter_max_ns :: int
  s_execution_p50_ns :: int
  s_execution_p99_ns :: int
  s_execution_max_ns :: int
  s_safety_state :: u32
  s_fault_reason :: u32
  s_torque_permitted :: u32
  s_fault_latched :: u32
  s_safety_transition_monotonic_ns :: u64
  s_safety_sequence :: u64
  s_safety_state_age_ns :: u64
  s_estop_asserted :: u32
  s_telegrams_accepted :: u64
  s_telegrams_rejected :: u64
  s_realtime_scheduling_granted :: u32
  s_uptime_ns :: int

definition new_RuntimeSnapshot :: RuntimeSnapshot where
  "new_RuntimeSnapshot =
     \<lparr>s_cycles_executed = 0, s_overruns = 0, s_skipped_cycles = 0, s_allocation_violations = 0,
      s_jitter_p50_ns = 0, s_jitter_p99_ns = 0, s_jitter_p999_ns = 0, s_jitter_max_ns = 0,
      s_execution_p50_ns = 0, s_execution_p99_ns = 0, s_execution_max_ns = 0,
      s_safety_state = 0, s_fault_reason = 0, s_torque_permitted = 0, s_fault_latched = 0,
      s_safety_transition_monotonic_ns = 0, s_safety_sequence = 0, s_safety_state_age_ns = 0,
      s_estop_asserted = 0, s_telegrams_accepted = 0, s_telegrams_rejected = 0,
      s_realtime_scheduling_granted = 0, s_uptime_ns = 0\<rparr>"

definition join32 :: "u32 \<Rightarrow> u32 \<Rightarrow> u64" where
  "join32 lo hi = ucast lo OR push_bit 32 (ucast hi)"

definition lo32 :: "u64 \<Rightarrow> u32" where
  "lo32 w = ucast w"

definition hi32 :: "u64 \<Rightarrow> u32" where
  "hi32 w = ucast (drop_bit 32 w)"

definition snapshot_words :: "u32 \<Rightarrow> u32 \<Rightarrow> RuntimeSnapshot \<Rightarrow> u64 list" where
  "snapshot_words gap1 gap2 s =
     [s_cycles_executed s, s_overruns s, s_skipped_cycles s, s_allocation_violations s,
      word_of_int (s_jitter_p50_ns s), word_of_int (s_jitter_p99_ns s),
      word_of_int (s_jitter_p999_ns s), word_of_int (s_jitter_max_ns s),
      word_of_int (s_execution_p50_ns s), word_of_int (s_execution_p99_ns s),
      word_of_int (s_execution_max_ns s),
      join32 (s_safety_state s) (s_fault_reason s), join32 (s_torque_permitted s) (s_fault_latched s),
      s_safety_transition_monotonic_ns s, s_safety_sequence s, s_safety_state_age_ns s,
      join32 (s_estop_asserted s) gap1, s_telegrams_accepted s, s_telegrams_rejected s,
      join32 (s_realtime_scheduling_granted s) gap2, word_of_int (s_uptime_ns s)]"

definition words_snapshot :: "u64 list \<Rightarrow> RuntimeSnapshot" where
  "words_snapshot w =
     \<lparr>s_cycles_executed = w ! 0, s_overruns = w ! 1, s_skipped_cycles = w ! 2, s_allocation_violations = w ! 3,
      s_jitter_p50_ns = sint (w ! 4), s_jitter_p99_ns = sint (w ! 5), s_jitter_p999_ns = sint (w ! 6),
      s_jitter_max_ns = sint (w ! 7),
      s_execution_p50_ns = sint (w ! 8), s_execution_p99_ns = sint (w ! 9), s_execution_max_ns = sint (w ! 10),
      s_safety_state = lo32 (w ! 11), s_fault_reason = hi32 (w ! 11),
      s_torque_permitted = lo32 (w ! 12), s_fault_latched = hi32 (w ! 12),
      s_safety_transition_monotonic_ns = w ! 13, s_safety_sequence = w ! 14, s_safety_state_age_ns = w ! 15,
      s_estop_asserted = lo32 (w ! 16), s_telegrams_accepted = w ! 17, s_telegrams_rejected = w ! 18,
      s_realtime_scheduling_granted = lo32 (w ! 19), s_uptime_ns = sint (w ! 20)\<rparr>"

section \<open>Round trip through the words\<close>

lemma lo32_join32 [simp]: "lo32 (join32 lo hi) = lo"
  by (rule bit_word_eqI) (simp add: lo32_def join32_def bit_simps)

lemma hi32_join32 [simp]: "hi32 (join32 lo hi) = hi"
  by (rule bit_word_eqI) (auto simp: hi32_def join32_def bit_simps dest: bit_imp_le_length)

lemma sint_word_of_int [simp]: "i64 v \<Longrightarrow> sint (word_of_int v :: u64) = v"
  by (simp add: i64_def signed_of_int signed_take_bit_int_eq_self)

definition snapshot_in_range :: "RuntimeSnapshot \<Rightarrow> bool" where
  "snapshot_in_range s \<longleftrightarrow>
     list_all i64 [s_jitter_p50_ns s, s_jitter_p99_ns s, s_jitter_p999_ns s, s_jitter_max_ns s,
       s_execution_p50_ns s, s_execution_p99_ns s, s_execution_max_ns s, s_uptime_ns s]"

lemma snapshot_words_length [simp]: "length (snapshot_words g h s) = 21"
  by (simp add: snapshot_words_def)

lemma words_snapshot_words: "snapshot_in_range s \<Longrightarrow> words_snapshot (snapshot_words g h s) = s"
  by (simp add: words_snapshot_def snapshot_words_def snapshot_in_range_def)

text \<open>A slot for snapshots: what the loop stores and what a reader loads.\<close>

definition publish :: "u32 \<Rightarrow> u32 \<Rightarrow> RuntimeSnapshot \<Rightarrow> seqlock \<Rightarrow> seqlock" where
  "publish gap1 gap2 s = store (snapshot_words gap1 gap2 s)"

definition read_snapshot :: "seqlock \<Rightarrow> RuntimeSnapshot option" where
  "read_snapshot q = map_option words_snapshot (tryLoad 32 q)"

definition snapshot_slot_ok :: "seqlock \<Rightarrow> bool" where
  "snapshot_slot_ok q \<longleftrightarrow> sequence q AND 1 = 0 \<and> length (seq_words q) = 21"

lemma new_slot_ok: "snapshot_slot_ok (new_seqlock (kWordCount 168))"
  by (simp add: snapshot_slot_ok_def new_seqlock_def kWordCount_def)

lemma publish_ok: "snapshot_slot_ok q \<Longrightarrow> snapshot_slot_ok (publish g h s q)"
  by (simp add: snapshot_slot_ok_def publish_def store_words even_plus_2)

lemma tryLoad_32: "sequence q AND 1 = 0 \<Longrightarrow> tryLoad 32 q = Some (seq_words q)"
  using tryLoad_stable [of q 31] by (simp del: tryLoad.simps)

lemma read_publish:
  "snapshot_slot_ok q \<Longrightarrow> snapshot_in_range s \<Longrightarrow> read_snapshot (publish g h s q) = Some s"
  by (simp add: snapshot_slot_ok_def publish_def read_snapshot_def store_words even_plus_2 tryLoad_32
      words_snapshot_words)

interpretation snapshots: latest_value_slot "publish g h" read_snapshot snapshot_slot_ok "\<lambda>s q. snapshot_in_range s" for g h
  by unfold_locales (simp_all add: publish_ok read_publish)

end
