(* ===== verification/Control_Loop.thy ===== *)
theory Control_Loop
  imports Black_Channel Dual_Channel Cyclic_Executor Runtime_Snapshot
begin

text \<open>
  The control loop of the daemon (\<open>src/apps/safeedged.cpp\<close>): the cycle that runs in
  the executor, sends itself a safety telegram, evaluates the dual-channel supervisor
  on the flags of the two file watchers, stamps transitions and publishes a snapshot.
  What other threads and the clock show a cycle is a record per cycle.  The theory
  shows that the composition of sender, receiver, supervisor, slot and executor is a
  machine of four modes driven by the emergency stop and the acknowledgement.
\<close>

section \<open>Model\<close>

fun fault_value :: "FaultReason \<Rightarrow> nat" where
  "fault_value FR_None = 0"
| "fault_value FR_SelfTestFailed = 1"
| "fault_value FR_EmergencyStop = 2"
| "fault_value FR_SpeedLimitExceeded = 3"
| "fault_value FR_PositionLimitExceeded = 4"
| "fault_value FR_StandstillDeviation = 5"
| "fault_value FR_StopTimeExceeded = 6"
| "fault_value FR_CommunicationFault = 7"
| "fault_value FR_WatchdogTimeout = 8"
| "fault_value FR_ChannelDiscrepancy = 9"
| "fault_value FR_InvalidRequest = 10"

definition monotonicNanos :: "timespec \<Rightarrow> u64" where
  "monotonicNanos ts = word_of_int (tv_sec ts) * 1000000000 + word_of_int (tv_nsec ts)"

definition daemon_executor_config :: "int \<Rightarrow> int \<Rightarrow> ExecutorConfig" where
  "daemon_executor_config frequency_hz rt_priority =
     default_ExecutorConfig
       \<lparr>period := 1000000000 div frequency_hz, guard_allocations := True,
        thread := (thread default_ExecutorConfig)
          \<lparr>policy := kFifo, priority := sint (word_of_int rt_priority :: u32), lock_memory := True, prefault_stack := True\<rparr>\<rparr>"

definition daemon_limits :: SafetyLimits where
  "daemon_limits = default_SafetyLimits
     \<lparr>limited_speed := Fin 10, standstill_speed := fl (1 / 10), standstill_window := fl (1 / 2),
      stop_time_limit_ns := 500000000\<rparr>"

definition supervisor_config :: DualConfig where
  "supervisor_config = \<lparr>dc_limits = daemon_limits, discrepancy_tolerance_ns = 5000000\<rparr>"

definition daemon_address :: SafetyAddress where
  "daemon_address = \<lparr>source = 0x0011, destination = 0x2200, parameter_signature = 0xDEADBEEF\<rparr>"

definition payload_in :: "u8 list" where
  "payload_in = [1, 2, 3, 4, 5, 6, 7, 8]"

text \<open>
  The variables of the control thread.  \<open>turn\<close> counts the cycles, to tell which of the
  records below a cycle sees.
\<close>

record control_loop =
  supervisor :: DualChannelSupervisor
  sender :: SafetySender
  receiver :: SafetyReceiver
  telegram :: Telegram
  delivery :: Delivery
  n_accepted :: u64
  n_rejected :: u64
  last_safety_state :: SafetyState
  last_torque_permitted :: bool
  last_transition_ns :: u64
  safety_sequence :: u64
  published :: seqlock
  turn :: nat

definition new_control_loop :: "timespec \<Rightarrow> seqlock \<Rightarrow> control_loop" where
  "new_control_loop now local_slot =
     \<lparr>supervisor = new_DualChannelSupervisor supervisor_config, sender = new_SafetySender daemon_address,
      receiver = new_SafetyReceiver daemon_address 50000000, telegram = new_Telegram,
      delivery = \<lparr>payload_out = replicate kMaxPayloadBytes 0, payload_size = 0, status_out = 0\<rparr>,
      n_accepted = 0, n_rejected = 0, last_safety_state = SafeTorqueOff, last_torque_permitted = False,
      last_transition_ns = monotonicNanos now, safety_sequence = 0, published = local_slot, turn = 0\<rparr>"

text \<open>
  What a cycle sees: the emergency stop flag as it is loaded for the inputs and again
  for the snapshot, the acknowledgement it takes, the clock at a transition and at the
  publication, the time since the start, the shutdown flag, and the bytes its snapshot
  happens to have in its two gaps.
\<close>

record cycle_world =
  estop_seen :: bool
  ack_taken :: bool
  transition_clock :: timespec
  publish_clock :: timespec
  estop_seen_later :: bool
  uptime :: int
  shutdown_seen :: bool
  padding :: "u32 \<times> u32"

definition telegram_round_trip :: "int \<Rightarrow> control_loop \<Rightarrow> control_loop" where
  "telegram_round_trip now_ns c =
     (let c = c\<lparr>delivery := (delivery c)\<lparr>payload_size := 0, status_out := 0\<rparr>\<rparr>;
          (ok, sn, t) = encode (sender c) payload_in 0 (telegram c);
          c = c\<lparr>sender := sn, telegram := t\<rparr>
      in if ok then
           let (v, r, d) = receive (receiver c) (view t) now_ns (delivery c);
               c = c\<lparr>receiver := r, delivery := d\<rparr>
           in if v = RS_Valid then c\<lparr>n_accepted := n_accepted c + 1\<rparr> else c\<lparr>n_rejected := n_rejected c + 1\<rparr>
         else c)"

definition cycle_inputs :: "cycle_world \<Rightarrow> int \<Rightarrow> control_loop \<Rightarrow> SafetyInputs" where
  "cycle_inputs w now_ns c =
     default_SafetyInputs
       \<lparr>emergency_stop_asserted := estop_seen w, acknowledge := ack_taken w,
        communication_ok := \<not> safe_state (receiver c), heartbeat_ok := True, self_test_passed := True,
        request := SF_SafelyLimitedSpeed, speed_magnitude := Fin 5, timestamp_ns := now_ns\<rparr>"

definition note_transition :: "cycle_world \<Rightarrow> SafetyOutputs \<Rightarrow> control_loop \<Rightarrow> control_loop" where
  "note_transition w outputs c =
     (if out_state outputs \<noteq> last_safety_state c \<or> torque_permitted outputs \<noteq> last_torque_permitted c then
        c\<lparr>last_safety_state := out_state outputs, last_torque_permitted := torque_permitted outputs,
          last_transition_ns := monotonicNanos (transition_clock w), safety_sequence := safety_sequence c + 1\<rparr>
      else c)"

definition cycle_snapshot ::
  "bool \<Rightarrow> cycle_world \<Rightarrow> ExecutorStats \<Rightarrow> SafetyOutputs \<Rightarrow> control_loop \<Rightarrow> RuntimeSnapshot" where
  "cycle_snapshot granted w stats outputs c =
     \<lparr>s_cycles_executed = cycles_executed stats, s_overruns = overruns stats,
      s_skipped_cycles = skipped_cycles stats, s_allocation_violations = allocation_violations stats,
      s_jitter_p50_ns = the (p50 (wakeup_jitter stats)), s_jitter_p99_ns = the (p99 (wakeup_jitter stats)),
      s_jitter_p999_ns = the (p999 (wakeup_jitter stats)), s_jitter_max_ns = hmax (wakeup_jitter stats),
      s_execution_p50_ns = the (p50 (execution_time stats)), s_execution_p99_ns = the (p99 (execution_time stats)),
      s_execution_max_ns = hmax (execution_time stats),
      s_safety_state = of_nat (state_value (out_state outputs)),
      s_fault_reason = of_nat (fault_value (out_fault outputs)),
      s_torque_permitted = (if torque_permitted outputs then 1 else 0),
      s_fault_latched = (if fault_latched outputs then 1 else 0),
      s_safety_transition_monotonic_ns = last_transition_ns c, s_safety_sequence = safety_sequence c,
      s_safety_state_age_ns = monotonicNanos (publish_clock w) - last_transition_ns c,
      s_estop_asserted = (if estop_seen_later w then 1 else 0),
      s_telegrams_accepted = n_accepted c, s_telegrams_rejected = n_rejected c,
      s_realtime_scheduling_granted = (if granted then 1 else 0), s_uptime_ns = uptime w\<rparr>"

text \<open>The callback of the executor; it does not allocate.\<close>

definition cycle :: "bool \<Rightarrow> (nat \<Rightarrow> cycle_world) \<Rightarrow> control_loop callback" where
  "cycle granted ws context stats c =
     (let w = ws (turn c);
          now_ns = ctx_period_ns context * sint (ctx_index context);
          c = telegram_round_trip now_ns c;
          inputs = cycle_inputs w now_ns c;
          (outputs, sup) = dual_evaluate (supervisor c) inputs inputs now_ns;
          c = note_transition w outputs (c\<lparr>supervisor := sup\<rparr>);
          snapshot = cycle_snapshot granted w stats outputs c;
          c = c\<lparr>published := publish (fst (padding w)) (snd (padding w)) snapshot (published c), turn := turn c + 1\<rparr>
      in (c, [], shutdown_seen w))"

text \<open>The loop after \<open>n\<close> cycles, whatever jitter and statistics the executor shows them.\<close>

fun control_after ::
  "bool \<Rightarrow> (nat \<Rightarrow> cycle_world) \<Rightarrow> int \<Rightarrow> (nat \<Rightarrow> int \<times> ExecutorStats) \<Rightarrow> control_loop \<Rightarrow> nat \<Rightarrow> control_loop" where
  "control_after granted ws p obs c 0 = c"
| "control_after granted ws p obs c (Suc n) =
     fst (cycle granted ws \<lparr>ctx_index = of_nat n, ctx_wakeup_jitter_ns = fst (obs n), ctx_period_ns = p\<rparr>
       (snd (obs n)) (control_after granted ws p obs c n))"

section \<open>The modes\<close>

text \<open>The specification: what the emergency stop and the acknowledgement make of the loop.\<close>

datatype mode = Starting | Idle | Faulted | Moving

definition mode_step :: "bool \<Rightarrow> bool \<Rightarrow> mode \<Rightarrow> mode" where
  "mode_step estop ack m =
     (if estop then Faulted
      else case m of Starting \<Rightarrow> Idle | Idle \<Rightarrow> Moving | Moving \<Rightarrow> Moving
                   | Faulted \<Rightarrow> if ack then Idle else Faulted)"

fun mode_after :: "(nat \<Rightarrow> cycle_world) \<Rightarrow> nat \<Rightarrow> mode" where
  "mode_after ws 0 = Starting"
| "mode_after ws (Suc n) = mode_step (estop_seen (ws n)) (ack_taken (ws n)) (mode_after ws n)"

fun mode_state :: "mode \<Rightarrow> SafetyState" where
  "mode_state Starting = SelfTest"
| "mode_state Idle = SafeTorqueOff"
| "mode_state Faulted = SafeTorqueOff"
| "mode_state Moving = LimitedSpeed"

fun mode_fault :: "mode \<Rightarrow> FaultReason" where
  "mode_fault Faulted = FR_EmergencyStop"
| "mode_fault _ = FR_None"

section \<open>The supervisor\<close>

text \<open>Both channels stand in the mode, and nothing is held against them.\<close>

definition paired :: "DualChannelSupervisor \<Rightarrow> mode \<Rightarrow> bool" where
  "paired d m \<longleftrightarrow> channel_a d = channel_b d \<and> \<not> discrepancy_latched d \<and>
     limits (channel_a d) = daemon_limits \<and> state (channel_a d) = mode_state m \<and> fault (channel_a d) = mode_fault m"

definition daemon_inputs :: "SafetyInputs \<Rightarrow> bool" where
  "daemon_inputs i \<longleftrightarrow> communication_ok i \<and> heartbeat_ok i \<and> self_test_passed i \<and>
     request i = SF_SafelyLimitedSpeed \<and> speed_magnitude i = Fin 5"

lemma channel_mode:
  assumes "limits c = daemon_limits" and "state c = mode_state m" and "fault c = mode_fault m" and "daemon_inputs i"
  shows "state (evaluate_object c i) = mode_state (mode_step (emergency_stop_asserted i) (acknowledge i) m) \<and>
    fault (evaluate_object c i) = mode_fault (mode_step (emergency_stop_asserted i) (acknowledge i) m)"
  using assms
  by (cases m)
    (auto simp: evaluate_object_def daemon_inputs_def unconditionalDemandActive_def unconditionalDemandReason_def
      section_defs daemon_limits_def default_SafetyLimits_def mode_step_def)

lemma paired_evaluate:
  assumes "paired d m" and "daemon_inputs i"
    and "m' = mode_step (emergency_stop_asserted i) (acknowledge i) m"
  shows "paired (snd (dual_evaluate d i i now)) m' \<and>
    out_state (fst (dual_evaluate d i i now)) = mode_state m' \<and>
    out_fault (fst (dual_evaluate d i i now)) = mode_fault m' \<and>
    (torque_permitted (fst (dual_evaluate d i i now)) \<longleftrightarrow> m' = Moving) \<and>
    (fault_latched (fst (dual_evaluate d i i now)) \<longleftrightarrow> m' = Faulted)"
proof -
  let ?c = "evaluate_object (channel_a d) i"
  have same: "channel_b d = channel_a d" "\<not> discrepancy_latched d" using assms(1) by (simp_all add: paired_def)
  have quiet: "\<not> trips d i i now" by (simp add: trips_def channels_differ_def same)
  have a: "limits (channel_a d) = daemon_limits" "state (channel_a d) = mode_state m" "fault (channel_a d) = mode_fault m"
    using assms(1) unfolding paired_def by blast+
  have c: "state ?c = mode_state m'" "fault ?c = mode_fault m'" "limits ?c = daemon_limits"
    using channel_mode [OF a assms(2)] a(1) assms(3) by simp_all
  have "dual_evaluate d i i now = (combine (outputsFor ?c (state ?c)) (outputsFor ?c (state ?c)), compared d i i now)"
    by (simp add: dual_evaluate_compared Let_def compared_simps quiet same evaluate_eq)
  moreover have "out_fault (combine (outputsFor ?c (state ?c)) (outputsFor ?c (state ?c))) = fault ?c"
    by (simp add: combine_def)
  ultimately show ?thesis
    using c by (cases m') (simp_all add: paired_def compared_simps quiet same faultLatched_def)
qed

lemma paired_new: "paired (new_DualChannelSupervisor supervisor_config) Starting"
  by (simp add: paired_def new_DualChannelSupervisor_def supervisor_config_def new_SafetyStateMachine_def)

section \<open>The telegrams\<close>

text \<open>The receiver waits for the telegram that the sender sends next.\<close>

definition linked :: "control_loop \<Rightarrow> bool" where
  "linked c \<longleftrightarrow> s_address (sender c) = r_address (receiver c) \<and> \<not> safe_state (receiver c) \<and>
     watchdog_ns (receiver c) = 50000000 \<and> in_sequence (receiver c) (consecutive_number (sender c)) \<and>
     length (bytes (telegram c)) = 73 \<and> length (payload_out (delivery c)) = 64"

lemma telegram_accepted:
  assumes "linked c" and "\<not> late (receiver c) now"
  shows "linked (telegram_round_trip now c) \<and>
    n_accepted (telegram_round_trip now c) = n_accepted c + 1 \<and>
    n_rejected (telegram_round_trip now c) = n_rejected c \<and>
    synchronised (receiver (telegram_round_trip now c)) \<and>
    last_valid_ns (receiver (telegram_round_trip now c)) = now"
proof -
  obtain t where t: "encode (sender c) payload_in 0 (telegram c) =
      (True, (sender c)\<lparr>consecutive_number := next_cn (consecutive_number (sender c))\<rparr>, t)"
    "view t = wire (s_address (sender c)) payload_in 0 (consecutive_number (sender c))" "length (bytes t) = 73"
    using encode_ok [of payload_in "telegram c" "sender c" 0] assms(1) by (auto simp: linked_def payload_in_def)
  let ?d = "(delivery c)\<lparr>payload_size := 0, status_out := 0\<rparr>"
  have r: "receive (receiver c) (view t) now ?d =
    (RS_Valid, accept (receiver c) now (consecutive_number (sender c)), deliver ?d payload_in 0)"
    unfolding t(2) using assms by (intro receive_wire) (simp_all add: linked_def payload_in_def)
  show ?thesis
    using assms(1) t r
    by (simp add: telegram_round_trip_def Let_def linked_def in_sequence_def deliver_def copy_to_def payload_in_def)
qed

lemma telegram_frame [simp]:
  "supervisor (telegram_round_trip now c) = supervisor c"
  "last_safety_state (telegram_round_trip now c) = last_safety_state c"
  "last_torque_permitted (telegram_round_trip now c) = last_torque_permitted c"
  "last_transition_ns (telegram_round_trip now c) = last_transition_ns c"
  "safety_sequence (telegram_round_trip now c) = safety_sequence c"
  "published (telegram_round_trip now c) = published c"
  "turn (telegram_round_trip now c) = turn c"
  by (simp_all add: telegram_round_trip_def Let_def split: prod.splits)

lemma note_transition_frame [simp]:
  "supervisor (note_transition w out c) = supervisor c" "sender (note_transition w out c) = sender c"
  "receiver (note_transition w out c) = receiver c" "telegram (note_transition w out c) = telegram c"
  "delivery (note_transition w out c) = delivery c" "n_accepted (note_transition w out c) = n_accepted c"
  "n_rejected (note_transition w out c) = n_rejected c" "published (note_transition w out c) = published c"
  "turn (note_transition w out c) = turn c"
  by (simp_all add: note_transition_def)

lemma linked_new: "linked (new_control_loop now q)"
  by (simp add: linked_def new_control_loop_def new_SafetySender_def new_SafetyReceiver_def new_Telegram_def
      in_sequence_def size_defs)

section \<open>The cycle\<close>

lemma words_snapshot_fields [simp]:
  "s_safety_state (words_snapshot (snapshot_words g h s)) = s_safety_state s"
  "s_fault_reason (words_snapshot (snapshot_words g h s)) = s_fault_reason s"
  "s_torque_permitted (words_snapshot (snapshot_words g h s)) = s_torque_permitted s"
  "s_fault_latched (words_snapshot (snapshot_words g h s)) = s_fault_latched s"
  "s_safety_transition_monotonic_ns (words_snapshot (snapshot_words g h s)) = s_safety_transition_monotonic_ns s"
  "s_safety_sequence (words_snapshot (snapshot_words g h s)) = s_safety_sequence s"
  "s_estop_asserted (words_snapshot (snapshot_words g h s)) = s_estop_asserted s"
  "s_telegrams_accepted (words_snapshot (snapshot_words g h s)) = s_telegrams_accepted s"
  "s_telegrams_rejected (words_snapshot (snapshot_words g h s)) = s_telegrams_rejected s"
  by (simp_all add: words_snapshot_def snapshot_words_def)

lemma read_publish_words:
  "snapshot_slot_ok q \<Longrightarrow> read_snapshot (publish g h s q) = Some (words_snapshot (snapshot_words g h s))"
  by (simp add: snapshot_slot_ok_def publish_def read_snapshot_def store_words even_plus_2 tryLoad_32)

text \<open>The supervisor and what it decided, in a cycle.\<close>

definition cycle_decision :: "cycle_world \<Rightarrow> int \<Rightarrow> control_loop \<Rightarrow> SafetyOutputs \<times> DualChannelSupervisor" where
  "cycle_decision w now c =
     (let i = cycle_inputs w now (telegram_round_trip now c) in dual_evaluate (supervisor c) i i now)"

lemma cycle_eq:
  "fst (cycle granted ws ctx st c) =
     (let w = ws (turn c); now = ctx_period_ns ctx * sint (ctx_index ctx);
          (out, sup) = cycle_decision w now c;
          c' = note_transition w out ((telegram_round_trip now c)\<lparr>supervisor := sup\<rparr>)
      in c'\<lparr>published := publish (fst (padding w)) (snd (padding w)) (cycle_snapshot granted w st out c') (published c),
            turn := turn c + 1\<rparr>)"
  by (simp add: cycle_def cycle_decision_def Let_def split: prod.splits)

lemma cycle_turn: "turn (fst (cycle granted ws ctx st c)) = Suc (turn c)"
  by (simp add: cycle_eq Let_def split: prod.splits)

lemma cycle_slot_ok:
  "snapshot_slot_ok (published c) \<Longrightarrow> snapshot_slot_ok (published (fst (cycle granted ws ctx st c)))"
  by (simp add: cycle_eq Let_def publish_ok split: prod.splits)

text \<open>The invariant: after \<open>n\<close> cycles of period \<open>p\<close> the loop is in mode \<open>m\<close>.\<close>

definition in_mode :: "int \<Rightarrow> nat \<Rightarrow> mode \<Rightarrow> control_loop \<Rightarrow> bool" where
  "in_mode p n m c \<longleftrightarrow> linked c \<and> paired (supervisor c) m \<and> snapshot_slot_ok (published c) \<and> turn c = n \<and>
     n_accepted c = of_nat n \<and> n_rejected c = 0 \<and>
     (synchronised (receiver c) \<longrightarrow> (\<exists>k. n = Suc k \<and> last_valid_ns (receiver c) = p * sint (of_nat k :: u64)))"

text \<open>The index wraps, so that the time of a cycle is never far after that of the last one.\<close>

lemma sint_Suc_le: "sint (of_nat (Suc k) :: u64) \<le> sint (of_nat k :: u64) + 1"
proof -
  have sint: "sint (of_nat j :: u64) = (int j + 2 ^ 63) mod 2 ^ 64 - 2 ^ 63" for j
    by (simp add: signed_of_nat signed_take_bit_eq_take_bit_shift take_bit_eq_mod del: of_nat_Suc)
  have "(int k + 2 ^ 63 + 1) mod 2 ^ 64 = ((int k + 2 ^ 63) mod 2 ^ 64 + 1) mod 2 ^ 64"
    by (simp only: mod_add_left_eq)
  also have "\<dots> \<le> (int k + 2 ^ 63) mod 2 ^ 64 + 1"
    by (intro zmod_le_nonneg_dividend) simp
  finally show ?thesis unfolding sint by (simp add: algebra_simps)
qed

text \<open>A reader of the slot sees this mode after \<open>n\<close> cycles.\<close>

definition shows_mode :: "nat \<Rightarrow> mode \<Rightarrow> seqlock \<Rightarrow> bool" where
  "shows_mode n m q \<longleftrightarrow>
     (case read_snapshot q of
        None \<Rightarrow> False
      | Some s \<Rightarrow>
          s_safety_state s = of_nat (state_value (mode_state m)) \<and> s_fault_reason s = of_nat (fault_value (mode_fault m)) \<and>
          s_torque_permitted s = (if m = Moving then 1 else 0) \<and> s_fault_latched s = (if m = Faulted then 1 else 0) \<and>
          s_telegrams_accepted s = of_nat n \<and> s_telegrams_rejected s = 0)"

lemma in_mode_cycle:
  assumes "in_mode p n m c" and "0 < p" and "p \<le> 50000000" and "ctx_index ctx = of_nat n" and "ctx_period_ns ctx = p"
    and m': "m' = mode_step (estop_seen (ws n)) (ack_taken (ws n)) m"
  shows "in_mode p (Suc n) m' (fst (cycle granted ws ctx st c)) \<and>
    shows_mode (Suc n) m' (published (fst (cycle granted ws ctx st c)))"
proof -
  let ?now = "p * sint (of_nat n :: u64)"
  let ?i = "cycle_inputs (ws n) ?now (telegram_round_trip ?now c)"
  have "\<not> late (receiver c) ?now"
  proof
    assume "late (receiver c) ?now"
    then obtain k where k: "n = Suc k" "p * sint (of_nat n :: u64) - p * sint (of_nat k :: u64) > 50000000"
      using assms(1) by (auto simp: late_def in_mode_def linked_def)
    have "p * sint (of_nat n :: u64) \<le> p * (sint (of_nat k :: u64) + 1)"
      unfolding k(1) using sint_Suc_le [of k] assms(2) by (intro mult_left_mono) simp_all
    then show False using k(2) assms(3) by (simp add: algebra_simps)
  qed
  then have t: "linked (telegram_round_trip ?now c)" "n_accepted (telegram_round_trip ?now c) = of_nat (Suc n)"
    "n_rejected (telegram_round_trip ?now c) = 0" "last_valid_ns (receiver (telegram_round_trip ?now c)) = ?now"
    using telegram_accepted [of c ?now] assms(1) by (simp_all add: in_mode_def add.commute)
  have i: "daemon_inputs ?i" "emergency_stop_asserted ?i = estop_seen (ws n)" "acknowledge ?i = ack_taken (ws n)"
    using t(1) by (simp_all add: daemon_inputs_def cycle_inputs_def linked_def)
  obtain out sup where d: "cycle_decision (ws n) ?now c = (out, sup)" by fastforce
  have "dual_evaluate (supervisor c) ?i ?i ?now = (out, sup)"
    using d by (simp add: cycle_decision_def Let_def)
  then have decided: "paired sup m'" "out_state out = mode_state m'" "out_fault out = mode_fault m'"
    "torque_permitted out \<longleftrightarrow> m' = Moving" "fault_latched out \<longleftrightarrow> m' = Faulted"
    using paired_evaluate [of "supervisor c" m ?i m' ?now] i assms(1) m' by (simp_all add: in_mode_def)
  have turn: "turn c = n" "snapshot_slot_ok (published c)" using assms(1) by (simp_all add: in_mode_def)
  show ?thesis
    using t decided turn(2)
    by (simp add: in_mode_def shows_mode_def cycle_eq assms(4,5) turn(1) Let_def d publish_ok linked_def
        read_publish_words cycle_snapshot_def)
qed

lemma in_mode_new: "snapshot_slot_ok q \<Longrightarrow> in_mode p 0 Starting (new_control_loop now q)"
  using linked_new [of now q] paired_new
  by (simp add: in_mode_def) (simp add: new_control_loop_def new_SafetyReceiver_def)

lemma control_after_mode:
  assumes "0 < p" and "p \<le> 50000000" and "snapshot_slot_ok q"
  shows "in_mode p n (mode_after ws n) (control_after granted ws p obs (new_control_loop now q) n)"
proof (induction n)
  case (Suc n)
  then show ?case using in_mode_cycle [OF Suc.IH assms(1,2) _ _ refl] by simp
qed (simp add: in_mode_new assms(3))

lemma control_after_shows:
  assumes "0 < p" and "p \<le> 50000000" and "snapshot_slot_ok q"
  shows "shows_mode (Suc n) (mode_after ws (Suc n))
    (published (control_after granted ws p obs (new_control_loop now q) (Suc n)))"
  using in_mode_cycle [OF control_after_mode [OF assms] assms(1,2) _ _ refl] by simp

section \<open>The modes over time\<close>

lemma faulted_until_acknowledged:
  assumes "k \<le> n" and "estop_seen (ws k)" and "\<And>j. k < j \<Longrightarrow> j \<le> n \<Longrightarrow> ack_taken (ws j) \<Longrightarrow> estop_seen (ws j)"
  shows "mode_after ws (Suc n) = Faulted"
  using assms
proof (induction n)
  case (Suc n)
  show ?case
  proof (cases "k = Suc n")
    case False
    then have "mode_after ws (Suc n) = Faulted" using Suc by auto
    moreover have "ack_taken (ws (Suc n)) \<longrightarrow> estop_seen (ws (Suc n))" using Suc.prems False by simp
    ultimately show ?thesis by (simp add: mode_step_def)
  qed (use Suc.prems in \<open>simp add: mode_step_def\<close>)
qed (simp add: mode_step_def)

lemma moving_after_acknowledgement:
  assumes "k < n" and "ack_taken (ws k)" and "\<And>j. k \<le> j \<Longrightarrow> j \<le> n \<Longrightarrow> \<not> estop_seen (ws j)"
  shows "mode_after ws (Suc n) = Moving"
  using assms
proof (induction n)
  case (Suc n)
  have n: "\<not> estop_seen (ws (Suc n))" using Suc.prems by simp
  show ?case
  proof (cases "k = n")
    case True
    have "\<not> estop_seen (ws n)" using Suc.prems True by simp
    then have "mode_after ws (Suc n) \<in> {Idle, Moving}"
      using Suc.prems(2) True by (cases "mode_after ws n") (simp_all add: mode_step_def)
    moreover have "mode_after ws (Suc (Suc n)) =
        mode_step (estop_seen (ws (Suc n))) (ack_taken (ws (Suc n))) (mode_after ws (Suc n))"
      by (rule mode_after.simps)
    ultimately show ?thesis using n by (auto simp: mode_step_def simp del: mode_after.simps)
  next
    case False
    then have "mode_after ws (Suc n) = Moving" using Suc by auto
    then show ?thesis using n by (simp add: mode_step_def)
  qed
qed simp

section \<open>Transitions\<close>

text \<open>
  What the loop has last published agrees with its variables, from the first cycle on.
\<close>

definition published_now :: "control_loop \<Rightarrow> bool" where
  "published_now c \<longleftrightarrow>
     (case read_snapshot (published c) of
        None \<Rightarrow> False
      | Some s \<Rightarrow>
          s_safety_state s = of_nat (state_value (last_safety_state c)) \<and>
          s_torque_permitted s = (if last_torque_permitted c then 1 else 0) \<and>
          s_safety_sequence s = safety_sequence c \<and> s_safety_transition_monotonic_ns s = last_transition_ns c)"

lemma cycle_published_now:
  assumes "snapshot_slot_ok (published c)"
  shows "published_now (fst (cycle granted ws ctx st c))"
proof -
  obtain out sup where d: "cycle_decision (ws (turn c)) (ctx_period_ns ctx * sint (ctx_index ctx)) c = (out, sup)"
    by fastforce
  show ?thesis
    using assms
    by (simp add: published_now_def cycle_eq Let_def d read_publish_words cycle_snapshot_def note_transition_def)
qed

lemma cycle_transition:
  "let c' = fst (cycle granted ws ctx st c);
       same = (last_safety_state c' = last_safety_state c \<and> last_torque_permitted c' = last_torque_permitted c)
   in safety_sequence c' = safety_sequence c + (if same then 0 else 1) \<and>
      last_transition_ns c' = (if same then last_transition_ns c else monotonicNanos (transition_clock (ws (turn c))))"
proof -
  obtain out sup where d: "cycle_decision (ws (turn c)) (ctx_period_ns ctx * sint (ctx_index ctx)) c = (out, sup)"
    by fastforce
  show ?thesis by (auto simp: cycle_eq Let_def d note_transition_def)
qed

lemma control_after_turn: "turn (control_after granted ws p obs c n) = turn c + n"
  by (induction n) (simp_all add: cycle_turn)

lemma control_after_slot_ok:
  "snapshot_slot_ok (published c) \<Longrightarrow> snapshot_slot_ok (published (control_after granted ws p obs c n))"
  by (induction n) (simp_all add: cycle_slot_ok)

lemma state_word_inject: "(of_nat (state_value a) :: u32) = of_nat (state_value b) \<longleftrightarrow> a = b"
  by (cases a; cases b) simp_all

section \<open>A loop slower than the watchdog\<close>

lemma telegram_late:
  "linked c \<Longrightarrow> late (receiver c) now \<Longrightarrow> safe_state (receiver (telegram_round_trip now c))"
proof -
  assume c: "linked c" and l: "late (receiver c) now"
  obtain t where t: "encode (sender c) payload_in 0 (telegram c) =
      (True, (sender c)\<lparr>consecutive_number := next_cn (consecutive_number (sender c))\<rparr>, t)"
    "view t = wire (s_address (sender c)) payload_in 0 (consecutive_number (sender c))"
    using encode_ok [of payload_in "telegram c" "sender c" 0] c by (auto simp: linked_def payload_in_def)
  let ?d = "(delivery c)\<lparr>payload_size := 0, status_out := 0\<rparr>"
  have "verdict (receiver c) 64 now payload_in 0 (consecutive_number (sender c))
      (computeTelegramCrc (r_address (receiver c)) payload_in 0 (consecutive_number (sender c))) = RS_Timeout"
    using c l by (simp add: verdict_def linked_def payload_in_def)
  then have "receive (receiver c) (view t) now ?d =
      (RS_Timeout, rejected (receiver c) (consecutive_number (sender c)) RS_Timeout, reset_delivery ?d)"
    using c unfolding t(2) by (simp add: wire_def receive_frame linked_def)
  then show ?thesis
    using t(1) rejected_latched [of RS_Timeout] by (simp add: telegram_round_trip_def Let_def)
qed

lemma telegram_latched: "safe_state (receiver c) \<Longrightarrow> safe_state (receiver (telegram_round_trip now c))"
  by (simp add: telegram_round_trip_def Let_def receive_latched split: prod.splits)

lemma cycle_receiver:
  "receiver (fst (cycle granted ws ctx st c)) = receiver (telegram_round_trip (ctx_period_ns ctx * sint (ctx_index ctx)) c)"
  by (simp add: cycle_eq Let_def split: prod.splits)

lemma slow_loop_latches:
  assumes "50000000 < p" and "snapshot_slot_ok q" and "2 \<le> n"
  shows "safe_state (receiver (control_after granted ws p obs (new_control_loop now q) n))"
  using assms(3)
proof (induction n rule: dec_induct)
  case base
  let ?c = "new_control_loop now q"
  let ?c1 = "control_after granted ws p obs ?c 1"
  have "\<not> late (receiver ?c) 0" by (simp add: late_def new_control_loop_def new_SafetyReceiver_def)
  then have t: "linked (telegram_round_trip 0 ?c)" "synchronised (receiver (telegram_round_trip 0 ?c))"
    "last_valid_ns (receiver (telegram_round_trip 0 ?c)) = 0"
    using telegram_accepted [OF linked_new] by simp_all
  have c1: "receiver ?c1 = receiver (telegram_round_trip 0 ?c)" "linked ?c1"
    using t(1) by (simp_all add: cycle_receiver) (simp add: linked_def cycle_eq Let_def split: prod.splits)
  have "late (receiver ?c1) (p * sint (1 :: u64))"
    unfolding c1(1) using t assms(1) by (simp add: late_def linked_def)
  then have "safe_state (receiver (telegram_round_trip (p * sint (1 :: u64)) ?c1))"
    using telegram_late c1(2) by blast
  then show ?case by (simp add: numeral_2_eq_2 cycle_receiver)
next
  case (step n)
  then show ?case by (simp add: cycle_receiver telegram_latched)
qed

section \<open>The loop in the executor\<close>

lemma control_after_cong:
  "(\<And>j. j < n \<Longrightarrow> obs j = obs' j) \<Longrightarrow> control_after granted ws p obs c n = control_after granted ws p obs' c n"
  by (induction n) simp_all

lemma cycle_allocates_nothing: "fst (snd (cycle granted ws ctx st c)) = []"
  by (simp add: cycle_def Let_def split: prod.splits)

lemma cycle_stop: "snd (snd (cycle granted ws ctx st c)) = shutdown_seen (ws (turn c))"
  by (simp add: cycle_def Let_def split: prod.splits)

lemma noted_nothing: "g_violations (noted b [] g) = g_violations g"
  by (simp add: noted_def)

text \<open>The state of the executor before iteration \<open>i\<close> of a run that starts in \<open>c\<close>.\<close>

definition daemon_at ::
  "bool \<Rightarrow> (nat \<Rightarrow> cycle_world) \<Rightarrow> ExecutorConfig \<Rightarrow> control_loop \<Rightarrow> u64 \<Rightarrow> nat \<Rightarrow> control_loop run_state \<Rightarrow> bool" where
  "daemon_at granted ws cfg c v i s \<longleftrightarrow>
     exec_config (executor s) = cfg \<and> loop_index s = of_nat i \<and> cycles_executed (exec_stats (executor s)) = of_nat i \<and>
     g_violations (guard s) = v \<and> (\<exists>obs. user s = control_after granted ws (period cfg) obs c i) \<and>
     (stop_requested (executor s) \<longleftrightarrow> (\<exists>j<i. shutdown_seen (ws j)))"

lemma daemon_at_cycle:
  assumes at: "daemon_at granted ws cfg c v i s" and p: "0 < period cfg" and t: "turn c = 0"
    and cyc: "run_cycle (cycle granted ws) env s = Some s'"
  shows "daemon_at granted ws cfg c v (Suc i) (s'\<lparr>loop_index := loop_index s' + 1\<rparr>)"
proof -
  have p': "0 < period (exec_config (executor s))" using at p by (simp add: daemon_at_def)
  obtain obs where obs: "user s = control_after granted ws (period cfg) obs c i" using at by (auto simp: daemon_at_def)
  obtain st where st: "user s' = fst (cycle granted ws (cycle_context env s) st (user s))"
    "g_violations (guard s') = g_violations (guard s)"
    "stop_requested (executor s') \<longleftrightarrow> stop_requested (executor s) \<or> shutdown_seen (ws (turn (user s)))"
    using run_cycle_callback [OF cyc p'] by (auto simp: cycle_allocates_nothing cycle_stop noted_nothing)
  have r: "loop_index s' = loop_index s" "exec_config (executor s') = exec_config (executor s)"
    "cycles_executed (exec_stats (executor s')) = cycles_executed (exec_stats (executor s)) + 1"
    using run_cycle_result [OF cyc p'] by (simp_all add: Let_def cycle_stats_def)
  define j where "j = ctx_wakeup_jitter_ns (cycle_context env s)"
  let ?obs = "obs(i := (j, st))"
  have "control_after granted ws (period cfg) ?obs c i = user s"
    unfolding obs by (rule control_after_cong) simp
  moreover have "cycle_context env s = \<lparr>ctx_index = of_nat i, ctx_wakeup_jitter_ns = j, ctx_period_ns = period cfg\<rparr>"
    using at by (simp add: j_def cycle_context_def daemon_at_def)
  ultimately have "user s' = control_after granted ws (period cfg) ?obs c (Suc i)"
    using st(1) by simp
  moreover have "turn (user s) = i" by (simp add: obs control_after_turn t)
  ultimately show ?thesis
    using at st r by (auto simp: daemon_at_def less_Suc_eq intro: exI [of _ ?obs])
qed

lemma daemon_loop_stops:
  assumes "daemon_at granted ws cfg c v i s" and "i \<le> Suc k"
    and "0 < period cfg" and "turn c = 0" and "\<And>j. \<not> stop_seen (envs j)"
    and "\<And>j d. \<exists>m. nanosleep (envs j) d m \<noteq> EINTR" and "shutdown_seen (ws k)" and "\<And>j. j < k \<Longrightarrow> \<not> shutdown_seen (ws j)"
  shows "\<exists>r. run_loop (cycle granted ws) 0 envs i s = Some r \<and> daemon_at granted ws cfg c v (Suc k) r"
  using assms(1,2)
proof (induction "Suc k - i" arbitrary: i s)
  case 0
  then have "i = Suc k" by simp
  then have "stopRequested (executor s)"
    using 0 assms(7) by (auto simp: daemon_at_def stopRequested_def)
  then show ?case
    using 0 \<open>i = Suc k\<close> assms(5) by (subst run_loop.simps) (simp add: observe_stop_def)
next
  case (Suc d)
  then have "i \<le> k" by simp
  have d: "d = Suc k - Suc i" using Suc.hyps(2) by simp
  have run: "\<not> stopRequested (executor s)"
    using Suc.prems assms(8) \<open>i \<le> k\<close> by (auto simp: daemon_at_def stopRequested_def)
  have "tolerated (cycle granted ws) (guard s)" by (simp add: tolerated_def cycle_allocates_nothing)
  moreover obtain m where "nanosleep (envs i) (fromNanos (deadline_ns s)) m \<noteq> EINTR" using assms(6) by blast
  ultimately obtain s' where s': "run_cycle (cycle granted ws) (envs i) s = Some s'"
    using run_cycle_returns [of "envs i" s m "cycle granted ws"] Suc.prems(1) assms(3) by (auto simp: daemon_at_def)
  obtain r where "run_loop (cycle granted ws) 0 envs (Suc i) (s'\<lparr>loop_index := loop_index s' + 1\<rparr>) = Some r"
    "daemon_at granted ws cfg c v (Suc k) r"
    using Suc.hyps(1) [OF d daemon_at_cycle [OF Suc.prems(1) assms(3,4) s']] \<open>i \<le> k\<close> by auto
  then show ?case
    using run s' assms(5) by (subst run_loop.simps) (simp add: observe_stop_def)
qed

section \<open>Properties\<close>

text \<open>The slot as the daemon sets it up, and the period of a frequency.\<close>

definition initial_slot :: "u32 \<times> u32 \<Rightarrow> seqlock" where
  "initial_slot gaps = publish (fst gaps) (snd gaps) new_RuntimeSnapshot (new_seqlock (kWordCount 168))"

lemma initial_slot_ok: "snapshot_slot_ok (initial_slot gaps)"
  by (simp add: initial_slot_def publish_ok new_slot_ok)

lemma daemon_period: "period (daemon_executor_config f prio) = 1000000000 div f"
  by (simp add: daemon_executor_config_def)

lemma daemon_period_range:
  assumes "20 \<le> f" and "f \<le> 100000"
  shows "0 < period (daemon_executor_config f prio)" "period (daemon_executor_config f prio) \<le> 50000000"
proof -
  have "1000000000 div 100000 \<le> 1000000000 div f" using assms by (intro zdiv_mono2) simp_all
  moreover have "1000000000 div f \<le> 1000000000 div 20" using assms by (intro zdiv_mono2) simp_all
  ultimately show "0 < period (daemon_executor_config f prio)" "period (daemon_executor_config f prio) \<le> 50000000"
    by (simp_all add: daemon_period)
qed

text \<open>A world with nothing in it, for the concrete cases.\<close>

definition quiet_world :: cycle_world where
  "quiet_world = \<lparr>estop_seen = False, ack_taken = False, transition_clock = \<lparr>tv_sec = 1, tv_nsec = 0\<rparr>,
     publish_clock = \<lparr>tv_sec = 1, tv_nsec = 0\<rparr>, estop_seen_later = False, uptime = 0,
     shutdown_seen = False, padding = (0, 0)\<rparr>"

text \<open>
  C4. The loop is a machine of four modes: at every frequency from 20 Hz up, after any
  number of cycles, whatever flags they saw and whatever the executor measured, a
  reader of the slot finds the state, fault, torque and latch of the mode that the
  emergency stops and acknowledgements so far lead to, and as many accepted telegrams
  as there were cycles, none rejected.
\<close>

theorem daemon_refines_modes:
  assumes "20 \<le> f" and "f \<le> 100000"
  shows "shows_mode (Suc n) (mode_after ws (Suc n))
    (published (control_after granted ws (period (daemon_executor_config f prio)) obs
       (new_control_loop now (initial_slot gaps)) (Suc n)))"
  by (rule control_after_shows [OF daemon_period_range [OF assms] initial_slot_ok])

theorem daemon_refines_modes_witness:
  "shows_mode 2 Moving
    (published (control_after True (\<lambda>_. quiet_world) (period (daemon_executor_config 1000 80)) (\<lambda>_. (0, new_ExecutorStats))
       (new_control_loop \<lparr>tv_sec = 0, tv_nsec = 0\<rparr> (initial_slot (0, 0))) 2))"
  using daemon_refines_modes [of 1000 1 "\<lambda>_. quiet_world" True 80 "\<lambda>_. (0, new_ExecutorStats)" "\<lparr>tv_sec = 0, tv_nsec = 0\<rparr>" "(0, 0)"]
  by (simp add: numeral_2_eq_2 mode_step_def quiet_world_def)

text \<open>
  An emergency stop holds until it is cleared and acknowledged: from the cycle that
  sees the flag on, as long as no cycle sees an acknowledgement without the flag, every
  published snapshot denies torque and carries the latched fault with its cause.
\<close>

theorem emergency_stop_holds:
  assumes "20 \<le> f" and "f \<le> 100000" and "k \<le> n" and "estop_seen (ws k)"
    and "\<And>j. k < j \<Longrightarrow> j \<le> n \<Longrightarrow> ack_taken (ws j) \<Longrightarrow> estop_seen (ws j)"
  shows "\<exists>s. read_snapshot (published (control_after granted ws (period (daemon_executor_config f prio)) obs
       (new_control_loop now (initial_slot gaps)) (Suc n))) = Some s \<and>
    s_torque_permitted s = 0 \<and> s_fault_latched s = 1 \<and> s_fault_reason s = of_nat (fault_value FR_EmergencyStop)"
  using control_after_shows [OF daemon_period_range [OF assms(1,2), of prio] initial_slot_ok, of n ws granted obs now gaps]
    faulted_until_acknowledged [of k n ws, OF assms(3-5)]
  by (auto simp: shows_mode_def split: option.splits simp del: control_after.simps mode_after.simps)

theorem emergency_stop_holds_witness:
  "\<exists>s. read_snapshot (published (control_after True (\<lambda>j. if j = 2 then quiet_world\<lparr>estop_seen := True\<rparr> else quiet_world)
       (period (daemon_executor_config 1000 80)) (\<lambda>_. (0, new_ExecutorStats))
       (new_control_loop \<lparr>tv_sec = 0, tv_nsec = 0\<rparr> (initial_slot (0, 0))) (Suc 9))) = Some s \<and>
    s_torque_permitted s = 0 \<and> s_fault_latched s = 1"
proof -
  let ?ws = "\<lambda>j :: nat. if j = 2 then quiet_world\<lparr>estop_seen := True\<rparr> else quiet_world"
  have "\<not> ack_taken quiet_world" by (simp add: quiet_world_def)
  then show ?thesis
    using emergency_stop_holds [of 1000 2 9 ?ws True 80 "\<lambda>_. (0, new_ExecutorStats)" "\<lparr>tv_sec = 0, tv_nsec = 0\<rparr>" "(0, 0)"]
    by (auto simp del: control_after.simps)
qed

text \<open>
  The way back: once a cycle sees an acknowledgement and no cycle from it on sees the
  emergency stop, torque is permitted again from the next cycle on, whatever went before.
\<close>

theorem restart_after_acknowledgement:
  assumes "20 \<le> f" and "f \<le> 100000" and "k < n" and "ack_taken (ws k)"
    and "\<And>j. k \<le> j \<Longrightarrow> j \<le> n \<Longrightarrow> \<not> estop_seen (ws j)"
  shows "\<exists>s. read_snapshot (published (control_after granted ws (period (daemon_executor_config f prio)) obs
       (new_control_loop now (initial_slot gaps)) (Suc n))) = Some s \<and>
    s_torque_permitted s = 1 \<and> s_fault_latched s = 0"
  using control_after_shows [OF daemon_period_range [OF assms(1,2), of prio] initial_slot_ok, of n ws granted obs now gaps]
    moving_after_acknowledgement [of k n ws, OF assms(3-5)]
  by (auto simp: shows_mode_def split: option.splits simp del: control_after.simps mode_after.simps)

theorem restart_after_acknowledgement_witness:
  "\<exists>s. read_snapshot (published (control_after True
       (\<lambda>j. if j < 3 then quiet_world\<lparr>estop_seen := True\<rparr> else quiet_world\<lparr>ack_taken := True\<rparr>)
       (period (daemon_executor_config 1000 80)) (\<lambda>_. (0, new_ExecutorStats))
       (new_control_loop \<lparr>tv_sec = 0, tv_nsec = 0\<rparr> (initial_slot (0, 0))) (Suc 4))) = Some s \<and>
    s_torque_permitted s = 1 \<and> s_fault_latched s = 0"
proof -
  let ?ws = "\<lambda>j :: nat. if j < 3 then quiet_world\<lparr>estop_seen := True\<rparr> else quiet_world\<lparr>ack_taken := True\<rparr>"
  have "ack_taken (?ws 3)" "\<And>j. 3 \<le> j \<Longrightarrow> \<not> estop_seen (?ws j)" by (simp_all add: quiet_world_def)
  then show ?thesis
    using restart_after_acknowledgement [of 1000 3 4 ?ws True 80 "\<lambda>_. (0, new_ExecutorStats)" "\<lparr>tv_sec = 0, tv_nsec = 0\<rparr>" "(0, 0)"]
    by (auto simp del: control_after.simps)
qed

text \<open>
  A consumer can tell decisions apart: from the first cycle on, between two
  consecutive snapshots the sequence number moves by one exactly if the state or the
  torque did, and stays otherwise; the stamp is the clock read in the cycle that
  changed them, and stays with them.
\<close>

theorem transitions_stamped:
  assumes "read_snapshot (published (control_after granted ws p obs (new_control_loop now (initial_slot gaps)) (Suc n))) = Some s"
    and "read_snapshot (published (control_after granted ws p obs (new_control_loop now (initial_slot gaps)) (Suc (Suc n)))) = Some s'"
  shows "let same = (s_safety_state s' = s_safety_state s \<and> s_torque_permitted s' = s_torque_permitted s)
    in s_safety_sequence s' = s_safety_sequence s + (if same then 0 else 1) \<and>
       s_safety_transition_monotonic_ns s' =
         (if same then s_safety_transition_monotonic_ns s else monotonicNanos (transition_clock (ws (Suc n))))"
proof -
  let ?c = "\<lambda>i. control_after granted ws p obs (new_control_loop now (initial_slot gaps)) i"
  have ok: "snapshot_slot_ok (published (?c i))" for i
    by (intro control_after_slot_ok) (simp add: new_control_loop_def initial_slot_ok)
  have turn: "turn (?c (Suc n)) = Suc n" by (simp only: control_after_turn) (simp add: new_control_loop_def)
  have now: "published_now (?c (Suc i))" for i
    using cycle_published_now [OF ok [of i]] by simp
  have s: "s_safety_state s = of_nat (state_value (last_safety_state (?c (Suc n))))"
      "s_torque_permitted s = (if last_torque_permitted (?c (Suc n)) then 1 else 0)"
      "s_safety_sequence s = safety_sequence (?c (Suc n))"
      "s_safety_transition_monotonic_ns s = last_transition_ns (?c (Suc n))"
    using now [of n] assms(1) by (simp_all add: published_now_def del: control_after.simps)
  have s': "s_safety_state s' = of_nat (state_value (last_safety_state (?c (Suc (Suc n)))))"
      "s_torque_permitted s' = (if last_torque_permitted (?c (Suc (Suc n))) then 1 else 0)"
      "s_safety_sequence s' = safety_sequence (?c (Suc (Suc n)))"
      "s_safety_transition_monotonic_ns s' = last_transition_ns (?c (Suc (Suc n)))"
    using now [of "Suc n"] assms(2) by (simp_all add: published_now_def del: control_after.simps)
  show ?thesis
    using cycle_transition [of granted ws "\<lparr>ctx_index = of_nat (Suc n), ctx_wakeup_jitter_ns = fst (obs (Suc n)), ctx_period_ns = p\<rparr>"
        "snd (obs (Suc n))" "?c (Suc n)"]
    unfolding s s' control_after.simps(2) [of _ _ _ _ _ "Suc n", symmetric] turn Let_def
    by (auto simp: state_word_inject simp del: control_after.simps)
qed

theorem transitions_stamped_witness:
  "\<exists>s s'.
    read_snapshot (published (control_after True (\<lambda>_. quiet_world) 1000000 (\<lambda>_. (0, new_ExecutorStats))
      (new_control_loop \<lparr>tv_sec = 0, tv_nsec = 0\<rparr> (initial_slot (0, 0))) (Suc 0))) = Some s \<and>
    read_snapshot (published (control_after True (\<lambda>_. quiet_world) 1000000 (\<lambda>_. (0, new_ExecutorStats))
      (new_control_loop \<lparr>tv_sec = 0, tv_nsec = 0\<rparr> (initial_slot (0, 0))) (Suc (Suc 0)))) = Some s' \<and>
    s_safety_sequence s' = s_safety_sequence s + 1 \<and> s_safety_transition_monotonic_ns s' = 1000000000"
proof -
  let ?q = "\<lambda>n. published (control_after True (\<lambda>_. quiet_world) 1000000 (\<lambda>_. (0, new_ExecutorStats))
      (new_control_loop \<lparr>tv_sec = 0, tv_nsec = 0\<rparr> (initial_slot (0, 0))) n)"
  have m: "shows_mode (Suc n) (mode_after (\<lambda>_. quiet_world) (Suc n)) (?q (Suc n))" for n
    by (rule control_after_shows [OF _ _ initial_slot_ok]) simp_all
  have "mode_after (\<lambda>_. quiet_world) (Suc 0) = Idle" "mode_after (\<lambda>_. quiet_world) (Suc (Suc 0)) = Moving"
    by (simp_all add: mode_step_def quiet_world_def)
  then obtain s s' where s: "read_snapshot (?q (Suc 0)) = Some s" "read_snapshot (?q (Suc (Suc 0))) = Some s'"
    "s_torque_permitted s = 0" "s_torque_permitted s' = 1"
    using m [of 0] m [of "Suc 0"] unfolding shows_mode_def
    by (auto split: option.splits simp del: control_after.simps mode_after.simps)
  have "monotonicNanos (transition_clock quiet_world) = 1000000000"
    by (simp add: monotonicNanos_def quiet_world_def)
  then show ?thesis
    using s transitions_stamped [OF s(1,2)] by (auto simp: Let_def simp del: control_after.simps)
qed

text \<open>
  C21. The loop shuts down: run by the executor without a limit, with sleeps that end
  and no other request to stop, it returns after the first cycle that sees the shutdown
  flag, having executed exactly the cycles up to it and allocated nothing.
\<close>

theorem daemon_shuts_down:
  assumes "shutdown_seen (ws k)" and "\<And>j. j < k \<Longrightarrow> \<not> shutdown_seen (ws j)" and "1 \<le> f" and "f \<le> 100000"
    and "\<And>j. \<not> stop_seen (envs j)" and "\<And>j d. \<exists>m. nanosleep (envs j) d m \<noteq> EINTR"
  shows "\<exists>e g' obs. run (cycle granted ws) 0 started envs
      (new_CyclicExecutor (daemon_executor_config f prio), new_control_loop now (initial_slot gaps), g) =
      Some (e, control_after granted ws (period (daemon_executor_config f prio)) obs
        (new_control_loop now (initial_slot gaps)) (Suc k), g') \<and>
    cycles_executed (exec_stats e) = of_nat (Suc k) \<and> allocation_violations (exec_stats e) = 0"
proof -
  let ?cfg = "daemon_executor_config f prio" and ?c = "new_control_loop now (initial_slot gaps)"
  let ?s = "start_state started (new_CyclicExecutor ?cfg) ?c g"
  have "1000000000 div 100000 \<le> 1000000000 div f" using assms(3,4) by (intro zdiv_mono2) simp_all
  then have p: "0 < period ?cfg" by (simp add: daemon_period)
  have "daemon_at granted ws ?cfg ?c (g_violations g) 0 ?s"
    by (simp add: daemon_at_def start_state_def new_CyclicExecutor_def new_ExecutorStats_def)
  moreover have "turn ?c = 0" by (simp add: new_control_loop_def)
  ultimately obtain r where r: "run_loop (cycle granted ws) 0 envs 0 ?s = Some r"
    "daemon_at granted ws ?cfg ?c (g_violations g) (Suc k) r"
    using daemon_loop_stops [of granted ws ?cfg ?c "g_violations g" 0 ?s k envs] p assms(1,2,5,6) by auto
  then show ?thesis
    using p by (auto simp: run_def Let_def daemon_at_def on_stats_def allocationReport_def new_CyclicExecutor_def
        simp del: control_after.simps)
qed

definition demo_world :: "nat \<Rightarrow> cycle_world" where
  "demo_world j = quiet_world\<lparr>shutdown_seen := j = 4\<rparr>"

theorem daemon_shuts_down_witness:
  "\<exists>e g'. \<exists>obs. run (cycle True demo_world) 0 \<lparr>tv_sec = 0, tv_nsec = 0\<rparr> demo_env
      (new_CyclicExecutor (daemon_executor_config 1000 80),
       new_control_loop \<lparr>tv_sec = 0, tv_nsec = 0\<rparr> (initial_slot (0, 0)), demo_guard) =
      Some (e, control_after True demo_world (period (daemon_executor_config 1000 80)) obs
        (new_control_loop \<lparr>tv_sec = 0, tv_nsec = 0\<rparr> (initial_slot (0, 0))) (Suc 4), g') \<and>
    cycles_executed (exec_stats e) = of_nat (Suc 4) \<and> allocation_violations (exec_stats e) = 0"
proof (rule daemon_shuts_down)
  show "\<exists>m. nanosleep (demo_env j) d m \<noteq> EINTR" for j d
    by (rule exI [of _ 1]) (simp add: demo_env_def EINTR_def)
qed (simp_all add: demo_world_def quiet_world_def demo_env_def)

end
