(* ===== verification/Flag_Watcher.thy ===== *)
theory Flag_Watcher
  imports Prelude
begin

text \<open>
  The file watchers of the daemon (\<open>FileFlagWatcher\<close> in \<open>src/apps/safeedged.cpp\<close>): a
  thread that polls for a file and an atomic flag that the control loop reads.  The
  watcher, the people who create and remove the file, and the control loop interleave
  freely; one step is one access to the file system or to the flag.  The theory shows
  that in latch mode an acknowledgement is delivered at most once per appearance of the
  file, and that in both modes a file that stays is seen.
\<close>

section \<open>Model\<close>

datatype Mode = kLevel | kLatchOnce

text \<open>Where the thread is: about to look, past the look with its result, past the removal, and ended.\<close>

datatype watch_pc = Top | Checked bool | Unlinked | Ended

record FileFlagWatcher =
  mode :: Mode
  asserted_flag :: bool
  running_flag :: bool
  pc :: watch_pc

definition new_FileFlagWatcher :: "Mode \<Rightarrow> FileFlagWatcher" where
  "new_FileFlagWatcher m = \<lparr>mode = m, asserted_flag = False, running_flag = True, pc = Top\<rparr>"

definition asserted :: "FileFlagWatcher \<Rightarrow> bool" where
  "asserted w = asserted_flag w"

definition takeOnce :: "FileFlagWatcher \<Rightarrow> bool \<times> FileFlagWatcher" where
  "takeOnce w = (asserted_flag w, w\<lparr>asserted_flag := False\<rparr>)"

definition destroy :: "FileFlagWatcher \<Rightarrow> FileFlagWatcher" where
  "destroy w = w\<lparr>running_flag := False\<rparr>"

text \<open>
  The next access of the thread: the watcher, and whether the file is there, before and
  after.  \<open>removed\<close> tells whether an \<open>unlink\<close> of the file succeeds; its result is not
  looked at.  Only the thread sets the flag in level mode, so that its comparison and
  its store are one step.
\<close>

definition watcher_step :: "bool \<Rightarrow> FileFlagWatcher \<times> bool \<Rightarrow> FileFlagWatcher \<times> bool" where
  "watcher_step removed = (\<lambda>(w, present).
     case pc w of
       Top \<Rightarrow> if running_flag w then (w\<lparr>pc := Checked present\<rparr>, present) else (w\<lparr>pc := Ended\<rparr>, present)
     | Checked seen \<Rightarrow>
         if mode w = kLatchOnce then
           if seen then (w\<lparr>pc := Unlinked\<rparr>, if removed then False else present)
           else (w\<lparr>pc := Top\<rparr>, present)
         else if seen \<noteq> asserted_flag w then (w\<lparr>asserted_flag := seen, pc := Top\<rparr>, present)
         else (w\<lparr>pc := Top\<rparr>, present)
     | Unlinked \<Rightarrow> (w\<lparr>asserted_flag := True, pc := Top\<rparr>, present)
     | Ended \<Rightarrow> (w, present))"

datatype watch_event = Thread bool | Touch | Remove | Take bool | Destroy

text \<open>The events that make the file appear, and the acknowledgements handed out.\<close>

inductive watch_trace :: "Mode \<Rightarrow> watch_event list \<Rightarrow> FileFlagWatcher \<times> bool \<Rightarrow> nat \<Rightarrow> bool" for m where
  start: "watch_trace m [] (new_FileFlagWatcher m, present) (if present then 1 else 0)"
| thread: "watch_trace m es (w, f) n \<Longrightarrow> watch_trace m (es @ [Thread r]) (watcher_step r (w, f)) n"
| touch: "watch_trace m es (w, f) n \<Longrightarrow> watch_trace m (es @ [Touch]) (w, True) (if f then n else Suc n)"
| remove: "watch_trace m es (w, f) n \<Longrightarrow> watch_trace m (es @ [Remove]) (w, False) n"
| take: "watch_trace m es (w, f) n \<Longrightarrow> takeOnce w = (b, w') \<Longrightarrow> watch_trace m (es @ [Take b]) (w', f) n"
| destroy: "watch_trace m es (w, f) n \<Longrightarrow> watch_trace m (es @ [Destroy]) (destroy w, f) n"

inductive_cases watch_traceE: "watch_trace m es s n"

definition acknowledged :: "watch_event list \<Rightarrow> nat" where
  "acknowledged es = length (filter (\<lambda>e. e = Take True) es)"

section \<open>Acknowledgements\<close>

text \<open>An appearance is on its way from the file through the thread to the flag.\<close>

definition on_the_way :: "FileFlagWatcher \<times> bool \<Rightarrow> nat" where
  "on_the_way = (\<lambda>(w, f).
     (if f \<or> pc w = Checked True then 1 else 0) + (if pc w = Unlinked then 1 else 0)
     + (if asserted_flag w then 1 else 0))"

lemma acknowledged_append [simp]:
  "acknowledged (es @ [e]) = acknowledged es + (if e = Take True then 1 else 0)"
  by (simp add: acknowledged_def)

lemma watcher_step_mode [simp]: "mode (fst (watcher_step r (w, f))) = mode w"
  by (auto simp: watcher_step_def split: watch_pc.splits)

lemma watcher_step_on_the_way:
  "mode w = kLatchOnce \<Longrightarrow> on_the_way (watcher_step True (w, f)) \<le> on_the_way (w, f)"
  by (auto simp: watcher_step_def on_the_way_def split: watch_pc.splits)

lemma watch_trace_mode: "watch_trace m es s n \<Longrightarrow> mode (fst s) = m"
  by (induction rule: watch_trace.induct)
    (auto simp: new_FileFlagWatcher_def takeOnce_def destroy_def)

lemma appearances:
  "watch_trace m es s n \<Longrightarrow> m = kLatchOnce \<Longrightarrow> Thread False \<notin> set es \<Longrightarrow> acknowledged es + on_the_way s \<le> n"
proof (induction rule: watch_trace.induct)
  case (thread es w f n r)
  then have "mode w = kLatchOnce" using watch_trace_mode by fastforce
  moreover have "r" using thread.prems by (cases r) auto
  ultimately show ?case using thread watcher_step_on_the_way [of w f] by auto
qed (auto simp: new_FileFlagWatcher_def takeOnce_def destroy_def on_the_way_def acknowledged_def split: if_splits)

text \<open>
  If the file cannot be removed the appearance is delivered over and over: here twice.
\<close>

lemma unremovable_acknowledges_again:
  "\<exists>es s. watch_trace kLatchOnce es s 1 \<and> acknowledged es = 2"
proof -
  let ?n = "new_FileFlagWatcher kLatchOnce"
  have turn: "watch_trace kLatchOnce (es @ [Thread False] @ [Thread False] @ [Thread False] @ [Take True]) (?n, True) 1"
    if "watch_trace kLatchOnce es (?n, True) 1" for es
  proof -
    have "watch_trace kLatchOnce (((es @ [Thread False]) @ [Thread False]) @ [Thread False])
        (?n\<lparr>asserted_flag := True\<rparr>, True) 1"
      using watch_trace.thread [OF watch_trace.thread [OF watch_trace.thread [OF that, of False,
            unfolded watcher_step_def, simplified new_FileFlagWatcher_def, simplified], of False,
            unfolded watcher_step_def, simplified], of False, unfolded watcher_step_def, simplified]
      by (simp add: new_FileFlagWatcher_def)
    from watch_trace.take [OF this, of True ?n] show ?thesis by (simp add: takeOnce_def new_FileFlagWatcher_def)
  qed
  have "watch_trace kLatchOnce [] (?n, True) 1" using watch_trace.start [of kLatchOnce True] by simp
  from turn [OF turn [OF this]] show ?thesis by (intro exI conjI) (assumption, simp add: acknowledged_def)
qed

text \<open>
  A file that appears again before the loop has taken the first acknowledgement adds
  nothing: two appearances, one acknowledgement, and none on its way.
\<close>

lemma second_appearance_merged:
  "\<exists>es s. watch_trace kLatchOnce es s 2 \<and> Remove \<notin> set es \<and> acknowledged es = 1 \<and> on_the_way s = 0"
proof -
  let ?n = "new_FileFlagWatcher kLatchOnce"
  have turn: "watch_trace kLatchOnce (es @ [Touch] @ [Thread True] @ [Thread True] @ [Thread True]) (?n\<lparr>asserted_flag := True\<rparr>, False) (Suc k)"
    if "watch_trace kLatchOnce es (?n\<lparr>asserted_flag := b\<rparr>, False) k" for es b k
  proof -
    have "watch_trace kLatchOnce (es @ [Touch]) (?n\<lparr>asserted_flag := b\<rparr>, True) (Suc k)"
      using watch_trace.touch [OF that] by simp
    from watch_trace.thread [OF watch_trace.thread [OF watch_trace.thread [OF this, of True,
          unfolded watcher_step_def, simplified new_FileFlagWatcher_def, simplified], of True,
          unfolded watcher_step_def, simplified], of True, unfolded watcher_step_def, simplified]
    show ?thesis by (simp add: new_FileFlagWatcher_def)
  qed
  have "watch_trace kLatchOnce [] (?n\<lparr>asserted_flag := False\<rparr>, False) 0"
    using watch_trace.start [of kLatchOnce False] by (simp add: new_FileFlagWatcher_def)
  from watch_trace.take [OF turn [OF turn [OF this]], of True ?n]
  show ?thesis
    by (intro exI conjI) (simp add: takeOnce_def new_FileFlagWatcher_def numeral_2_eq_2,
      simp_all add: acknowledged_def on_the_way_def new_FileFlagWatcher_def)
qed

section \<open>Seeing the file\<close>

text \<open>The flag agrees with a file that stays, and the thread will not change it.\<close>

definition settled :: "FileFlagWatcher \<times> bool \<Rightarrow> bool \<Rightarrow> bool" where
  "settled = (\<lambda>(w, f) present. running_flag w \<and>
     (if mode w = kLevel then f = present \<and> asserted_flag w = present \<and> (pc w = Top \<or> pc w = Checked present)
      else present \<and> asserted_flag w \<and> pc w \<noteq> Ended))"

lemma settled_step: "settled s present \<Longrightarrow> settled (watcher_step r s) present"
proof (cases s)
  case (Pair w f)
  then show "settled s present \<Longrightarrow> settled (watcher_step r s) present"
    by (cases "mode w") (auto simp: settled_def watcher_step_def split: watch_pc.splits if_splits)
qed

lemma settled_after_4:
  assumes "running_flag w" and "pc w \<noteq> Ended" and "mode w = kLevel \<or> f"
  shows "settled (watcher_step True (watcher_step True (watcher_step True (watcher_step True (w, f))))) f"
proof (cases "pc w")
  case (Checked seen)
  then show ?thesis
    using assms by (cases "mode w"; cases seen; cases f; simp add: settled_def watcher_step_def)
qed (use assms in \<open>cases "mode w"; cases f; simp add: settled_def watcher_step_def\<close>)+

section \<open>Properties\<close>

text \<open>
  An acknowledgement is one-shot: in every interleaving of the thread, the people who
  create and remove the file, and the control loop, as long as the file can be removed,
  the loop takes at most one acknowledgement for each time the file appeared.
\<close>

theorem acknowledged_at_most_once:
  assumes "watch_trace kLatchOnce es s n" and "Thread False \<notin> set es"
  shows "acknowledged es \<le> n"
  using appearances [OF assms(1) refl assms(2)] by simp

theorem acknowledged_at_most_once_witness:
  "\<exists>es s. watch_trace kLatchOnce es s 1 \<and> Take True \<in> set es \<and> acknowledged es \<le> 1"
proof -
  let ?n = "new_FileFlagWatcher kLatchOnce"
  have "watch_trace kLatchOnce [Touch] (?n, True) 1"
    using watch_trace.touch [OF watch_trace.start [of kLatchOnce False]] by simp
  from watch_trace.thread [OF watch_trace.thread [OF watch_trace.thread [OF this, of True,
        unfolded watcher_step_def, simplified new_FileFlagWatcher_def, simplified], of True,
        unfolded watcher_step_def, simplified], of True, unfolded watcher_step_def, simplified]
  have "watch_trace kLatchOnce [Touch, Thread True, Thread True, Thread True] (?n\<lparr>asserted_flag := True\<rparr>, False) 1"
    by (simp add: new_FileFlagWatcher_def)
  from watch_trace.take [OF this, of True ?n]
  have t: "watch_trace kLatchOnce [Touch, Thread True, Thread True, Thread True, Take True] (?n, False) 1"
    by (simp add: takeOnce_def new_FileFlagWatcher_def)
  then show ?thesis
    using acknowledged_at_most_once [OF t]
    by (intro exI [of _ "[Touch, Thread True, Thread True, Thread True, Take True]"] exI [of _ "(?n, False)"]) simp
qed

text \<open>
  A file that stays is seen: from any point of the thread's loop, at the latest after
  four of its steps and from then on, the level flag equals the presence of the file, and
  the latch flag is set if the file was there.
\<close>

theorem flag_follows_file:
  assumes "running_flag w" and "pc w \<noteq> Ended" and "mode w = kLevel \<or> f" and "4 \<le> k"
  shows "asserted (fst ((watcher_step True ^^ k) (w, f))) = f"
proof -
  obtain j where k: "k = j + 4" using assms(4) by (metis add.commute le_Suc_ex)
  have "settled ((watcher_step True ^^ j) ((watcher_step True ^^ 4) (w, f))) f"
  proof (induction j)
    case 0
    then show ?case using settled_after_4 [OF assms(1-3)] by (simp add: eval_nat_numeral)
  next
    case (Suc j)
    then show ?case by (simp add: settled_step)
  qed
  then show ?thesis
    by (auto simp: k funpow_add settled_def asserted_def split: if_splits prod.splits)
qed

theorem flag_follows_file_witness:
  "asserted (fst ((watcher_step True ^^ 4) (new_FileFlagWatcher kLatchOnce, True)))"
  using flag_follows_file [of "new_FileFlagWatcher kLatchOnce" True 4] by (simp add: new_FileFlagWatcher_def)

end
