(* ===== verification/Http_Server.thy ===== *)
theory Http_Server
  imports Prelude "HOL-Library.Sublist" "HOL-Library.Multiset"
begin

text \<open>
  The observability server (\<open>include/safeedge/edge/http_server.hpp\<close>,
  \<open>src/edge/http_server.cpp\<close>).  What the sockets answer is an argument: the results
  of the calls that open the listening socket, and for a connection the bytes each
  \<open>read\<close> returns and the counts each \<open>write\<close> accepts.  A handler is a function of the
  world it looks at when it is called.  The theory shows that a request gets the
  response of its route however the network cuts it up, and that the lifecycle
  neither leaks a descriptor nor loses the thread.
\<close>

section \<open>Model\<close>

record HttpResponse =
  status :: int
  content_type :: string
  body :: string

definition new_HttpResponse :: HttpResponse where
  "new_HttpResponse = \<lparr>status = 200, content_type = ''text/plain; charset=utf-8'', body = []\<rparr>"

type_synonym 'w handler = "'w \<Rightarrow> HttpResponse"

record 'w HttpServer =
  listen_fd :: int
  bound_port :: u16
  joinable :: bool
  running :: bool
  requests :: u64
  routes :: "string \<rightharpoonup> 'w handler"
  error_text :: string

definition new_HttpServer :: "'w HttpServer" where
  "new_HttpServer =
     \<lparr>listen_fd = -1, bound_port = 0, joinable = False, running = False, requests = 0,
      routes = Map.empty, error_text = []\<rparr>"

definition kMaxRequestBytes :: nat where
  "kMaxRequestBytes = 8192"

definition crlf :: string where
  "crlf = [CHR 0x0D, CHR 0x0A]"

definition new_line :: string where
  "new_line = [CHR 0x0A]"

definition systemError :: "(int \<Rightarrow> string) \<Rightarrow> string \<Rightarrow> int \<Rightarrow> string" where
  "systemError message operation error = operation @ '': '' @ message error"

definition reasonPhrase :: "int \<Rightarrow> string" where
  "reasonPhrase st =
     (if st = 200 then ''OK''
      else if st = 400 then ''Bad Request''
      else if st = 404 then ''Not Found''
      else if st = 405 then ''Method Not Allowed''
      else if st = 503 then ''Service Unavailable''
      else ''Error'')"

text \<open>
  The bytes that left, whether all of them did, and the answers not used; a \<open>write\<close>
  that is not answered any more counts as failed.
\<close>

fun writeAll :: "int list \<Rightarrow> string \<Rightarrow> string \<times> bool \<times> int list" where
  "writeAll ws [] = ([], True, ws)"
| "writeAll [] (c # cs) = ([], False, [])"
| "writeAll (w # ws) (c # cs) =
     (if w \<le> 0 then ([], False, ws)
      else let (sent, ok, ws) = writeAll ws (drop (nat w) (c # cs))
           in (take (nat w) (c # cs) @ sent, ok, ws))"

definition route :: "string \<Rightarrow> 'w handler \<Rightarrow> 'w HttpServer \<Rightarrow> 'w HttpServer" where
  "route path h s = s\<lparr>routes := (routes s)(path \<mapsto> h)\<rparr>"

text \<open>What the calls of \<open>start\<close> return, and the calls an operation makes, with the descriptors they got.\<close>

record socket_answers =
  socket_fd :: int
  bind_rc :: int
  listen_rc :: int
  sockname :: "u16 option"
  errno :: int
  message :: "int \<Rightarrow> string"

datatype socket_call =
    Socket int | SetReuseAddress int | Bind int u16 | Listen int nat | GetSockName int | StartThread | JoinThread
  | Accept int | Close int

definition start :: "socket_answers \<Rightarrow> u16 \<Rightarrow> 'w HttpServer \<Rightarrow> bool \<times> 'w HttpServer \<times> socket_call list" where
  "start sys p s =
     (if running s then (True, s, [])
      else
        let fd = socket_fd sys; s = s\<lparr>listen_fd := fd\<rparr> in
        if fd < 0 then (False, s\<lparr>error_text := systemError (message sys) ''socket'' (errno sys)\<rparr>, [Socket fd])
        else if bind_rc sys \<noteq> 0 then
          (False, s\<lparr>error_text := systemError (message sys) ''bind'' (errno sys), listen_fd := -1\<rparr>,
           [Socket fd, SetReuseAddress fd, Bind fd p, Close fd])
        else if listen_rc sys \<noteq> 0 then
          (False, s\<lparr>error_text := systemError (message sys) ''listen'' (errno sys), listen_fd := -1\<rparr>,
           [Socket fd, SetReuseAddress fd, Bind fd p, Listen fd 16, Close fd])
        else
          (True,
           s\<lparr>bound_port := (case sockname sys of Some q \<Rightarrow> q | None \<Rightarrow> p), running := True, joinable := True,
             error_text := []\<rparr>,
           [Socket fd, SetReuseAddress fd, Bind fd p, Listen fd 16, GetSockName fd, StartThread]))"

definition stop :: "'w HttpServer \<Rightarrow> 'w HttpServer \<times> socket_call list" where
  "stop s =
     (if \<not> running s then (s, [])
      else
        let s = s\<lparr>running := False\<rparr>;
            (s, joins) = (if joinable s then (s\<lparr>joinable := False\<rparr>, [JoinThread]) else (s, []));
            (s, closes) = (if 0 \<le> listen_fd s then (s\<lparr>listen_fd := -1\<rparr>, [Close (listen_fd s)]) else (s, []))
        in (s, joins @ closes))"

text \<open>\<open>std::string::find\<close>.\<close>

fun str_find :: "string \<Rightarrow> string \<Rightarrow> nat option" where
  "str_find pat [] = (if pat = [] then Some 0 else None)"
| "str_find pat (c # cs) = (if prefix pat (c # cs) then Some 0 else map_option Suc (str_find pat cs))"

definition find_from :: "string \<Rightarrow> nat \<Rightarrow> string \<Rightarrow> nat option" where
  "find_from pat pos s = map_option ((+) pos) (str_find pat (drop pos s))"

text \<open>
  The world of a connection: each wait for input either times out or is followed by a
  \<open>read\<close> with these bytes, none of them at end of file or on an error.  A client that
  is not heard of any more times out.
\<close>

datatype conn_answer = Timeout | Received string

fun read_request :: "conn_answer list \<Rightarrow> string \<Rightarrow> string option" where
  "read_request as request =
     (if str_find (crlf @ crlf) request = None \<and> length request < kMaxRequestBytes then
        (case as of
           [] \<Rightarrow> None
         | Timeout # _ \<Rightarrow> None
         | Received bytes # as' \<Rightarrow> if bytes = [] then None else read_request as' (request @ bytes))
      else Some request)"

declare read_request.simps [simp del]

definition respond :: "(string \<rightharpoonup> 'w handler) \<Rightarrow> 'w \<Rightarrow> string \<Rightarrow> HttpResponse" where
  "respond rs world request =
     (let response = new_HttpResponse;
          method_end = str_find '' '' request;
          path_end = (case method_end of None \<Rightarrow> None | Some m \<Rightarrow> find_from '' '' (m + 1) request)
      in case (method_end, path_end) of
           (Some m, Some p) \<Rightarrow>
             let method = take m request;
                 path = take (p - m - 1) (drop (m + 1) request);
                 path = (case str_find ''?'' path of None \<Rightarrow> path | Some q \<Rightarrow> take q path)
             in if method \<noteq> ''GET'' then
                  response\<lparr>status := 405, body := ''only GET is supported'' @ new_line\<rparr>
                else (case rs path of
                    Some h \<Rightarrow> h world
                  | None \<Rightarrow> response\<lparr>status := 404, body := ''no such endpoint'' @ new_line\<rparr>)
         | _ \<Rightarrow> response\<lparr>status := 400, body := ''malformed request'' @ new_line\<rparr>)"

definition response_head :: "HttpResponse \<Rightarrow> string" where
  "response_head r =
     ''HTTP/1.1 '' @ decimal_int (status r) @ '' '' @ reasonPhrase (status r) @ crlf
     @ ''Content-Type: '' @ content_type r @ crlf
     @ ''Content-Length: '' @ decimal (length (body r)) @ crlf
     @ ''Connection: close'' @ crlf @ crlf"

record 'w conn_env =
  answers :: "conn_answer list"
  writes :: "int list"
  world :: 'w

text \<open>The server afterwards and the bytes it sent.\<close>

definition serveConnection :: "'w conn_env \<Rightarrow> 'w HttpServer \<Rightarrow> 'w HttpServer \<times> string" where
  "serveConnection env s =
     (case read_request (answers env) [] of
        None \<Rightarrow> (s, [])
      | Some request \<Rightarrow>
          let response = respond (routes s) (world env) request;
              (sent, ok, ws) = writeAll (writes env) (response_head response);
              tail = (if ok then fst (writeAll ws (body response)) else [])
          in (s\<lparr>requests := requests s + 1\<rparr>, sent @ tail))"

text \<open>
  One turn of the accept loop: the flag as it is loaded, the result of \<open>poll\<close>, of
  \<open>accept\<close>, and the connection.  The loop ends where the flag is seen cleared.
\<close>

record 'w accept_env =
  flag :: bool
  ready :: int
  accepted_fd :: int
  conn :: "'w conn_env"

fun acceptLoop :: "'w accept_env list \<Rightarrow> 'w HttpServer \<Rightarrow> 'w HttpServer \<times> socket_call list \<times> string list" where
  "acceptLoop [] s = (s, [], [])"
| "acceptLoop (e # es) s =
     (if \<not> flag e then (s, [], [])
      else if ready e \<le> 0 then acceptLoop es s
      else if accepted_fd e < 0 then acceptLoop es s
      else
        let (s, sent) = serveConnection (conn e) s;
            (s, calls, out) = acceptLoop es s
        in (s, Accept (accepted_fd e) # Close (accepted_fd e) # calls, sent # out))"

section \<open>Finding text\<close>

lemma str_find_Some:
  "str_find pat s = Some k \<Longrightarrow> k \<le> length s \<and> prefix pat (drop k s) \<and> (\<forall>i<k. \<not> prefix pat (drop i s))"
proof (induction s arbitrary: k)
  case (Cons c cs)
  show ?case
  proof (cases "prefix pat (c # cs)")
    case False
    then obtain j where "str_find pat cs = Some j" "k = Suc j" using Cons.prems by auto
    then show ?thesis using Cons.IH [of j] False by (auto simp: less_Suc_eq_0_disj)
  qed (use Cons.prems in auto)
qed (auto split: if_splits)

lemma str_find_None: "str_find pat s = None \<Longrightarrow> i \<le> length s \<Longrightarrow> \<not> prefix pat (drop i s)"
proof (induction s arbitrary: i)
  case (Cons c cs)
  then show ?case by (cases i) (auto split: if_splits)
qed (auto split: if_splits)

lemma str_find_char: "str_find [c] s = (if c \<in> set s then Some (length (takeWhile (\<lambda>x. x \<noteq> c) s)) else None)"
  by (induction s) (auto simp: prefix_def)

lemma takeWhile_split: "c \<notin> set m \<Longrightarrow> takeWhile (\<lambda>x. x \<noteq> c) (m @ c # rest) = m"
  by (induction m) auto

lemma str_find_split: "c \<notin> set m \<Longrightarrow> str_find [c] (m @ c # rest) = Some (length m)"
  by (simp add: str_find_char takeWhile_split)

lemma str_find_cut:
  "(case str_find [c] s of None \<Rightarrow> s | Some q \<Rightarrow> take q s) = takeWhile (\<lambda>x. x \<noteq> c) s"
proof (cases "c \<in> set s")
  case True
  then show ?thesis
    by (simp add: str_find_char takeWhile_eq_take [symmetric])
next
  case False
  then have all: "takeWhile (\<lambda>x. x \<noteq> c) s = s" by (induction s) auto
  show ?thesis unfolding all using False by (simp add: str_find_char)
qed

section \<open>Requests\<close>

text \<open>A request that the blank line ends, and that is not over the size limit.\<close>

definition complete_request :: "string \<Rightarrow> bool" where
  "complete_request r \<longleftrightarrow> str_find (crlf @ crlf) r = Some (length r - 4) \<and> length r \<le> kMaxRequestBytes"

lemma incomplete_prefix:
  assumes "complete_request (q @ t)" and "t \<noteq> []"
  shows "str_find (crlf @ crlf) q = None \<and> length q < kMaxRequestBytes"
proof -
  let ?r = "q @ t"
  have r: "str_find (crlf @ crlf) ?r = Some (length ?r - 4)" "length ?r \<le> kMaxRequestBytes"
    using assms(1) by (simp_all add: complete_request_def)
  have "str_find (crlf @ crlf) q \<noteq> Some k" for k
  proof
    assume "str_find (crlf @ crlf) q = Some k"
    then have k: "k \<le> length q" "prefix (crlf @ crlf) (drop k q)" using str_find_Some by blast+
    then have "4 \<le> length (drop k q)" using prefix_length_le by (fastforce simp: crlf_def)
    moreover have "prefix (crlf @ crlf) (drop k ?r)" using k by (simp add: prefix_prefix)
    moreover have "\<forall>i<length ?r - 4. \<not> prefix (crlf @ crlf) (drop i ?r)" using str_find_Some [OF r(1)] by blast
    ultimately have "length ?r - 4 \<le> k" by (meson not_le)
    then show False using \<open>4 \<le> length (drop k q)\<close> assms(2) k(1) by (cases t) auto
  qed
  then show ?thesis using r(2) assms(2) by (cases t) auto
qed

lemma read_request_chunks:
  assumes "complete_request (q @ concat chunks)" and "[] \<notin> set chunks"
  shows "read_request (map Received chunks @ later) q = Some (q @ concat chunks)"
  using assms
proof (induction chunks arbitrary: q)
  case Nil
  then obtain k where "str_find (crlf @ crlf) q = Some k" by (simp add: complete_request_def)
  then show ?case by (subst read_request.simps) simp
next
  case (Cons b bs)
  then have "str_find (crlf @ crlf) q = None \<and> length q < kMaxRequestBytes"
    using incomplete_prefix [of q "concat (b # bs)"] by auto
  moreover have "read_request (map Received bs @ later) (q @ b) = Some ((q @ b) @ concat bs)"
    using Cons.prems by (intro Cons.IH) simp_all
  moreover have "b \<noteq> []" using Cons.prems by auto
  ultimately show ?case by (subst read_request.simps) simp
qed

text \<open>What a request of method \<open>m\<close> for the target \<open>p\<close> is to be answered.\<close>

definition answer_of :: "(string \<rightharpoonup> 'w handler) \<Rightarrow> 'w \<Rightarrow> string \<Rightarrow> string \<Rightarrow> HttpResponse" where
  "answer_of rs w m p =
     (if m \<noteq> ''GET'' then new_HttpResponse\<lparr>status := 405, body := ''only GET is supported'' @ new_line\<rparr>
      else case rs (takeWhile (\<lambda>c. c \<noteq> CHR ''?'') p) of
        Some h \<Rightarrow> h w
      | None \<Rightarrow> new_HttpResponse\<lparr>status := 404, body := ''no such endpoint'' @ new_line\<rparr>)"

lemma respond_answer:
  assumes "CHR '' '' \<notin> set m" and "CHR '' '' \<notin> set p"
  shows "respond rs w (m @ '' '' @ p @ '' '' @ rest) = answer_of rs w m p"
proof -
  let ?r = "m @ CHR '' '' # p @ CHR '' '' # rest"
  have 1: "str_find '' '' ?r = Some (length m)" using assms(1) by (rule str_find_split)
  have 2: "find_from '' '' (length m + 1) ?r = Some (length m + 1 + length p)"
    using str_find_split [OF assms(2), of rest] by (simp add: find_from_def)
  have 3: "take (length m + 1 + length p - length m - 1) (drop (length m + 1) ?r) = p" by simp
  show ?thesis
    unfolding respond_def answer_of_def append_Cons append_Nil Let_def 1 option.case 2 prod.case 3 str_find_cut by simp
qed

section \<open>Responses\<close>

lemma writeAll_complete:
  "\<forall>w\<in>set ws. 0 < w \<Longrightarrow> length d \<le> length ws \<Longrightarrow>
   \<exists>ws'. writeAll ws d = (d, True, ws') \<and> set ws' \<subseteq> set ws \<and> length ws \<le> length ws' + length d"
proof (induction ws d rule: writeAll.induct)
  case (3 w ws c cs)
  then have "0 < w" by simp
  moreover from this obtain ws' where "writeAll ws (drop (nat w) (c # cs)) = (drop (nat w) (c # cs), True, ws')"
    "set ws' \<subseteq> set ws" "length ws \<le> length ws' + length (drop (nat w) (c # cs))"
    using 3 by fastforce
  moreover have "length (drop (nat w) (c # cs)) \<le> length cs" using \<open>0 < w\<close> by (simp add: nat_eq_iff Suc_le_eq)
  ultimately show ?case by (simp del: drop_Suc_Cons take_Suc_Cons) auto
qed auto

lemma serveConnection_answers:
  assumes "complete_request (concat chunks)" and "[] \<notin> set chunks"
    and "answers env = map Received chunks @ later" and "\<forall>w\<in>set (writes env). 0 < w"
    and "r = respond (routes s) (world env) (concat chunks)"
    and "length (response_head r) + length (body r) \<le> length (writes env)"
  shows "serveConnection env s = (s\<lparr>requests := requests s + 1\<rparr>, response_head r @ body r)"
proof -
  have req: "read_request (answers env) [] = Some (concat chunks)"
    using read_request_chunks [of "[]" chunks later] assms(1-3) by simp
  obtain ws where ws: "writeAll (writes env) (response_head r) = (response_head r, True, ws)"
    "set ws \<subseteq> set (writes env)" "length (writes env) \<le> length ws + length (response_head r)"
    using writeAll_complete [OF assms(4), of "response_head r"] assms(6) by auto
  then obtain ws' where "writeAll ws (body r) = (body r, True, ws')"
    using writeAll_complete [of ws "body r"] assms(4,6) by fastforce
  then show ?thesis
    using ws(1) unfolding serveConnection_def req option.case Let_def assms(5) [symmetric] by simp
qed

section \<open>The lifecycle\<close>

datatype 'w server_op = Route string "'w handler" | Start socket_answers u16 | Stop | Turn "'w accept_env"

text \<open>What the calls do to the open descriptors and to the number of threads.\<close>

fun call_effect :: "socket_call \<Rightarrow> int multiset \<times> int \<Rightarrow> int multiset \<times> int" where
  "call_effect (Socket fd) (fds, n) = (if 0 \<le> fd then add_mset fd fds else fds, n)"
| "call_effect (Accept fd) (fds, n) = (if 0 \<le> fd then add_mset fd fds else fds, n)"
| "call_effect (Close fd) (fds, n) = (fds - {#fd#}, n)"
| "call_effect StartThread (fds, n) = (fds, n + 1)"
| "call_effect JoinThread (fds, n) = (fds, n - 1)"
| "call_effect _ r = r"

text \<open>The accept loop is the thread's, and runs only where there is one.\<close>

fun server_step :: "'w server_op \<Rightarrow> 'w HttpServer \<Rightarrow> 'w HttpServer \<times> socket_call list" where
  "server_step (Route p h) s = (route p h s, [])"
| "server_step (Start sys p) s = snd (start sys p s)"
| "server_step Stop s = stop s"
| "server_step (Turn e) s =
     (if joinable s then let (s, calls, _) = acceptLoop [e] s in (s, calls) else (s, []))"

fun server_run :: "'w server_op list \<Rightarrow> 'w HttpServer \<times> int multiset \<times> int \<Rightarrow> 'w HttpServer \<times> int multiset \<times> int" where
  "server_run [] r = r"
| "server_run (op # ops) (s, res) =
     (let (s, calls) = server_step op s in server_run ops (s, fold call_effect calls res))"

definition server_ok :: "'w HttpServer \<times> int multiset \<times> int \<Rightarrow> bool" where
  "server_ok = (\<lambda>(s, fds, n).
     (running s \<longleftrightarrow> 0 \<le> listen_fd s) \<and> (joinable s \<longleftrightarrow> running s) \<and>
     fds = (if running s then {#listen_fd s#} else {#}) \<and> n = (if running s then 1 else 0))"

lemma serveConnection_frame:
  "serveConnection env s = (s', sent) \<Longrightarrow> \<exists>n. s' = s\<lparr>requests := n\<rparr>"
proof -
  have "s = s\<lparr>requests := requests s\<rparr>" by simp
  then show "serveConnection env s = (s', sent) \<Longrightarrow> \<exists>n. s' = s\<lparr>requests := n\<rparr>"
    unfolding serveConnection_def Let_def
    by (cases "read_request (answers env) []") (auto split: prod.splits intro: exI [of _ "requests s"])
qed

lemma server_step_ok:
  assumes "server_ok (s, res)" and "server_step op s = (s', calls)"
  shows "server_ok (s', fold call_effect calls res)"
proof (cases op)
  case (Turn e)
  then show ?thesis
    using assms serveConnection_frame [of "conn e" s]
    by (cases "serveConnection (conn e) s") (auto simp: server_ok_def split: if_splits)
qed (use assms in \<open>auto simp: server_ok_def route_def start_def stop_def Let_def split: if_splits\<close>)

lemma server_run_ok: "server_ok r \<Longrightarrow> server_ok (server_run ops r)"
proof (induction ops arbitrary: r)
  case (Cons op ops)
  obtain s res where r: "r = (s, res)" by (metis surj_pair)
  obtain s' calls where s': "server_step op s = (s', calls)" by fastforce
  show ?case using Cons.IH [OF server_step_ok [OF Cons.prems [unfolded r] s']] by (simp add: r s')
qed simp

section \<open>Properties\<close>

text \<open>
  C24. What a client gets: for every request of at most 8192 bytes that its blank line
  ends, cut by the network into any non-empty pieces, and with every \<open>write\<close> taking at
  least one byte, the server sends exactly one response, of the length it announces,
  and counts it: the response of the handler registered for the path without its
  query for \<open>GET\<close>, 405 for another method and 404 for another path.
\<close>

theorem http_answers:
  assumes "complete_request r" and "r = m @ '' '' @ p @ '' '' @ rest"
    and "CHR '' '' \<notin> set m" and "CHR '' '' \<notin> set p"
    and "concat chunks = r" and "[] \<notin> set chunks" and "answers env = map Received chunks @ later"
    and "\<forall>w\<in>set (writes env). 0 < w"
    and "length (response_head (answer_of (routes s) (world env) m p) @ body (answer_of (routes s) (world env) m p))
      \<le> length (writes env)"
  shows "serveConnection env s =
    (s\<lparr>requests := requests s + 1\<rparr>,
     response_head (answer_of (routes s) (world env) m p) @ body (answer_of (routes s) (world env) m p))"
proof -
  let ?a = "answer_of (routes s) (world env) m p"
  have "?a = respond (routes s) (world env) (concat chunks)"
    using respond_answer [OF assms(3,4), of "routes s" "world env" rest] assms(2,5) by simp
  then show ?thesis
    using assms serveConnection_answers [of chunks env later ?a s] by simp
qed

definition demo_request :: string where
  "demo_request = ''GET /healthz?x HTTP/1.1'' @ crlf @ crlf"

definition demo_server :: "unit HttpServer" where
  "demo_server = route ''/healthz'' (\<lambda>_. new_HttpResponse\<lparr>body := ''ok'' @ new_line\<rparr>) new_HttpServer"

theorem http_answers_witness:
  "snd (serveConnection
      \<lparr>answers = [Received (take 7 demo_request), Received (drop 7 demo_request)], writes = replicate 200 1, world = ()\<rparr>
      demo_server) =
   ''HTTP/1.1 200 OK'' @ crlf @ ''Content-Type: text/plain; charset=utf-8'' @ crlf @ ''Content-Length: 3'' @ crlf
     @ ''Connection: close'' @ crlf @ crlf @ ''ok'' @ new_line"
proof -
  let ?env = "\<lparr>answers = [Received (take 7 demo_request), Received (drop 7 demo_request)], writes = replicate 200 1, world = ()\<rparr>"
  let ?a = "answer_of (routes demo_server) () ''GET'' ''/healthz?x''"
  have a: "?a = new_HttpResponse\<lparr>body := ''ok'' @ new_line\<rparr>"
    by (simp add: answer_of_def demo_server_def route_def new_HttpServer_def)
  have d: "decimal_int 200 = ''200''" "decimal (Suc (Suc (Suc 0))) = ''3''"
    by (simp_all add: decimal_int_def decimal.simps char_of_def bit_0)
  have h: "response_head ?a @ body ?a =
    ''HTTP/1.1 200 OK'' @ crlf @ ''Content-Type: text/plain; charset=utf-8'' @ crlf @ ''Content-Length: 3'' @ crlf
     @ ''Connection: close'' @ crlf @ crlf @ ''ok'' @ new_line"
    unfolding a by (simp add: response_head_def new_HttpResponse_def reasonPhrase_def new_line_def d)
  have "serveConnection ?env demo_server = (demo_server\<lparr>requests := requests demo_server + 1\<rparr>, response_head ?a @ body ?a)"
  proof (rule http_answers [of demo_request "''GET''" "''/healthz?x''" "''HTTP/1.1'' @ crlf @ crlf"
        "[take 7 demo_request, drop 7 demo_request]" ?env "[]", simplified])
    show "complete_request demo_request"
      by (simp add: complete_request_def demo_request_def crlf_def kMaxRequestBytes_def)
    show "length (response_head ?a) + length (body ?a) \<le> 200"
      using arg_cong [OF h, of length] by (simp add: crlf_def new_line_def)
  qed (simp_all add: demo_request_def)
  then show ?thesis by (simp add: h)
qed

text \<open>
  The lifecycle is sound: after any sequence of registrations, starts (whatever the
  system answers), stops and turns of the accept loop, the server holds a listening
  descriptor and a thread exactly while it runs and one of each, every other descriptor
  is closed, and starting an idle server never replaces a thread that was not joined.
\<close>

theorem http_lifecycle:
  "server_ok (server_run ops (new_HttpServer, {#}, 0))"
  by (rule server_run_ok) (simp add: server_ok_def new_HttpServer_def)

end
