(* ===== verification/Printf.thy ===== *)
theory Printf
  imports Float64
begin

text \<open>
  The conversions of \<open>snprintf\<close> that the sources use: integers in decimal (theory
  Prelude), and \<open>%.6g\<close> for doubles, which prints the value rounded to six significant
  decimal digits (ties to even), in positional or exponent form, without trailing
  zeros.  \<open>snprintf\<close> into an array of \<open>n\<close> bytes keeps \<open>n - 1\<close> characters.
\<close>

section \<open>Model\<close>

definition snprintf :: "nat \<Rightarrow> string \<Rightarrow> string" where
  "snprintf n txt = take (n - 1) txt"

text \<open>The exponent of the first significant decimal digit of a positive number.\<close>

definition ilog10 :: "rat \<Rightarrow> int" where
  "ilog10 q =
     (if 1 \<le> q then int (length (decimal (nat \<lfloor>q\<rfloor>))) - 1
      else - int (length (decimal (nat (\<lceil>1 / q\<rceil> - 1)))))"

text \<open>Six digits and the exponent of the first, after rounding.\<close>

definition six_digits :: "rat \<Rightarrow> int \<times> int" where
  "six_digits q =
     (let e = ilog10 q;
          m = round_half_even (if 5 \<le> e then q / 10 ^ nat (e - 5) else q * 10 ^ nat (5 - e))
      in if m = 1000000 then (100000, e + 1) else (m, e))"

definition strip_zeros :: "string \<Rightarrow> string" where
  "strip_zeros s = rev (dropWhile (\<lambda>c. c = CHR 0x30) (rev s))"

definition with_fraction :: "string \<Rightarrow> string \<Rightarrow> string" where
  "with_fraction whole rest =
     (let f = strip_zeros rest in if f = [] then whole else whole @ CHR 0x2E # f)"

definition exponent_text :: "int \<Rightarrow> string" where
  "exponent_text x =
     (let d = decimal (nat \<bar>x\<bar>)
      in CHR 0x65 # (if x < 0 then CHR 0x2D else CHR 0x2B) # (if length d < 2 then CHR 0x30 # d else d))"

definition positive_6g :: "rat \<Rightarrow> string" where
  "positive_6g q =
     (let (m, x) = six_digits q;
          d = decimal (nat m)
      in if x < - 4 \<or> 6 \<le> x then with_fraction (take 1 d) (drop 1 d) @ exponent_text x
         else if x < 0 then with_fraction ''0'' (replicate (nat (- x - 1)) (CHR 0x30) @ d)
         else with_fraction (take (nat x + 1) d) (drop (nat x + 1) d))"

fun format_6g :: "double \<Rightarrow> string" where
  "format_6g NaN = ''nan''"
| "format_6g PInf = ''inf''"
| "format_6g NInf = ''-inf''"
| "format_6g (Fin q) =
     (if q = 0 then ''0'' else if q < 0 then CHR 0x2D # positive_6g (- q) else positive_6g q)"

section \<open>Whole numbers of at most six digits are printed exactly\<close>

lemma char_48: "char_of (48 :: nat) = CHR 0x30"
  by (simp add: char_of_def bit_0)

lemma decimal_0 [simp]: "decimal 0 = ''0''"
  by (subst decimal.simps) (simp add: char_48)

lemma decimal_times_10: "0 < n \<Longrightarrow> decimal (10 * n) = decimal n @ ''0''"
  by (subst decimal.simps) (simp add: char_48)

lemma decimal_times_power: "0 < n \<Longrightarrow> decimal (n * 10 ^ k) = decimal n @ replicate k (CHR 0x30)"
proof (induction k)
  case (Suc k)
  have "decimal (n * 10 ^ Suc k) = decimal (10 * (n * 10 ^ k))" by (simp add: ac_simps)
  also have "\<dots> = decimal (n * 10 ^ k) @ ''0''" using Suc.prems by (intro decimal_times_10) simp
  finally show ?case using Suc by (simp add: replicate_append_same)
qed simp

lemma decimal_nonempty [simp]: "decimal n \<noteq> []"
  by (subst decimal.simps) simp

lemma decimal_length_lower: "10 ^ k \<le> n \<Longrightarrow> Suc k \<le> length (decimal n)"
proof (induction k arbitrary: n)
  case 0
  then show ?case by (metis One_nat_def Suc_le_eq decimal_nonempty length_greater_0_conv)
next
  case (Suc k)
  have "10 ^ k \<le> n div 10" using Suc.prems by (simp add: less_eq_div_iff_mult_less_eq ac_simps)
  moreover have "10 \<le> n"
    using Suc.prems by (metis (no_types, lifting) dual_order.trans le_add1 mult.right_neutral mult_le_mono2 one_le_numeral one_le_power power_Suc)
  ultimately show ?case using Suc.IH [of "n div 10"] by (subst decimal.simps) simp
qed

lemma decimal_upper: "n < 10 ^ length (decimal n)"
  using decimal_length_lower [of "length (decimal n)" n] by (metis not_less Suc_n_not_le_n)

lemma strip_zeros_replicate [simp]: "strip_zeros (replicate k (CHR 0x30)) = []"
  by (simp add: strip_zeros_def)

lemma six_digits_nat:
  assumes "0 < n" and "n < 1000000"
  shows "six_digits (of_nat n) =
    (int (n * 10 ^ (6 - length (decimal n))), int (length (decimal n)) - 1)"
proof -
  have len: "length (decimal n) \<le> 6" "1 \<le> length (decimal n)"
    using decimal_length [of n 5] assms(2) by (simp_all add: Suc_le_eq)
  have e: "ilog10 (of_nat n) = int (length (decimal n)) - 1"
    using assms(1) by (simp add: ilog10_def)
  have up: "n < 10 ^ length (decimal n)"
    by (rule decimal_upper)
  have m: "n * 10 ^ (6 - length (decimal n)) < 1000000"
  proof -
    have "n * 10 ^ (6 - length (decimal n)) < 10 ^ length (decimal n) * 10 ^ (6 - length (decimal n))"
      using up by simp
    also have "\<dots> = 10 ^ 6" using len(1) by (simp flip: power_add)
    finally show ?thesis by simp
  qed
  let ?k = "6 - length (decimal n)"
  have arg: "(if 5 \<le> ilog10 (of_nat n) then of_nat n / 10 ^ nat (ilog10 (of_nat n) - 5)
      else of_nat n * 10 ^ nat (5 - ilog10 (of_nat n))) = (of_int (int (n * 10 ^ ?k)) :: rat)"
  proof (cases "length (decimal n) = 6")
    case False
    then have "nat (5 - ilog10 (of_nat n)) = ?k" "\<not> 5 \<le> ilog10 (of_nat n)" using len e by simp_all
    then show ?thesis by simp
  qed (simp add: e)
  have "int (n * 10 ^ ?k) \<noteq> 1000000" using m by linarith
  then show ?thesis
    unfolding six_digits_def Let_def arg round_half_even_of_int by (simp add: e)
qed

lemma format_6g_nat: "n < 1000000 \<Longrightarrow> format_6g (Fin (of_nat n)) = decimal n"
proof (cases "n = 0")
  case False
  assume n: "n < 1000000"
  let ?l = "length (decimal n)"
  have len: "?l \<le> 6" "1 \<le> ?l" using decimal_length [of n 5] n by (simp_all add: Suc_le_eq)
  have d: "decimal (n * 10 ^ (6 - ?l)) = decimal n @ replicate (6 - ?l) (CHR 0x30)"
    using False by (intro decimal_times_power) simp
  have "positive_6g (of_nat n) = decimal n"
    using six_digits_nat [of n] False n len
    by (simp add: positive_6g_def nat_mult_distrib nat_power_eq d with_fraction_def nat_diff_distrib flip: of_nat_mult of_nat_power)
  then show ?thesis using False by simp
qed simp

section \<open>Length\<close>

lemma strip_zeros_length: "length (strip_zeros s) \<le> length s"
  by (simp add: strip_zeros_def) (metis length_dropWhile_le length_rev)

lemma with_fraction_length: "length (with_fraction w f) \<le> length w + 1 + length f"
  using strip_zeros_length [of f] by (simp add: with_fraction_def Let_def)

text \<open>A number is less than the power of ten after its first digit.\<close>

lemma ilog10_upper:
  assumes "0 < q"
  shows "if 0 \<le> ilog10 q + 1 then q < 10 ^ nat (ilog10 q + 1) else q < 1 / 10 ^ nat (- (ilog10 q + 1))"
proof (cases "1 \<le> q")
  case True
  let ?n = "nat \<lfloor>q\<rfloor>"
  have "q < of_int \<lfloor>q\<rfloor> + 1" by linarith
  also have "of_int \<lfloor>q\<rfloor> + 1 = (of_nat (?n + 1) :: rat)" using True by simp
  also have "\<dots> \<le> of_nat (10 ^ length (decimal ?n))"
    using decimal_upper [of ?n] by (simp only: of_nat_le_iff)
  finally show ?thesis using True by (simp add: ilog10_def)
next
  case False
  define c where "c = \<lceil>1 / q\<rceil>"
  have "1 < 1 / q" using False assms by simp
  then have c: "2 \<le> c" by (simp add: c_def le_ceiling_iff)
  obtain l where l: "length (decimal (nat (c - 1))) = Suc l"
    by (metis decimal_nonempty length_0_conv not0_implies_Suc)
  have "10 ^ l \<le> nat (c - 1)"
  proof (cases l)
    case 0
    then show ?thesis using c by simp
  next
    case (Suc k)
    then show ?thesis using decimal_length [of "nat (c - 1)" k] l by (metis not_less Suc_n_not_le_n)
  qed
  then have "(of_nat (10 ^ l) :: rat) \<le> of_nat (nat (c - 1))" by (simp only: of_nat_le_iff)
  also have "\<dots> = of_int c - 1" using c by simp
  also have "\<dots> < 1 / q" unfolding c_def by linarith
  finally have "q < 1 / 10 ^ l" using assms by (simp add: field_simps)
  then show ?thesis using False l by (auto simp: ilog10_def c_def)
qed

lemma six_digits_bound:
  assumes "0 < q"
  shows "fst (six_digits q) \<le> 1000000"
proof -
  let ?e = "ilog10 q"
  let ?a = "if 5 \<le> ?e then q / 10 ^ nat (?e - 5) else q * 10 ^ nat (5 - ?e)"
  have "?a \<le> of_int 1000000"
  proof -
    consider "5 \<le> ?e" | "- 1 \<le> ?e" "?e < 5" | "?e < - 1" by linarith
    then show ?thesis
    proof cases
      case 1
      then have "nat (?e + 1) = nat (?e - 5) + 6" by simp
      then have "q < 10 ^ nat (?e - 5) * 10 ^ 6"
        using ilog10_upper [OF assms] 1 by (simp add: power_add)
      then show ?thesis using 1 by (simp add: field_simps)
    next
      case 2
      then have "q * 10 ^ nat (5 - ?e) \<le> 10 ^ nat (?e + 1) * 10 ^ nat (5 - ?e)"
        using ilog10_upper [OF assms] by simp
      also have "\<dots> = 10 ^ 6" using 2 by (simp flip: power_add nat_add_distrib)
      finally show ?thesis using 2 by simp
    next
      case 3
      then have n: "nat (5 - ?e) = nat (- (?e + 1)) + 6" by simp
      have "q * 10 ^ nat (- (?e + 1)) \<le> 1"
        using ilog10_upper [OF assms] 3 by (simp add: field_simps split: if_splits)
      then have "q * 10 ^ nat (5 - ?e) \<le> 10 ^ 6" unfolding n power_add by simp
      then show ?thesis using 3 by simp
    qed
  qed
  then have "round_half_even ?a \<le> round_half_even (of_int 1000000)" by (rule round_half_even_mono)
  then have "round_half_even ?a \<le> 1000000" unfolding round_half_even_of_int .
  then show ?thesis by (simp add: six_digits_def Let_def)
qed

lemma ilog10_range:
  assumes "1 / 10 ^ 40 \<le> q" and "q \<le> 10 ^ 40"
  shows "- 41 \<le> ilog10 q \<and> ilog10 q \<le> 40"
proof (cases "1 \<le> q")
  case True
  define f where "f = \<lfloor>q\<rfloor>"
  have "f \<le> 10 ^ 40" unfolding f_def using assms(2) by (metis floor_mono floor_of_int of_int_numeral of_int_power)
  then have "nat f < 10 ^ Suc 40" by simp
  then have "length (decimal (nat f)) \<le> 41" using decimal_length [of "nat f" 40] by simp
  then show ?thesis using True by (simp add: ilog10_def f_def)
next
  case False
  have "0 < (1 :: rat) / 10 ^ 40" by simp
  then have pos: "0 < q" using assms(1) by linarith
  then have "1 / q \<le> of_int (10 ^ 40)" using assms(1) by (simp add: field_simps)
  then have c: "\<lceil>1 / q\<rceil> \<le> 10 ^ 40" by (simp only: ceiling_le_iff)
  define c where "c = \<lceil>1 / q\<rceil>"
  have "nat (c - 1) < 10 ^ Suc 40" using c unfolding c_def [symmetric] by simp
  then have "length (decimal (nat (c - 1))) \<le> 41" using decimal_length [of _ 40] by simp
  then show ?thesis using False by (simp add: ilog10_def c_def)
qed

lemma exponent_text_length: "\<bar>x\<bar> < 100 \<Longrightarrow> length (exponent_text x) \<le> 4"
  using decimal_length [of "nat \<bar>x\<bar>" 1] by (simp add: exponent_text_def Let_def) linarith

lemma positive_6g_length:
  assumes "1 / 10 ^ 40 \<le> q" and "q \<le> 10 ^ 40"
  shows "length (positive_6g q) \<le> 16"
proof -
  obtain m x where mx: "six_digits q = (m, x)" by fastforce
  have "0 < (1 :: rat) / 10 ^ 40" by simp
  then have "0 < q" using assms(1) by linarith
  then have "m \<le> 1000000" using six_digits_bound [of q] mx by simp
  then have d: "length (decimal (nat m)) \<le> 7" using decimal_length [of "nat m" 6] by simp
  have "x = ilog10 q \<or> x = ilog10 q + 1" using mx by (auto simp: six_digits_def Let_def split: if_splits)
  then have x: "\<bar>x\<bar> < 100" using ilog10_range [OF assms] by auto
  let ?d = "decimal (nat m)"
  consider "x < - 4 \<or> 6 \<le> x" | "- 4 \<le> x" "x < 0" | "0 \<le> x" "x < 6" by linarith
  then show ?thesis
  proof cases
    case 1
    then show ?thesis
      using d exponent_text_length [OF x] with_fraction_length [of "take 1 ?d" "drop 1 ?d"]
      by (auto simp: positive_6g_def mx Let_def)
  next
    case 2
    then show ?thesis
      using d with_fraction_length [of "''0''" "replicate (nat (- x - 1)) (CHR 0x30) @ ?d"]
      by (auto simp: positive_6g_def mx Let_def)
  next
    case 3
    then show ?thesis
      using d with_fraction_length [of "take (nat x + 1) ?d" "drop (nat x + 1) ?d"]
      by (auto simp: positive_6g_def mx Let_def min_def split: if_splits)
  qed
qed

lemma format_6g_length:
  assumes "\<bar>q\<bar> \<le> 10 ^ 40" and "q \<noteq> 0 \<Longrightarrow> 1 / 10 ^ 40 \<le> \<bar>q\<bar>"
  shows "length (format_6g (Fin q)) \<le> 17"
  using assms positive_6g_length [of "\<bar>q\<bar>"] by (auto simp: abs_if split: if_splits)

end
