(* ===== verification/Metrics.thy ===== *)
theory Metrics
  imports Printf Runtime_Snapshot
begin

text \<open>
  The Prometheus exposition (\<open>include/safeedge/edge/metrics.hpp\<close>,
  \<open>src/edge/metrics.cpp\<close>), byte for byte, with the fixed line buffers the code formats
  into.  The theory reads the text back: its sample lines, in order, and the fact
  that no line is ever cut.
\<close>

section \<open>Model\<close>

definition nl :: string where
  "nl = [CHR 0x0A]"

definition appendMetric :: "string \<Rightarrow> string \<Rightarrow> string \<Rightarrow> string \<Rightarrow> double \<Rightarrow> string" where
  "appendMetric out name help kind v =
     out @ snprintf 512
       (''# HELP '' @ name @ '' '' @ help @ nl @ ''# TYPE '' @ name @ '' '' @ kind @ nl
        @ name @ '' '' @ format_6g v @ nl)"

definition appendLabelled ::
  "string \<Rightarrow> string \<Rightarrow> string \<Rightarrow> string \<Rightarrow> string \<Rightarrow> string \<Rightarrow> double \<Rightarrow> string" where
  "appendLabelled out name help kind label_name label_value v =
     out @ snprintf 512
       (''# HELP '' @ name @ '' '' @ help @ nl @ ''# TYPE '' @ name @ '' '' @ kind @ nl
        @ name @ ''{'' @ label_name @ ''=\"'' @ label_value @ ''\"} '' @ format_6g v @ nl)"

definition appendQuantiles ::
  "string \<Rightarrow> string \<Rightarrow> string \<Rightarrow> int \<Rightarrow> int \<Rightarrow> int \<Rightarrow> int \<Rightarrow> string" where
  "appendQuantiles out name help p50 p99 p999 maximum =
     (let out = out @ snprintf 256
            (''# HELP '' @ name @ '' '' @ help @ nl @ ''# TYPE '' @ name @ '' summary'' @ nl);
          out = out @ snprintf 256 (name @ ''{quantile=\"0.5\"} '' @ decimal_int p50 @ nl);
          out = out @ snprintf 256 (name @ ''{quantile=\"0.99\"} '' @ decimal_int p99 @ nl);
          out = out @ snprintf 256 (name @ ''{quantile=\"0.999\"} '' @ decimal_int p999 @ nl)
      in out @ snprintf 256 (name @ ''_max '' @ decimal_int maximum @ nl))"

definition of_u32 :: "u32 \<Rightarrow> double" where
  "of_u32 n = double_of_int (uint n)"

definition of_u64 :: "u64 \<Rightarrow> double" where
  "of_u64 n = double_of_int (uint n)"

definition seconds :: "int \<Rightarrow> double" where
  "seconds ns = ddiv (double_of_int ns) (Fin 1000000000)"

definition exposition_header :: string where
  "exposition_header =
     ''# safeedge runtime metrics'' @ nl
     @ ''# Scraped from a seqlock snapshot published by the real-time loop; the'' @ nl
     @ ''# scrape never blocks that loop and never takes a lock on its path.'' @ nl"

definition renderPrometheus :: "RuntimeSnapshot \<Rightarrow> bool \<Rightarrow> string" where
  "renderPrometheus s snapshot_is_fresh =
     (let out = exposition_header;
          out = appendMetric out ''safeedge_snapshot_fresh''
            ''1 if the last scrape read a complete snapshot, 0 if it gave up retrying''
            ''gauge'' (if snapshot_is_fresh then Fin 1 else Fin 0);
          out = appendMetric out ''safeedge_realtime_scheduling_granted''
            (''1 if the runtime obtained the real-time scheduling it requested. ''
             @ ''When 0, every latency metric below describes the machine'' @ [CHR 0x27] @ ''s load, not ''
             @ ''this code'')
            ''gauge'' (of_u32 (s_realtime_scheduling_granted s));
          out = appendMetric out ''safeedge_cycles_total'' ''Control cycles executed'' ''counter''
            (of_u64 (s_cycles_executed s));
          out = appendMetric out ''safeedge_overruns_total''
            ''Cycles that completed after their successor was already due'' ''counter''
            (of_u64 (s_overruns s));
          out = appendMetric out ''safeedge_skipped_cycles_total''
            ''Deadlines passed without a cycle running'' ''counter'' (of_u64 (s_skipped_cycles s));
          out = appendMetric out ''safeedge_allocation_violations_total''
            (''Allocations detected on the real-time path. Any value above zero is a '' @ ''defect, not a warning'')
            ''counter'' (of_u64 (s_allocation_violations s));
          out = appendQuantiles out ''safeedge_wakeup_jitter_nanoseconds''
            ''Scheduled deadline to actual wakeup''
            (s_jitter_p50_ns s) (s_jitter_p99_ns s) (s_jitter_p999_ns s) (s_jitter_max_ns s);
          out = appendQuantiles out ''safeedge_execution_nanoseconds''
            ''Callback entry to callback return''
            (s_execution_p50_ns s) (s_execution_p99_ns s) (s_execution_p99_ns s) (s_execution_max_ns s);
          out = appendMetric out ''safeedge_safety_state''
            ''Supervisor state: 0=STO 1=SelfTest 2=Stopping 3=SOS 4=SLS 5=Operational''
            ''gauge'' (of_u32 (s_safety_state s));
          out = appendMetric out ''safeedge_fault_reason''
            ''Latched fault reason, 0 when none. See safety_state_machine.hpp'' ''gauge''
            (of_u32 (s_fault_reason s));
          out = appendMetric out ''safeedge_torque_permitted'' ''1 when torque is permitted'' ''gauge''
            (of_u32 (s_torque_permitted s));
          out = appendMetric out ''safeedge_fault_latched''
            ''1 while a fault is latched and awaiting acknowledgement'' ''gauge''
            (of_u32 (s_fault_latched s));
          out = appendMetric out ''safeedge_estop_asserted''
            ''1 when an external emergency stop is demanding a stop'' ''gauge''
            (of_u32 (s_estop_asserted s));
          out = appendMetric out ''safeedge_safety_sequence''
            (''Increments on every safety state transition; lets a consumer tell a ''
             @ ''repeated report from a new decision'')
            ''counter'' (of_u64 (s_safety_sequence s));
          out = appendMetric out ''safeedge_safety_state_age_seconds''
            ''How long the runtime has been in its current safety state'' ''gauge''
            (seconds (uint (s_safety_state_age_ns s)));
          out = appendLabelled out ''safeedge_telegrams_total'' ''Safety telegrams processed'' ''counter''
            ''result'' ''accepted'' (of_u64 (s_telegrams_accepted s));
          out = out @ snprintf 256
            (''safeedge_telegrams_total{result=\"rejected\"} '' @ format_6g (of_u64 (s_telegrams_rejected s)) @ nl)
      in appendMetric out ''safeedge_uptime_seconds'' ''Time since the runtime started'' ''gauge''
           (seconds (s_uptime_ns s)))"

section \<open>Numbers that are printed\<close>

lemma rounded_two_pow_100: "rounded (2 ^ 100) = 2 ^ 100"
proof (rule rounded_integer_multiple [of _ "2 ^ 52"])
  have "ilog2 (2 ^ 100) = 100" by (rule ilog2_unique) simp_all
  then show "(2 ^ 100 :: rat) = of_int (2 ^ 52) * ulp_of (2 ^ 100)" by (simp add: ulp_of_def)
qed

lemma rounded_two_pow_neg_30: "rounded (1 / 2 ^ 30) = 1 / 2 ^ 30"
proof (rule rounded_integer_multiple [of _ "2 ^ 52"])
  have "ilog2 (1 / 2 ^ 30) = - 30"
    by (rule ilog2_unique) (simp_all add: power_int_minus)
  then show "(1 / 2 ^ 30 :: rat) = of_int (2 ^ 52) * ulp_of (1 / 2 ^ 30)"
    by (simp add: ulp_of_def power_int_minus)
qed

definition printable :: "rat \<Rightarrow> bool" where
  "printable x \<longleftrightarrow> \<bar>x\<bar> \<le> 2 ^ 100 \<and> (x = 0 \<or> 1 / 2 ^ 30 \<le> \<bar>x\<bar>)"

lemma printable_rounded:
  assumes "printable x"
  shows "printable (rounded x) \<and> fl x = Fin (rounded x)"
proof -
  have abs: "\<bar>rounded x\<bar> = rounded \<bar>x\<bar>"
    using rounded_nonneg [of "\<bar>x\<bar>"] by (cases "0 \<le> x") (simp_all add: abs_if rounded_uminus)
  have "rounded \<bar>x\<bar> \<le> 2 ^ 100"
    using rounded_mono [of "\<bar>x\<bar>" "2 ^ 100"] assms by (simp only: printable_def rounded_two_pow_100)
  moreover have "x \<noteq> 0 \<Longrightarrow> 1 / 2 ^ 30 \<le> rounded \<bar>x\<bar>"
    using rounded_mono [of "1 / 2 ^ 30" "\<bar>x\<bar>"] assms unfolding printable_def rounded_two_pow_neg_30 by blast
  ultimately have p: "printable (rounded x)" using abs unfolding printable_def by (metis rounded_0)
  have "(2 :: rat) ^ 100 < 2 ^ 1024" by (rule power_strict_increasing) simp_all
  then have "\<bar>rounded x\<bar> < 2 ^ 1024" using p by (simp only: printable_def) linarith
  then have "rounded x < 2 ^ 1024" "- (2 ^ 1024) < rounded x" by linarith+
  then show ?thesis using p by (simp add: fl_def Let_def)
qed

lemma printable_length: "printable x \<Longrightarrow> length (format_6g (Fin x)) \<le> 17"
proof -
  assume p: "printable x"
  have "(2 :: rat) ^ 100 \<le> 10 ^ 40" "(1 :: rat) / 10 ^ 40 \<le> 1 / 2 ^ 30" by simp_all
  then have "\<bar>x\<bar> \<le> 10 ^ 40" "x \<noteq> 0 \<Longrightarrow> 1 / 10 ^ 40 \<le> \<bar>x\<bar>"
    using p unfolding printable_def by linarith+
  then show ?thesis by (rule format_6g_length)
qed

lemma printable_int: "\<bar>n\<bar> \<le> 2 ^ 64 \<Longrightarrow> printable (of_int n)"
proof -
  assume n: "\<bar>n\<bar> \<le> 2 ^ 64"
  have "of_int \<bar>n\<bar> \<le> (of_int (2 ^ 64) :: rat)" using n by (simp only: of_int_le_iff)
  also have "\<dots> \<le> 2 ^ 100" by simp
  finally have "\<bar>of_int n :: rat\<bar> \<le> 2 ^ 100" by simp
  moreover have "1 / 2 ^ 30 \<le> \<bar>of_int n :: rat\<bar>" if "n \<noteq> 0"
  proof -
    have "of_int 1 \<le> (of_int \<bar>n\<bar> :: rat)" using that by (simp only: of_int_le_iff)
    then show ?thesis by simp
  qed
  ultimately show ?thesis by (auto simp: printable_def)
qed

lemma double_of_int_length: "\<bar>n\<bar> \<le> 2 ^ 64 \<Longrightarrow> length (format_6g (double_of_int n)) \<le> 17"
  using printable_rounded [OF printable_int, of n] printable_length [of "rounded (of_int n)"]
  by (simp only: double_of_int_def)

lemma seconds_length: "\<bar>n\<bar> \<le> 2 ^ 64 \<Longrightarrow> length (format_6g (seconds n)) \<le> 17"
proof -
  assume n: "\<bar>n\<bar> \<le> 2 ^ 64"
  let ?r = "rounded (of_int n)"
  have d: "printable ?r" "double_of_int n = Fin ?r"
    using printable_rounded [OF printable_int [OF n]] by (simp_all only: double_of_int_def)
  have "1 \<le> \<bar>?r\<bar>" if "n \<noteq> 0"
  proof -
    have abs: "\<bar>?r\<bar> = rounded (of_int \<bar>n\<bar>)"
      using rounded_nonneg [of "of_int \<bar>n\<bar>"] by (cases "0 \<le> n") (simp_all add: abs_if rounded_uminus)
    have "(1 :: rat) \<le> of_int \<bar>n\<bar>" using that by (simp only: of_int_1_le_iff)
    from rounded_mono [OF this] show ?thesis
      using rounded_small_int [of 1] abs by simp
  qed
  then have "printable (?r / 1000000000)"
    using d(1) by (cases "n = 0") (auto simp: printable_def field_simps)
  then show ?thesis
    using printable_rounded [of "?r / 1000000000"] printable_length [of "rounded (?r / 1000000000)"]
    by (simp add: seconds_def d(2))
qed

lemma metric_value_length:
  "length (format_6g (of_u32 n)) \<le> 17" "length (format_6g (of_u64 m)) \<le> 17"
  "length (format_6g (seconds (uint m))) \<le> 17"
proof -
  have "uint n \<le> 2 ^ 64" "uint m \<le> 2 ^ 64"
    using uint_lt2p [of n] uint_lt2p [of m] by simp_all
  then show "length (format_6g (of_u32 n)) \<le> 17" "length (format_6g (of_u64 m)) \<le> 17"
    "length (format_6g (seconds (uint m))) \<le> 17"
    by (simp_all only: of_u32_def of_u64_def) (simp_all add: double_of_int_length seconds_length)
qed

section \<open>Reading the text\<close>

fun lines_of :: "string \<Rightarrow> string \<Rightarrow> string list" where
  "lines_of cur [] = (if cur = [] then [] else [cur])"
| "lines_of cur (c # cs) = (if c = CHR 0x0A then cur # lines_of [] cs else lines_of (cur @ [c]) cs)"

text \<open>The lines of an exposition that are not comments.\<close>

definition samples :: "string \<Rightarrow> string list" where
  "samples out = filter (\<lambda>l. \<not> (l \<noteq> [] \<and> hd l = CHR 0x23)) (lines_of [] out)"

definition whole :: "string \<Rightarrow> bool" where
  "whole out \<longleftrightarrow> (\<forall>rest. samples (out @ rest) = samples out @ samples rest)"

lemma lines_of_line:
  "CHR 0x0A \<notin> set l \<Longrightarrow> lines_of cur (l @ CHR 0x0A # rest) = (cur @ l) # lines_of [] rest"
  by (induction l arbitrary: cur) auto

lemma whole_append: "whole a \<Longrightarrow> whole b \<Longrightarrow> whole (a @ b) \<and> samples (a @ b) = samples a @ samples b"
  by (simp add: whole_def)

lemma whole_line: "CHR 0x0A \<notin> set l \<Longrightarrow> whole (l @ nl)"
  using lines_of_line [of l "[]"] by (simp add: whole_def samples_def nl_def)

lemma samples_line:
  "CHR 0x0A \<notin> set l \<Longrightarrow> l \<noteq> [] \<Longrightarrow> samples (l @ nl) = (if hd l = CHR 0x23 then [] else [l])"
  using lines_of_line [of l "[]" "[]"] by (simp add: samples_def nl_def)

lemma add_line:
  "whole out \<Longrightarrow> CHR 0x0A \<notin> set l \<Longrightarrow> l \<noteq> [] \<Longrightarrow>
   whole (out @ l @ nl) \<and> samples (out @ l @ nl) = samples out @ (if hd l = CHR 0x23 then [] else [l])"
  using whole_append [of out "l @ nl"] whole_line [of l] samples_line [of l] by simp

lemma decimal_no_nl [simp]: "CHR 0x0A \<notin> set (decimal n)"
  using decimal_digits [of "CHR 0x0A" n] by auto

lemma decimal_int_no_nl [simp]: "CHR 0x0A \<notin> set (decimal_int i)"
  by (simp add: decimal_int_def)

lemma with_fraction_no_nl:
  "CHR 0x0A \<notin> set w \<Longrightarrow> CHR 0x0A \<notin> set f \<Longrightarrow> CHR 0x0A \<notin> set (with_fraction w f)"
  by (auto simp: with_fraction_def strip_zeros_def Let_def dest: set_dropWhileD)

lemma positive_6g_no_nl: "CHR 0x0A \<notin> set (positive_6g q)"
proof -
  obtain m x where "six_digits q = (m, x)" by fastforce
  moreover have "CHR 0x0A \<notin> set (exponent_text x)" for x
    by (simp add: exponent_text_def Let_def)
  moreover have "CHR 0x0A \<notin> set (take k (decimal n))" "CHR 0x0A \<notin> set (drop k (decimal n))" for k n
    by (auto dest: in_set_takeD in_set_dropD)
  ultimately show ?thesis
    by (simp add: positive_6g_def Let_def with_fraction_no_nl)
qed

lemma format_6g_no_nl [simp]: "CHR 0x0A \<notin> set (format_6g v)"
  by (cases v) (simp_all add: positive_6g_no_nl)

lemma snprintf_fits: "length t < n \<Longrightarrow> snprintf n t = t"
  by (simp add: snprintf_def)

text \<open>A name that is neither empty nor a comment.\<close>

definition sample_name :: "string \<Rightarrow> bool" where
  "sample_name n \<longleftrightarrow> CHR 0x0A \<notin> set n \<and> n \<noteq> [] \<and> hd n \<noteq> CHR 0x23"

lemma add_comment:
  "whole out \<Longrightarrow> CHR 0x0A \<notin> set l \<Longrightarrow>
   whole (out @ (CHR 0x23 # l) @ nl) \<and> samples (out @ (CHR 0x23 # l) @ nl) = samples out"
  using add_line [of out "CHR 0x23 # l"] by simp

lemma add_sample:
  "whole out \<Longrightarrow> sample_name name \<Longrightarrow> CHR 0x0A \<notin> set l \<Longrightarrow>
   whole (out @ (name @ l) @ nl) \<and> samples (out @ (name @ l) @ nl) = samples out @ [name @ l]"
  using add_line [of out "name @ l"] by (simp add: sample_name_def)

text \<open>A metric is two comments and a sample, however it is labelled.\<close>

lemma metric_block:
  assumes "whole out" and "CHR 0x0A \<notin> set help" and "CHR 0x0A \<notin> set kind"
    and "sample_name name" and "CHR 0x0A \<notin> set v"
  shows "whole (out @ ''# HELP '' @ name @ '' '' @ help @ nl @ ''# TYPE '' @ name @ '' '' @ kind @ nl @ name @ v @ nl) \<and>
    samples (out @ ''# HELP '' @ name @ '' '' @ help @ nl @ ''# TYPE '' @ name @ '' '' @ kind @ nl @ name @ v @ nl)
      = samples out @ [name @ v]"
proof -
  let ?h = "'' HELP '' @ name @ '' '' @ help" and ?t = "'' TYPE '' @ name @ '' '' @ kind"
  let ?a = "out @ (CHR 0x23 # ?h) @ nl"
  let ?b = "?a @ (CHR 0x23 # ?t) @ nl"
  have n: "CHR 0x0A \<notin> set name" using assms(4) by (simp add: sample_name_def)
  have "CHR 0x0A \<notin> set ?h" "CHR 0x0A \<notin> set ?t" using n assms(2,3) by simp_all
  then have "whole ?b \<and> samples ?b = samples out" using add_comment [OF assms(1)] add_comment [of ?a ?t] by metis
  then have "whole (?b @ (name @ v) @ nl) \<and> samples (?b @ (name @ v) @ nl) = samples out @ [name @ v]"
    using add_sample [OF _ assms(4,5)] by metis
  then show ?thesis by (simp only: append_assoc append_Cons append_Nil)
qed

lemma appendMetric_sample:
  assumes "whole out" and "sample_name name" and "CHR 0x0A \<notin> set help" and "CHR 0x0A \<notin> set kind"
    and "3 * length name + length help + length kind \<le> 470" and "length (format_6g v) \<le> 17"
  shows "whole (appendMetric out name help kind v) \<and>
    samples (appendMetric out name help kind v) = samples out @ [name @ '' '' @ format_6g v]"
proof -
  have "appendMetric out name help kind v =
      out @ ''# HELP '' @ name @ '' '' @ help @ nl @ ''# TYPE '' @ name @ '' '' @ kind @ nl @ name @ ('' '' @ format_6g v) @ nl"
    using assms(5,6) by (simp add: appendMetric_def snprintf_fits nl_def)
  then show ?thesis
    using metric_block [OF assms(1,3,4,2), of "'' '' @ format_6g v"] by simp
qed

lemma appendLabelled_sample:
  assumes "whole out" and "sample_name name" and "CHR 0x0A \<notin> set help" and "CHR 0x0A \<notin> set kind"
    and "CHR 0x0A \<notin> set label_name" and "CHR 0x0A \<notin> set label_value"
    and "3 * length name + length help + length kind + length label_name + length label_value \<le> 460"
    and "length (format_6g v) \<le> 17"
  shows "whole (appendLabelled out name help kind label_name label_value v) \<and>
    samples (appendLabelled out name help kind label_name label_value v)
      = samples out @ [name @ ''{'' @ label_name @ ''=\"'' @ label_value @ ''\"} '' @ format_6g v]"
proof -
  let ?v = "''{'' @ label_name @ ''=\"'' @ label_value @ ''\"} '' @ format_6g v"
  have "appendLabelled out name help kind label_name label_value v =
      out @ ''# HELP '' @ name @ '' '' @ help @ nl @ ''# TYPE '' @ name @ '' '' @ kind @ nl @ name @ ?v @ nl"
    using assms(7,8) by (simp add: appendLabelled_def snprintf_fits nl_def)
  then show ?thesis
    using metric_block [OF assms(1,3,4,2), of ?v] assms(5,6) by simp
qed

lemma decimal_int_length: "i64 v \<Longrightarrow> length (decimal_int v) \<le> 20"
proof -
  assume "i64 v"
  then have "nat \<bar>v\<bar> < 10 ^ Suc 18" by (auto simp: i64_def)
  then have "length (decimal (nat \<bar>v\<bar>)) \<le> 19" using decimal_length [of "nat \<bar>v\<bar>" 18] by simp
  then show ?thesis by (auto simp: decimal_int_def)
qed

lemma appendQuantiles_samples:
  assumes "whole out" and name: "sample_name name" and "CHR 0x0A \<notin> set help"
    and len: "2 * length name + length help \<le> 200" and "list_all i64 [p50, p99, p999, m]"
  shows "whole (appendQuantiles out name help p50 p99 p999 m) \<and>
    samples (appendQuantiles out name help p50 p99 p999 m) = samples out @
      [name @ ''{quantile=\"0.5\"} '' @ decimal_int p50, name @ ''{quantile=\"0.99\"} '' @ decimal_int p99,
       name @ ''{quantile=\"0.999\"} '' @ decimal_int p999, name @ ''_max '' @ decimal_int m]"
proof -
  let ?h = "'' HELP '' @ name @ '' '' @ help" and ?t = "'' TYPE '' @ name @ '' summary''"
  define a where "a = (out @ (CHR 0x23 # ?h) @ nl) @ (CHR 0x23 # ?t) @ nl"
  have n: "CHR 0x0A \<notin> set name" using name by (simp add: sample_name_def)
  then have "CHR 0x0A \<notin> set ?h" "CHR 0x0A \<notin> set ?t" using assms(3) by simp_all
  then have a: "whole a \<and> samples a = samples out"
    using add_comment [OF assms(1)] add_comment [of "out @ (CHR 0x23 # ?h) @ nl" ?t] unfolding a_def by metis
  define line where "line l = name @ l" for l :: string
  have step: "whole (o' @ line l @ nl) \<and> samples (o' @ line l @ nl) = samples o' @ [line l]"
    if "whole o'" "CHR 0x0A \<notin> set l" for o' l
    using add_sample [OF that(1) name that(2)] by (simp add: line_def)
  have len20: "length (decimal_int p50) \<le> 20" "length (decimal_int p99) \<le> 20"
      "length (decimal_int p999) \<le> 20" "length (decimal_int m) \<le> 20"
    using assms(5) decimal_int_length by simp_all
  define x1 where "x1 = a @ line (''{quantile=\"0.5\"} '' @ decimal_int p50) @ nl"
  define x2 where "x2 = x1 @ line (''{quantile=\"0.99\"} '' @ decimal_int p99) @ nl"
  define x3 where "x3 = x2 @ line (''{quantile=\"0.999\"} '' @ decimal_int p999) @ nl"
  define x4 where "x4 = x3 @ line (''_max '' @ decimal_int m) @ nl"
  have eq: "appendQuantiles out name help p50 p99 p999 m = x4"
    using len len20
    by (simp add: appendQuantiles_def snprintf_fits a_def line_def nl_def x1_def x2_def x3_def x4_def)
  have 1: "whole x1 \<and> samples x1 = samples out @ [line (''{quantile=\"0.5\"} '' @ decimal_int p50)]"
    using step [of a "''{quantile=\"0.5\"} '' @ decimal_int p50"] a unfolding x1_def by simp
  have 2: "whole x2 \<and> samples x2 = samples x1 @ [line (''{quantile=\"0.99\"} '' @ decimal_int p99)]"
    using step [of x1 "''{quantile=\"0.99\"} '' @ decimal_int p99"] 1 unfolding x2_def by simp
  have 3: "whole x3 \<and> samples x3 = samples x2 @ [line (''{quantile=\"0.999\"} '' @ decimal_int p999)]"
    using step [of x2 "''{quantile=\"0.999\"} '' @ decimal_int p999"] 2 unfolding x3_def by simp
  have 4: "whole x4 \<and> samples x4 = samples x3 @ [line (''_max '' @ decimal_int m)]"
    using step [of x3 "''_max '' @ decimal_int m"] 3 unfolding x4_def by simp
  show ?thesis
    unfolding eq using 1 2 3 4 by (simp add: line_def)
qed

section \<open>Properties\<close>

lemma sample_names [simp]: "sample_name (CHR 0x73 # n) \<longleftrightarrow> CHR 0x0A \<notin> set n"
  by (simp add: sample_name_def)

text \<open>An exposition so far: complete lines, with these samples.\<close>

definition exposes :: "string \<Rightarrow> string list \<Rightarrow> bool" where
  "exposes out ls \<longleftrightarrow> whole out \<and> samples out = ls"

lemma exposes_samples: "exposes out ls \<Longrightarrow> ls = ls' \<Longrightarrow> samples out = ls'"
  by (simp add: exposes_def)

lemma exposes_comment:
  "exposes out ls \<Longrightarrow> CHR 0x0A \<notin> set l \<Longrightarrow> exposes (out @ (CHR 0x23 # l) @ nl) ls"
  using add_comment [of out l] by (simp add: exposes_def)

lemma exposes_header: "exposes exposition_header []"
proof -
  have 0: "exposes [] []" by (simp add: exposes_def whole_def samples_def)
  have 1: "exposes ([] @ (CHR 0x23 # '' safeedge runtime metrics'') @ nl) []"
    by (rule exposes_comment [OF 0]) simp
  have 2: "exposes (([] @ (CHR 0x23 # '' safeedge runtime metrics'') @ nl)
      @ (CHR 0x23 # '' Scraped from a seqlock snapshot published by the real-time loop; the'') @ nl) []"
    by (rule exposes_comment [OF 1]) simp
  have "exposes ((([] @ (CHR 0x23 # '' safeedge runtime metrics'') @ nl)
      @ (CHR 0x23 # '' Scraped from a seqlock snapshot published by the real-time loop; the'') @ nl)
      @ (CHR 0x23 # '' scrape never blocks that loop and never takes a lock on its path.'') @ nl) []"
    by (rule exposes_comment [OF 2]) simp
  then show ?thesis by (simp only: exposition_header_def append_assoc append_Cons append_Nil)
qed

lemma exposes_metric:
  "exposes out ls \<Longrightarrow> sample_name name \<Longrightarrow> CHR 0x0A \<notin> set help \<Longrightarrow> CHR 0x0A \<notin> set kind \<Longrightarrow>
   3 * length name + length help + length kind \<le> 470 \<Longrightarrow> length (format_6g v) \<le> 17 \<Longrightarrow>
   exposes (appendMetric out name help kind v) (ls @ [name @ '' '' @ format_6g v])"
  by (simp add: exposes_def appendMetric_sample)

lemma exposes_labelled:
  "exposes out ls \<Longrightarrow> sample_name name \<Longrightarrow> CHR 0x0A \<notin> set help \<Longrightarrow> CHR 0x0A \<notin> set kind \<Longrightarrow>
   CHR 0x0A \<notin> set label \<Longrightarrow> CHR 0x0A \<notin> set lval \<Longrightarrow>
   3 * length name + length help + length kind + length label + length lval \<le> 460 \<Longrightarrow> length (format_6g v) \<le> 17 \<Longrightarrow>
   exposes (appendLabelled out name help kind label lval v)
     (ls @ [name @ ''{'' @ label @ ''=\"'' @ lval @ ''\"} '' @ format_6g v])"
  by (simp add: exposes_def appendLabelled_sample)

lemma exposes_quantiles:
  "exposes out ls \<Longrightarrow> sample_name name \<Longrightarrow> CHR 0x0A \<notin> set help \<Longrightarrow>
   2 * length name + length help \<le> 200 \<Longrightarrow> list_all i64 [p50, p99, p999, m] \<Longrightarrow>
   exposes (appendQuantiles out name help p50 p99 p999 m) (ls @
      [name @ ''{quantile=\"0.5\"} '' @ decimal_int p50, name @ ''{quantile=\"0.99\"} '' @ decimal_int p99,
       name @ ''{quantile=\"0.999\"} '' @ decimal_int p999, name @ ''_max '' @ decimal_int m])"
  by (simp add: exposes_def appendQuantiles_samples)

lemma exposes_rejected:
  "exposes out ls \<Longrightarrow> length (format_6g v) \<le> 17 \<Longrightarrow>
   exposes (out @ snprintf 256 (''safeedge_telegrams_total{result=\"rejected\"} '' @ format_6g v @ nl))
     (ls @ [''safeedge_telegrams_total{result=\"rejected\"} '' @ format_6g v])"
proof -
  let ?n = "''safeedge_telegrams_total{result=\"rejected\"} ''"
  assume out: "exposes out ls" and v: "length (format_6g v) \<le> 17"
  have fits: "snprintf 256 (?n @ format_6g v @ nl) = (?n @ format_6g v) @ nl"
    using v by (simp add: snprintf_fits nl_def)
  have "sample_name ?n" by simp
  then show ?thesis
    unfolding fits using add_sample [of out ?n "format_6g v"] out by (simp only: exposes_def) simp
qed

lemmas exposes_intros =
  exposes_metric exposes_labelled exposes_quantiles exposes_rejected exposes_header

text \<open>
  C37. What a scrape says: for every snapshot, the lines of the exposition that are
  not comments are exactly these, in this order, each carrying the value of its
  field; no line is cut by the buffer it is formatted into.
\<close>

theorem metrics_samples:
  assumes "snapshot_in_range s"
  shows "samples (renderPrometheus s fresh) =
    [''safeedge_snapshot_fresh '' @ (if fresh then ''1'' else ''0''),
     ''safeedge_realtime_scheduling_granted '' @ format_6g (of_u32 (s_realtime_scheduling_granted s)),
     ''safeedge_cycles_total '' @ format_6g (of_u64 (s_cycles_executed s)),
     ''safeedge_overruns_total '' @ format_6g (of_u64 (s_overruns s)),
     ''safeedge_skipped_cycles_total '' @ format_6g (of_u64 (s_skipped_cycles s)),
     ''safeedge_allocation_violations_total '' @ format_6g (of_u64 (s_allocation_violations s)),
     ''safeedge_wakeup_jitter_nanoseconds{quantile=\"0.5\"} '' @ decimal_int (s_jitter_p50_ns s),
     ''safeedge_wakeup_jitter_nanoseconds{quantile=\"0.99\"} '' @ decimal_int (s_jitter_p99_ns s),
     ''safeedge_wakeup_jitter_nanoseconds{quantile=\"0.999\"} '' @ decimal_int (s_jitter_p999_ns s),
     ''safeedge_wakeup_jitter_nanoseconds_max '' @ decimal_int (s_jitter_max_ns s),
     ''safeedge_execution_nanoseconds{quantile=\"0.5\"} '' @ decimal_int (s_execution_p50_ns s),
     ''safeedge_execution_nanoseconds{quantile=\"0.99\"} '' @ decimal_int (s_execution_p99_ns s),
     ''safeedge_execution_nanoseconds{quantile=\"0.999\"} '' @ decimal_int (s_execution_p99_ns s),
     ''safeedge_execution_nanoseconds_max '' @ decimal_int (s_execution_max_ns s),
     ''safeedge_safety_state '' @ format_6g (of_u32 (s_safety_state s)),
     ''safeedge_fault_reason '' @ format_6g (of_u32 (s_fault_reason s)),
     ''safeedge_torque_permitted '' @ format_6g (of_u32 (s_torque_permitted s)),
     ''safeedge_fault_latched '' @ format_6g (of_u32 (s_fault_latched s)),
     ''safeedge_estop_asserted '' @ format_6g (of_u32 (s_estop_asserted s)),
     ''safeedge_safety_sequence '' @ format_6g (of_u64 (s_safety_sequence s)),
     ''safeedge_safety_state_age_seconds '' @ format_6g (seconds (uint (s_safety_state_age_ns s))),
     ''safeedge_telegrams_total{result=\"accepted\"} '' @ format_6g (of_u64 (s_telegrams_accepted s)),
     ''safeedge_telegrams_total{result=\"rejected\"} '' @ format_6g (of_u64 (s_telegrams_rejected s)),
     ''safeedge_uptime_seconds '' @ format_6g (seconds (s_uptime_ns s))]"
proof -
  have r: "list_all i64 [s_jitter_p50_ns s, s_jitter_p99_ns s, s_jitter_p999_ns s, s_jitter_max_ns s]"
    "list_all i64 [s_execution_p50_ns s, s_execution_p99_ns s, s_execution_p99_ns s, s_execution_max_ns s]"
    using assms by (simp_all add: snapshot_in_range_def)
  have up: "length (format_6g (seconds (s_uptime_ns s))) \<le> 17"
    using assms by (intro seconds_length) (auto simp: snapshot_in_range_def i64_def)
  have fresh: "format_6g (if fresh then Fin 1 else Fin 0) = (if fresh then ''1'' else ''0'')" 
    using format_6g_nat [of 1] by (simp add: decimal.simps [of "Suc 0"] char_of_def bit_0)
  show ?thesis
    unfolding renderPrometheus_def Let_def
    by (rule exposes_samples, (rule exposes_intros)+)
      (simp_all only: r metric_value_length up fresh, simp_all)
qed

theorem metrics_samples_witness:
  "snapshot_in_range new_RuntimeSnapshot \<and>
   length (samples (renderPrometheus new_RuntimeSnapshot True)) = 24 \<and>
   hd (samples (renderPrometheus new_RuntimeSnapshot True)) = ''safeedge_snapshot_fresh 1''"
proof -
  have ok: "snapshot_in_range new_RuntimeSnapshot"
    by (simp add: snapshot_in_range_def new_RuntimeSnapshot_def i64_def)
  show ?thesis
    unfolding metrics_samples [OF ok] using ok by simp
qed

end
