(* ===== verification/Shared_Memory.thy ===== *)
theory Shared_Memory
  imports Prelude "HOL-Library.Multiset"
begin

text \<open>
  Named shared-memory regions (\<open>include/safeedge/ipc/shared_memory.hpp\<close>,
  \<open>src/ipc/shared_memory.cpp\<close>), as compiled for Linux, and the refusal elsewhere.  The system calls are a record
  of their answers; an operation yields its result and the calls it made, in order,
  so that leaks of descriptors, names and mappings are statements about that list.
  An address is a 64-bit word and the null pointer is zero.
\<close>

section \<open>Model\<close>

record SharedMemoryError =
  operation :: "string option"
  error_number :: int

definition no_error :: SharedMemoryError where
  "no_error = \<lparr>operation = None, error_number = 0\<rparr>"

definition err_ok :: "SharedMemoryError \<Rightarrow> bool" where
  "err_ok e \<longleftrightarrow> operation e = None"

text \<open>\<open>strerror_r\<close> is a parameter: the text for a number, or nothing.\<close>

definition resolvedErrorText :: "string option \<Rightarrow> string" where
  "resolvedErrorText result = (case result of Some txt \<Rightarrow> txt | None \<Rightarrow> ''unknown error'')"

definition err_what :: "(int \<Rightarrow> string option) \<Rightarrow> SharedMemoryError \<Rightarrow> string" where
  "err_what strerror e = (if err_ok e then ''ok'' else resolvedErrorText (strerror (error_number e)))"

record SharedMemoryRegion =
  address :: u64
  region_size :: u64
  region_error :: SharedMemoryError

definition new_region :: SharedMemoryRegion where
  "new_region = \<lparr>address = 0, region_size = 0, region_error = no_error\<rparr>"

definition valid :: "SharedMemoryRegion \<Rightarrow> bool" where
  "valid r \<longleftrightarrow> address r \<noteq> 0"

datatype syscall =
  ShmOpenExclusive string | ShmOpenExisting string | Ftruncate int u64 | Fstat int | Mmap int u64
  | CloseFd int | ShmUnlink string | Munmap u64 u64

text \<open>
  The answers of one call of \<open>create\<close> or \<open>openExisting\<close>: the left of a sum is the
  \<open>errno\<close> of a failure.
\<close>

record shm_answers =
  ans_shm_open :: "int + int"
  ans_ftruncate :: "int option"
  ans_fstat :: "int + u64"
  ans_mmap :: "int + u64"

definition EINVAL :: int where
  "EINVAL = 22"

text \<open>A name is a null pointer or a C string.\<close>

definition nameIsWellFormed :: "string option \<Rightarrow> bool" where
  "nameIsWellFormed name =
     (case name of
        None \<Rightarrow> False
      | Some [] \<Rightarrow> False
      | Some (c # cs) \<Rightarrow> if c \<noteq> CHR 0x2F \<or> cs = [] then False else CHR 0x2F \<notin> set cs)"

definition mapDescriptor :: "shm_answers \<Rightarrow> int \<Rightarrow> u64 \<Rightarrow> u64 \<times> SharedMemoryError \<times> syscall list" where
  "mapDescriptor ans descriptor bytes =
     (case ans_mmap ans of
        Inl e \<Rightarrow> (0, \<lparr>operation = Some ''mmap'', error_number = e\<rparr>, [Mmap descriptor bytes])
      | Inr a \<Rightarrow> (a, no_error, [Mmap descriptor bytes]))"

definition close :: "SharedMemoryRegion \<Rightarrow> SharedMemoryRegion \<times> syscall list" where
  "close r =
     (r\<lparr>address := 0, region_size := 0\<rparr>,
      if address r \<noteq> 0 then [Munmap (address r) (region_size r)] else [])"

text \<open>The moved-to and the moved-from region.\<close>

definition move_construct :: "SharedMemoryRegion \<Rightarrow> SharedMemoryRegion \<times> SharedMemoryRegion" where
  "move_construct other =
     (\<lparr>address = address other, region_size = region_size other, region_error = region_error other\<rparr>,
      other\<lparr>address := 0, region_size := 0\<rparr>)"

text \<open>\<open>operator=\<close> for two different objects; assignment to itself does nothing.\<close>

definition move_assign ::
  "SharedMemoryRegion \<Rightarrow> SharedMemoryRegion \<Rightarrow> (SharedMemoryRegion \<times> SharedMemoryRegion) \<times> syscall list" where
  "move_assign this other =
     (let (this, calls) = close this;
          this = this\<lparr>address := address other, region_size := region_size other, region_error := region_error other\<rparr>;
          other = other\<lparr>address := 0, region_size := 0\<rparr>
      in ((this, other), calls))"

definition unlinkName :: "string option \<Rightarrow> syscall list" where
  "unlinkName name = (if nameIsWellFormed name then [ShmUnlink (the name)] else [])"

definition shm_failed :: "string \<Rightarrow> int \<Rightarrow> SharedMemoryRegion" where
  "shm_failed call e = new_region\<lparr>region_error := \<lparr>operation = Some call, error_number = e\<rparr>\<rparr>"

definition create :: "shm_answers \<Rightarrow> string option \<Rightarrow> u64 \<Rightarrow> SharedMemoryRegion \<times> syscall list" where
  "create ans name bytes =
     (if \<not> nameIsWellFormed name then (shm_failed ''name'' EINVAL, [])
      else if bytes = 0 then (shm_failed ''size'' EINVAL, [])
      else
        (case ans_shm_open ans of
           Inl e \<Rightarrow> (shm_failed ''shm_open'' e, [ShmOpenExclusive (the name)])
         | Inr descriptor \<Rightarrow>
             (case ans_ftruncate ans of
                Some e \<Rightarrow>
                  (shm_failed ''ftruncate'' e,
                   [ShmOpenExclusive (the name), Ftruncate descriptor bytes, CloseFd descriptor, ShmUnlink (the name)])
              | None \<Rightarrow>
                  let (a, e, calls) = mapDescriptor ans descriptor bytes;
                      region = \<lparr>address = a, region_size = (if a \<noteq> 0 then bytes else 0), region_error = e\<rparr>
                  in (region,
                      [ShmOpenExclusive (the name), Ftruncate descriptor bytes] @ calls @ [CloseFd descriptor]
                      @ (if \<not> valid region then [ShmUnlink (the name)] else [])))))"

definition openExisting :: "shm_answers \<Rightarrow> string option \<Rightarrow> u64 \<Rightarrow> SharedMemoryRegion \<times> syscall list" where
  "openExisting ans name bytes =
     (if \<not> nameIsWellFormed name then (shm_failed ''name'' EINVAL, [])
      else
        (case ans_shm_open ans of
           Inl e \<Rightarrow> (shm_failed ''shm_open'' e, [ShmOpenExisting (the name)])
         | Inr descriptor \<Rightarrow>
             (case ans_fstat ans of
                Inl e \<Rightarrow>
                  (shm_failed ''fstat'' e, [ShmOpenExisting (the name), Fstat descriptor, CloseFd descriptor])
              | Inr st_size \<Rightarrow>
                  if st_size < bytes then
                    (shm_failed ''size'' EINVAL, [ShmOpenExisting (the name), Fstat descriptor, CloseFd descriptor])
                  else
                    let (a, e, calls) = mapDescriptor ans descriptor bytes
                    in (\<lparr>address = a, region_size = (if a \<noteq> 0 then bytes else 0), region_error = e\<rparr>,
                        [ShmOpenExisting (the name), Fstat descriptor] @ calls @ [CloseFd descriptor]))))"

text \<open>Where there is no shared memory the two operations report that and make no call.\<close>

definition ENOSYS :: int where
  "ENOSYS = 38"

definition create_elsewhere :: "string option \<Rightarrow> u64 \<Rightarrow> SharedMemoryRegion \<times> syscall list" where
  "create_elsewhere name bytes = (shm_failed ''platform'' ENOSYS, [])"

definition openExisting_elsewhere :: "string option \<Rightarrow> u64 \<Rightarrow> SharedMemoryRegion \<times> syscall list" where
  "openExisting_elsewhere name bytes = (shm_failed ''platform'' ENOSYS, [])"

lemma elsewhere_refuses:
  assumes "f = create_elsewhere \<or> f = openExisting_elsewhere"
  shows "\<not> valid (fst (f name bytes)) \<and> \<not> err_ok (region_error (fst (f name bytes))) \<and>
    snd (f name bytes) = [] \<and> snd (close (fst (f name bytes))) = []"
  using assms
  by (auto simp: create_elsewhere_def openExisting_elsewhere_def shm_failed_def new_region_def valid_def err_ok_def close_def)

section \<open>The ledger of system resources\<close>

text \<open>
  What a list of calls leaves behind: open descriptors, names in the file system
  and mappings.  A call that failed leaves nothing.
\<close>

record ledger =
  fds :: "int multiset"
  names :: "string set"
  maps :: "(u64 \<times> u64) multiset"

fun effect :: "shm_answers \<Rightarrow> syscall \<Rightarrow> ledger \<Rightarrow> ledger" where
  "effect ans (ShmOpenExclusive n) L =
     (case ans_shm_open ans of Inl e \<Rightarrow> L | Inr d \<Rightarrow> L\<lparr>fds := add_mset d (fds L), names := insert n (names L)\<rparr>)"
| "effect ans (ShmOpenExisting n) L =
     (case ans_shm_open ans of Inl e \<Rightarrow> L | Inr d \<Rightarrow> L\<lparr>fds := add_mset d (fds L)\<rparr>)"
| "effect ans (Ftruncate d n) L = L"
| "effect ans (Fstat d) L = L"
| "effect ans (Mmap d n) L = (case ans_mmap ans of Inl e \<Rightarrow> L | Inr a \<Rightarrow> L\<lparr>maps := add_mset (a, n) (maps L)\<rparr>)"
| "effect ans (CloseFd d) L = L\<lparr>fds := fds L - {#d#}\<rparr>"
| "effect ans (ShmUnlink n) L = L\<lparr>names := names L - {n}\<rparr>"
| "effect ans (Munmap a n) L = L\<lparr>maps := maps L - {#(a, n)#}\<rparr>"

definition replay :: "shm_answers \<Rightarrow> syscall list \<Rightarrow> ledger \<Rightarrow> ledger" where
  "replay ans calls L = fold (effect ans) calls L"

definition holding :: "SharedMemoryRegion \<Rightarrow> (u64 \<times> u64) multiset" where
  "holding r = (if valid r then {#(address r, region_size r)#} else {#})"

text \<open>
  What the code relies on: a mapping is never at the null address, and an
  exclusive open succeeds only if the name was not there.
\<close>

definition mmap_not_null :: "shm_answers \<Rightarrow> bool" where
  "mmap_not_null ans \<longleftrightarrow> (case ans_mmap ans of Inl e \<Rightarrow> True | Inr a \<Rightarrow> a \<noteq> 0)"

definition exclusive :: "shm_answers \<Rightarrow> string option \<Rightarrow> ledger \<Rightarrow> bool" where
  "exclusive ans name L \<longleftrightarrow> (case ans_shm_open ans of Inl e \<Rightarrow> True | Inr d \<Rightarrow> the name \<notin> names L)"

lemmas region_simps = shm_failed_def new_region_def valid_def err_ok_def mapDescriptor_def no_error_def holding_def

lemma create_result:
  assumes "mmap_not_null ans" and "create ans name bytes = (r, calls)"
  shows "(valid r \<longleftrightarrow> err_ok (region_error r)) \<and> region_size r = (if valid r then bytes else 0) \<and>
    (valid r \<longleftrightarrow> nameIsWellFormed name \<and> bytes \<noteq> 0 \<and> (\<exists>d. ans_shm_open ans = Inr d) \<and>
       ans_ftruncate ans = None \<and> (\<exists>a. ans_mmap ans = Inr a))"
  using assms
  by (auto simp: create_def region_simps mmap_not_null_def split: if_splits sum.splits option.splits)

lemma create_ledger:
  assumes "mmap_not_null ans" and "exclusive ans name L" and "create ans name bytes = (r, calls)"
  shows "replay ans calls L = L\<lparr>names := (if valid r then insert (the name) (names L) else names L),
    maps := maps L + holding r\<rparr>"
  using assms
  by (auto simp: create_def region_simps mmap_not_null_def exclusive_def replay_def
      split: if_splits sum.splits option.splits)

lemma openExisting_result:
  assumes "mmap_not_null ans" and "openExisting ans name bytes = (r, calls)"
  shows "(valid r \<longleftrightarrow> err_ok (region_error r)) \<and> region_size r = (if valid r then bytes else 0) \<and>
    (valid r \<longleftrightarrow> nameIsWellFormed name \<and> (\<exists>d. ans_shm_open ans = Inr d) \<and>
       (\<exists>n. ans_fstat ans = Inr n \<and> bytes \<le> n) \<and> (\<exists>a. ans_mmap ans = Inr a))"
  using assms
  by (auto simp: openExisting_def region_simps mmap_not_null_def not_less split: if_splits sum.splits option.splits)

lemma openExisting_ledger:
  assumes "mmap_not_null ans" and "openExisting ans name bytes = (r, calls)"
  shows "replay ans calls L = L\<lparr>maps := maps L + holding r\<rparr>"
  using assms
  by (auto simp: openExisting_def region_simps mmap_not_null_def replay_def split: if_splits sum.splits option.splits)

section \<open>Objects that own mappings\<close>

text \<open>A program over region objects: each operation names the objects by index.\<close>

datatype region_op =
  AssignCreate nat shm_answers "string option" u64
  | AssignOpen nat shm_answers "string option" u64
  | MoveAssign nat nat
  | CloseRegion nat

text \<open>No call among those of \<open>close\<close> asks for an answer.\<close>

definition no_answers :: shm_answers where
  "no_answers = \<lparr>ans_shm_open = Inl 0, ans_ftruncate = None, ans_fstat = Inl 0, ans_mmap = Inl 0\<rparr>"

text \<open>
  An assignment from a function's result moves from a temporary, whose destructor
  then closes the moved-from region.
\<close>

definition assign_temporary ::
  "shm_answers \<Rightarrow> nat \<Rightarrow> SharedMemoryRegion \<times> syscall list \<Rightarrow> SharedMemoryRegion list \<times> ledger \<Rightarrow>
   SharedMemoryRegion list \<times> ledger" where
  "assign_temporary ans i = (\<lambda>(temp, calls) (rs, L).
     let ((this, moved), unmaps) = move_assign (rs ! i) temp;
         (gone, final) = close moved
     in (rs[i := this], replay ans (calls @ unmaps @ final) L))"

fun region_op_step :: "region_op \<Rightarrow> SharedMemoryRegion list \<times> ledger \<Rightarrow> SharedMemoryRegion list \<times> ledger" where
  "region_op_step (AssignCreate i ans name bytes) st = assign_temporary ans i (create ans name bytes) st"
| "region_op_step (AssignOpen i ans name bytes) st = assign_temporary ans i (openExisting ans name bytes) st"
| "region_op_step (MoveAssign i j) (rs, L) =
     (if i = j then (rs, L)
      else
        let ((this, other), calls) = move_assign (rs ! i) (rs ! j)
        in (rs[i := this, j := other], replay no_answers calls L))"
| "region_op_step (CloseRegion i) (rs, L) =
     (let (r, calls) = close (rs ! i) in (rs[i := r], replay no_answers calls L))"

definition held :: "SharedMemoryRegion list \<Rightarrow> (u64 \<times> u64) multiset" where
  "held rs = sum_list (map holding rs)"

definition op_ok :: "nat \<Rightarrow> region_op \<Rightarrow> ledger \<Rightarrow> bool" where
  "op_ok n x L =
     (case x of
        AssignCreate i ans name bytes \<Rightarrow> i < n \<and> mmap_not_null ans \<and> exclusive ans name L
      | AssignOpen i ans name bytes \<Rightarrow> i < n \<and> mmap_not_null ans
      | MoveAssign i j \<Rightarrow> i < n \<and> j < n
      | CloseRegion i \<Rightarrow> i < n)"

lemma held_update: "i < length rs \<Longrightarrow> held (rs[i := r]) + holding (rs ! i) = held rs + holding r"
proof (induction rs arbitrary: i)
  case (Cons x rs)
  then show ?case by (cases i) (simp_all add: held_def ac_simps)
qed simp

lemma held_elem: "i < length rs \<Longrightarrow> holding (rs ! i) \<subseteq># held rs"
proof (induction rs arbitrary: i)
  case (Cons x rs)
  then show ?case by (cases i) (simp_all add: held_def subset_mset.add_increasing)
qed simp

lemma replay_append [simp]: "replay ans (xs @ ys) L = replay ans ys (replay ans xs L)"
  by (simp add: replay_def)

lemma replay_Nil [simp]: "replay ans [] L = L"
  by (simp add: replay_def)

lemma close_ledger: "replay ans (snd (close r)) L = L\<lparr>maps := maps L - holding r\<rparr>"
  by (simp add: close_def replay_def holding_def valid_def)

lemma move_assign_result:
  "move_assign this other =
     ((this\<lparr>address := address other, region_size := region_size other, region_error := region_error other\<rparr>,
       other\<lparr>address := 0, region_size := 0\<rparr>), snd (close this))"
  by (simp add: move_assign_def close_def Let_def)

lemma assign_temporary_ledger:
  assumes "i < length rs" and "maps L = held rs" and "replay ans calls L = L\<lparr>names := N, maps := maps L + holding temp\<rparr>"
    and "assign_temporary ans i (temp, calls) (rs, L) = (rs', L')"
  shows "length rs' = length rs \<and> maps L' = held rs' \<and> fds L' = fds L"
proof -
  let ?t = "(rs ! i)\<lparr>address := address temp, region_size := region_size temp, region_error := region_error temp\<rparr>"
  have eq: "rs' = rs[i := ?t]" "L' = L\<lparr>names := N, maps := maps L + holding temp - holding (rs ! i)\<rparr>"
    using assms(4) by (auto simp: assign_temporary_def move_assign_result assms(3) close_ledger)
      (simp_all add: close_def)
  have "holding ?t = holding temp" by (simp add: holding_def valid_def)
  then have "held rs + holding temp - holding (rs ! i) = held rs'"
    using held_update [OF assms(1), of ?t] eq(1) by (metis add_diff_cancel_right')
  then show ?thesis using eq assms(2) by simp
qed

lemma region_op_ledger:
  assumes "op_ok (length rs) x L" and "maps L = held rs" and "region_op_step x (rs, L) = (rs', L')"
  shows "length rs' = length rs \<and> maps L' = held rs' \<and> fds L' = fds L"
proof (cases x)
  case (AssignCreate i ans name bytes)
  obtain r calls where c: "create ans name bytes = (r, calls)" by fastforce
  show ?thesis
    using assms AssignCreate create_ledger [OF _ _ c, of L]
    by (intro assign_temporary_ledger [where temp = r and calls = calls]) (auto simp: op_ok_def c)
next
  case (AssignOpen i ans name bytes)
  obtain r calls where c: "openExisting ans name bytes = (r, calls)" by fastforce
  show ?thesis
    using assms AssignOpen openExisting_ledger [OF _ c, of L]
    by (intro assign_temporary_ledger [where temp = r and calls = calls and N = "names L"]) (auto simp: op_ok_def c)
next
  case (MoveAssign i j)
  show ?thesis
  proof (cases "i = j")
    case False
    let ?t = "(rs ! i)\<lparr>address := address (rs ! j), region_size := region_size (rs ! j), region_error := region_error (rs ! j)\<rparr>"
    let ?other = "(rs ! j)\<lparr>address := 0, region_size := 0\<rparr>"
    have eq: "rs' = rs[i := ?t, j := ?other]" "L' = L\<lparr>maps := maps L - holding (rs ! i)\<rparr>"
      using assms(3) MoveAssign False by (simp_all add: move_assign_result close_ledger)
    have len: "i < length rs" "j < length rs" using assms(1) MoveAssign by (simp_all add: op_ok_def)
    have h: "holding ?t = holding (rs ! j)" "holding ?other = {#}" by (simp_all add: holding_def valid_def)
    have "held (rs[i := ?t]) + holding (rs ! i) = held rs + holding (rs ! j)"
      using held_update [OF len(1), of ?t] h(1) by simp
    moreover have "held rs' + holding (rs ! j) = held (rs[i := ?t])"
      using held_update [of j "rs[i := ?t]" ?other] len False h(2) eq(1) by simp
    ultimately have "held rs' + holding (rs ! i) = held rs"
      by (metis add.commute add.left_commute add_left_cancel)
    then have "held rs - holding (rs ! i) = held rs'" by (metis add_diff_cancel_right')
    then show ?thesis using eq assms(2) by simp
  qed (use assms MoveAssign in simp)
next
  case (CloseRegion i)
  have i: "i < length rs" using assms(1) CloseRegion by (simp add: op_ok_def)
  have eq: "rs' = rs[i := fst (close (rs ! i))]" "L' = L\<lparr>maps := maps L - holding (rs ! i)\<rparr>"
    using assms(3) CloseRegion close_ledger [of no_answers "rs ! i" L] by (simp_all add: Let_def split: prod.splits)
  have "holding (fst (close (rs ! i))) = {#}" by (simp add: close_def holding_def valid_def)
  then have "held rs' + holding (rs ! i) = held rs" using held_update [OF i] eq(1) by simp
  then have "held rs - holding (rs ! i) = held rs'" by (metis add_diff_cancel_right')
  then show ?thesis using eq assms(2) by simp
qed

fun region_run :: "region_op list \<Rightarrow> SharedMemoryRegion list \<times> ledger \<Rightarrow> SharedMemoryRegion list \<times> ledger" where
  "region_run [] st = st"
| "region_run (x # xs) st = region_run xs (region_op_step x st)"

fun ops_ok :: "region_op list \<Rightarrow> SharedMemoryRegion list \<times> ledger \<Rightarrow> bool" where
  "ops_ok [] st = True"
| "ops_ok (x # xs) st = (op_ok (length (fst st)) x (snd st) \<and> ops_ok xs (region_op_step x st))"

lemma region_run_ledger:
  "ops_ok xs (rs, L) \<Longrightarrow> maps L = held rs \<Longrightarrow> region_run xs (rs, L) = (rs', L') \<Longrightarrow>
   length rs' = length rs \<and> maps L' = held rs' \<and> fds L' = fds L"
proof (induction xs arbitrary: rs L)
  case (Cons x xs)
  obtain r1 L1 where st: "region_op_step x (rs, L) = (r1, L1)" by fastforce
  have "length r1 = length rs \<and> maps L1 = held r1 \<and> fds L1 = fds L"
    using region_op_ledger [OF _ _ st] Cons.prems by simp
  moreover have "ops_ok xs (r1, L1)" "region_run xs (r1, L1) = (rs', L')"
    using Cons.prems st by simp_all
  ultimately show ?case using Cons.IH by metis
qed simp

text \<open>The destructors: every object is closed, in order.\<close>

definition destroy_all :: "SharedMemoryRegion list \<Rightarrow> ledger \<Rightarrow> ledger" where
  "destroy_all rs L = fold (\<lambda>r L. replay no_answers (snd (close r)) L) rs L"

lemma destroy_all_ledger: "maps L = held rs + M \<Longrightarrow> destroy_all rs L = L\<lparr>maps := M\<rparr>"
proof (induction rs arbitrary: L)
  case (Cons r rs)
  have "maps (L\<lparr>maps := maps L - holding r\<rparr>) = held rs + M"
    using Cons.prems by (simp add: held_def ac_simps)
  from Cons.IH [OF this] show ?case by (simp add: destroy_all_def close_ledger)
qed (simp add: destroy_all_def held_def)

section \<open>Properties\<close>

text \<open>
  Creating a region is all or nothing: whatever the system answers, no
  descriptor stays open, a name that was created is removed again unless the
  region is valid, and the region is valid exactly when it reports no error and
  every call succeeded; then it is mapped with the size asked for.
\<close>

theorem create_all_or_nothing:
  assumes "mmap_not_null ans" and "exclusive ans name L" and "create ans name bytes = (r, calls)"
  shows "replay ans calls L = (if valid r
      then L\<lparr>names := insert (the name) (names L), maps := add_mset (address r, bytes) (maps L)\<rparr> else L) \<and>
    (valid r \<longleftrightarrow> err_ok (region_error r)) \<and>
    (valid r \<longleftrightarrow> nameIsWellFormed name \<and> bytes \<noteq> 0 \<and> (\<exists>d. ans_shm_open ans = Inr d) \<and>
       ans_ftruncate ans = None \<and> (\<exists>a. ans_mmap ans = Inr a))"
proof -
  have "region_size r = (if valid r then bytes else 0)" using create_result [OF assms(1,3)] by blast
  then have "replay ans calls L = (if valid r
      then L\<lparr>names := insert (the name) (names L), maps := add_mset (address r, bytes) (maps L)\<rparr> else L)"
    using create_ledger [OF assms] by (simp add: holding_def)
  then show ?thesis using create_result [OF assms(1,3)] by blast
qed

theorem create_all_or_nothing_witness:
  "let ans = \<lparr>ans_shm_open = Inr 7, ans_ftruncate = None, ans_fstat = Inl 0, ans_mmap = Inl 12\<rparr>;
       L = \<lparr>fds = {#}, names = {''/other''}, maps = {#}\<rparr>;
       (r, calls) = create ans (Some ''/safeedge'') 192
   in replay ans calls L = L \<and> \<not> valid r \<and> calls \<noteq> []"
proof -
  let ?ans = "\<lparr>ans_shm_open = Inr 7, ans_ftruncate = None, ans_fstat = Inl 0, ans_mmap = Inl 12\<rparr> :: shm_answers"
  let ?L = "\<lparr>fds = {#}, names = {''/other''}, maps = {#}\<rparr>"
  obtain r calls where c: "create ?ans (Some ''/safeedge'') 192 = (r, calls)" by fastforce
  have "mmap_not_null ?ans" "exclusive ?ans (Some ''/safeedge'') ?L"
    by (simp_all add: mmap_not_null_def exclusive_def)
  from create_all_or_nothing [OF this c] have "replay ?ans calls ?L = ?L \<and> \<not> valid r"
    by (simp split: if_splits)
  moreover have "calls \<noteq> []" using c by (auto simp: create_def nameIsWellFormed_def mapDescriptor_def Let_def)
  ultimately show ?thesis by (simp add: c Let_def)
qed



end
