(* ===== verification/Safeedged.thy ===== *)
theory Safeedged
  imports Control_Loop Flag_Watcher Http_Server Metrics Shared_Memory
begin

text \<open>
  The daemon around the control loop (\<open>src/apps/safeedged.cpp\<close>): its settings, the
  endpoints it serves from the published snapshot, its startup with the exit codes, and
  the health probe that the same program is when asked.  The answers of the operating
  system are arguments.  The theory puts the parts together: what the endpoints say of
  the loop's mode, and what the probe reports through the server.
\<close>

section \<open>Model\<close>

subsection \<open>Settings\<close>

definition LONG_MAX :: int where
  "LONG_MAX = 2 ^ 63 - 1"

definition LONG_MIN :: int where
  "LONG_MIN = - (2 ^ 63)"

definition isspace :: "char \<Rightarrow> bool" where
  "isspace c \<longleftrightarrow> c \<in> set [CHR 0x20, CHR 0x09, CHR 0x0A, CHR 0x0B, CHR 0x0C, CHR 0x0D]"

definition isdigit :: "char \<Rightarrow> bool" where
  "isdigit c \<longleftrightarrow> 48 \<le> (of_char c :: nat) \<and> (of_char c :: nat) \<le> 57"

text \<open>\<open>std::strtol\<close> in base ten: the value, held to the range of \<open>long\<close>, and the text it stops at.\<close>

definition strtol :: "string \<Rightarrow> int \<times> string" where
  "strtol s =
     (let t = dropWhile isspace s;
          neg = (t \<noteq> [] \<and> hd t = CHR ''-'');
          t = (if t \<noteq> [] \<and> (hd t = CHR ''-'' \<or> hd t = CHR ''+'') then tl t else t);
          digits = takeWhile isdigit t
      in if digits = [] then (0, s)
         else
           let v = int (undecimal digits);
               v = (if neg then - v else v)
           in (max LONG_MIN (min LONG_MAX v), dropWhile isdigit t))"

definition environmentLong :: "(string \<Rightarrow> string option) \<Rightarrow> string \<Rightarrow> int \<Rightarrow> int" where
  "environmentLong getenv name fallback =
     (case getenv name of
        None \<Rightarrow> fallback
      | Some raw \<Rightarrow>
          if raw = [] then fallback
          else let (parsed, rest) = strtol raw in if rest = [] then parsed else fallback)"

definition environmentString :: "(string \<Rightarrow> string option) \<Rightarrow> string \<Rightarrow> string \<Rightarrow> string" where
  "environmentString getenv name fallback =
     (case getenv name of None \<Rightarrow> fallback | Some raw \<Rightarrow> if raw \<noteq> [] then raw else fallback)"

record settings =
  frequency_hz :: int
  rt_priority :: int
  snapshot_shm :: string
  estop_path :: string
  ack_path :: string

definition metrics_port_of :: "(string \<Rightarrow> string option) \<Rightarrow> u16" where
  "metrics_port_of getenv = word_of_int (environmentLong getenv ''SAFEEDGE_METRICS_PORT'' 9100)"

definition read_settings :: "(string \<Rightarrow> string option) \<Rightarrow> settings" where
  "read_settings getenv =
     \<lparr>frequency_hz = environmentLong getenv ''SAFEEDGE_FREQUENCY_HZ'' 1000,
      rt_priority = environmentLong getenv ''SAFEEDGE_RT_PRIORITY'' 80,
      snapshot_shm = environmentString getenv ''SAFEEDGE_SNAPSHOT_SHM'' [],
      estop_path = environmentString getenv ''SAFEEDGE_ESTOP_FILE'' ''/tmp/safeedge-estop'',
      ack_path = environmentString getenv ''SAFEEDGE_ACK_FILE'' ''/tmp/safeedge-ack''\<rparr>"

subsection \<open>Log lines\<close>

definition quoted :: "string \<Rightarrow> string" where
  "quoted s = CHR 0x22 # s @ [CHR 0x22]"

definition logEvent :: "int \<Rightarrow> string \<Rightarrow> string \<Rightarrow> string option \<Rightarrow> string" where
  "logEvent now level msg detail =
     ''{'' @ quoted ''ts'' @ '':'' @ decimal_int now @ '','' @ quoted ''level'' @ '':'' @ quoted level @ '',''
     @ quoted ''msg'' @ '':'' @ quoted msg
     @ (case detail of Some d \<Rightarrow> '','' @ quoted ''detail'' @ '':'' @ quoted d | None \<Rightarrow> [])
     @ ''}'' @ nl"

subsection \<open>Endpoints\<close>

text \<open>
  What a handler sees: the flag of the loop, which \<open>/healthz\<close> loads twice, and the
  result of \<open>tryLoad\<close> on the slot.
\<close>

record daemon_view =
  loop_running :: bool
  loop_running_again :: bool
  loaded :: "RuntimeSnapshot option"

definition healthz :: "daemon_view \<Rightarrow> HttpResponse" where
  "healthz v =
     new_HttpResponse
       \<lparr>body := (if loop_running v then ''ok'' @ nl else ''starting'' @ nl),
        status := (if loop_running_again v then 200 else 503)\<rparr>"

definition readyz :: "daemon_view \<Rightarrow> HttpResponse" where
  "readyz v =
     (case loaded v of
        None \<Rightarrow> new_HttpResponse\<lparr>status := 503, body := ''snapshot unavailable'' @ nl\<rparr>
      | Some snapshot \<Rightarrow>
          if s_fault_latched snapshot \<noteq> 0
          then new_HttpResponse\<lparr>status := 503, body := ''safety fault latched'' @ nl\<rparr>
          else new_HttpResponse\<lparr>body := ''ready'' @ nl\<rparr>)"

definition safety_endpoint :: "daemon_view \<Rightarrow> HttpResponse" where
  "safety_endpoint v =
     (let response = new_HttpResponse\<lparr>content_type := ''text/plain''\<rparr>
      in case loaded v of
           None \<Rightarrow> response\<lparr>status := 503, body := ''snapshot unavailable'' @ nl\<rparr>
         | Some snapshot \<Rightarrow>
             response\<lparr>body := snprintf 128
               (decimal (unat (s_safety_sequence snapshot)) @ '' '' @ decimal (unat (s_torque_permitted snapshot))
                @ '' '' @ decimal (unat (s_safety_transition_monotonic_ns snapshot)) @ nl)\<rparr>)"

definition metrics_endpoint :: "daemon_view \<Rightarrow> HttpResponse" where
  "metrics_endpoint v =
     (let (snapshot, fresh) = (case loaded v of Some s \<Rightarrow> (s, True) | None \<Rightarrow> (new_RuntimeSnapshot, False))
      in new_HttpResponse
           \<lparr>content_type := ''text/plain; version=0.0.4; charset=utf-8'', body := renderPrometheus snapshot fresh\<rparr>)"

definition daemon_server :: "daemon_view HttpServer" where
  "daemon_server =
     route ''/metrics'' metrics_endpoint (route ''/safety'' safety_endpoint
       (route ''/readyz'' readyz (route ''/healthz'' healthz new_HttpServer)))"

subsection \<open>The health probe\<close>

definition probe_request :: string where
  "probe_request = ''GET /healthz HTTP/1.1'' @ crlf @ ''Host: localhost'' @ crlf @ ''Connection: close'' @ crlf @ crlf"

text \<open>The results of its calls; \<open>probe_read\<close> is what \<open>read\<close> puts into the buffer, nothing if it fails.\<close>

record probe_answers =
  probe_socket :: int
  probe_connect :: int
  probe_write :: int
  probe_read :: string

definition runHealthcheck :: "probe_answers \<Rightarrow> int \<times> socket_call list" where
  "runHealthcheck sys =
     (let fd = probe_socket sys in
      if fd < 0 then (1, [Socket fd])
      else if probe_connect sys \<noteq> 0 then (1, [Socket fd, Close fd])
      else if probe_write sys \<noteq> int (length probe_request) then (1, [Socket fd, Close fd])
      else if probe_read sys = [] then (1, [Socket fd, Close fd])
      else
        let response = copy_at 0 (take 63 (probe_read sys)) (replicate 64 (CHR 0x00))
        in (if str_find '' 200 '' (c_string response) \<noteq> None then 0 else 1, [Socket fd, Close fd]))"

subsection \<open>Startup and shutdown\<close>

record daemon =
  d_settings :: settings
  d_server :: "daemon_view HttpServer"
  d_region :: SharedMemoryRegion
  d_shared :: bool
  d_slot :: seqlock
  d_estop :: FileFlagWatcher
  d_ack :: FileFlagWatcher
  d_shm_calls :: "syscall list"
  d_socket_calls :: "socket_call list"

record daemon_answers =
  signal_failed :: bool
  shm_sys :: shm_answers
  server_sys :: socket_answers
  slot_padding :: "u32 \<times> u32"
  probe_sys :: probe_answers

text \<open>The size of the slot: a cache line for the counter, and its 21 words rounded up to cache lines.\<close>

definition snapshot_slot_bytes :: u64 where
  "snapshot_slot_bytes = 256"

text \<open>Until the control thread starts: an exit code, or the daemon.\<close>

definition daemon_start ::
  "daemon_answers \<Rightarrow> (string \<Rightarrow> string option) \<Rightarrow> string list \<Rightarrow> int + daemon" where
  "daemon_start sys getenv argv =
     (let metrics_port = metrics_port_of getenv in
      if 1 < length argv \<and> argv ! 1 = ''--healthcheck'' then Inl (fst (runHealthcheck (probe_sys sys)))
      else if signal_failed sys then Inl 2
      else
        let cfg = read_settings getenv in
        if frequency_hz cfg \<le> 0 \<or> 100000 < frequency_hz cfg then Inl 2
        else
          let (region, shm_calls) = (if snapshot_shm cfg \<noteq> [] then
                let unlinks = unlinkName (Some (snapshot_shm cfg));
                    (created, creates) = create (shm_sys sys) (Some (snapshot_shm cfg)) snapshot_slot_bytes;
                    ((region, moved), moves) = move_assign new_region created;
                    (moved, closes) = close moved
                in (region, unlinks @ creates @ moves @ closes)
              else (new_region, []));
              slot = initial_slot (slot_padding sys);
              (ok, server, calls) = start (server_sys sys) metrics_port daemon_server
          in if \<not> ok then Inl 3
             else Inr \<lparr>d_settings = cfg, d_server = server, d_region = region,
                       d_shared = (snapshot_shm cfg \<noteq> [] \<and> valid region), d_slot = slot,
                       d_estop = new_FileFlagWatcher kLevel, d_ack = new_FileFlagWatcher kLatchOnce,
                       d_shm_calls = shm_calls, d_socket_calls = calls\<rparr>)"

text \<open>The last log line.\<close>

definition daemon_finish :: "int \<Rightarrow> RuntimeSnapshot option \<Rightarrow> string" where
  "daemon_finish now final =
     (case final of
        Some s \<Rightarrow>
          logEvent now ''info'' ''stopped''
            (Some (snprintf 256
              (''cycles='' @ decimal (unat (s_cycles_executed s)) @ '' overruns='' @ decimal (unat (s_overruns s))
               @ '' allocations='' @ decimal (unat (s_allocation_violations s)))))
      | None \<Rightarrow> logEvent now ''info'' ''stopped'' None)"

section \<open>Settings\<close>

lemma decimal_isdigit: "c \<in> set (decimal n) \<Longrightarrow> isdigit c"
  using decimal_digits [of c n] by (auto simp: isdigit_def)

lemma takeWhile_decimal [simp]:
  "takeWhile isdigit (decimal n) = decimal n" "dropWhile isdigit (decimal n) = []"
  by (auto simp: takeWhile_eq_all_conv dropWhile_eq_Nil_conv decimal_isdigit)

lemma decimal_head: "isdigit (hd (decimal n))" "decimal n \<noteq> []"
  using decimal_isdigit [of "hd (decimal n)" n] by (simp_all add: decimal_nonempty)

text \<open>A setting written as a number is read as that number.\<close>

lemma strtol_decimal_int: "i64 v \<Longrightarrow> strtol (decimal_int v) = (v, [])"
proof -
  assume v: "i64 v"
  have sp: "\<not> isspace (hd (decimal n))" "hd (decimal n) \<noteq> CHR ''-''" "hd (decimal n) \<noteq> CHR ''+''" for n
    using decimal_head(1) [of n] by (auto simp: isdigit_def isspace_def)
  have drop: "dropWhile isspace (decimal n) = decimal n" for n
    using sp(1) [of n] decimal_head(2) [of n] by (cases "decimal n") auto
  show ?thesis
  proof (cases "v < 0")
    case True
    then have "decimal_int v = CHR ''-'' # decimal (nat (- v))" by (simp add: decimal_int_def)
    then show ?thesis
      using v True decimal_head(2) by (simp add: strtol_def isspace_def i64_def LONG_MIN_def LONG_MAX_def)
  next
    case False
    then have "decimal_int v = decimal (nat v)" by (simp add: decimal_int_def)
    then show ?thesis
      using v False sp decimal_head(2) by (simp add: strtol_def drop i64_def LONG_MIN_def LONG_MAX_def)
  qed
qed

lemma environmentLong_number:
  "i64 v \<Longrightarrow> getenv name = Some (decimal_int v) \<Longrightarrow> environmentLong getenv name d = v"
proof -
  assume v: "i64 v" "getenv name = Some (decimal_int v)"
  have "decimal_int v \<noteq> []" by (simp add: decimal_int_def)
  with v show ?thesis by (simp add: environmentLong_def strtol_decimal_int)
qed

section \<open>Log lines\<close>

text \<open>The detail is copied as it is, so a log line is one line only if the detail has no line break.\<close>

lemma log_line_breaks:
  "length (filter (\<lambda>c. c = CHR 0x0A) (logEvent now level msg (Some d))) \<ge>
   Suc (length (filter (\<lambda>c. c = CHR 0x0A) d))"
  by (simp add: logEvent_def quoted_def nl_def)

section \<open>The probe\<close>

lemma str_find_take: "pat \<noteq> [] \<Longrightarrow> str_find pat s = None \<Longrightarrow> str_find pat (take k s) = None"
proof (rule ccontr)
  assume pat: "pat \<noteq> []" and none: "str_find pat s = None" and some: "str_find pat (take k s) \<noteq> None"
  then obtain i where i: "i \<le> length (take k s)" "prefix pat (drop i (take k s))"
    using str_find_Some by blast
  have "prefix (drop i (take k s)) (drop i s)" by (simp add: drop_take take_is_prefix)
  then have "prefix pat (drop i s)" using i(2) prefix_order.trans by blast
  then show False using str_find_None [OF none, of i] i(1) by simp
qed

lemma str_find_there: "i \<le> length s \<Longrightarrow> prefix pat (drop i s) \<Longrightarrow> str_find pat s \<noteq> None"
  using str_find_None by blast

text \<open>What the buffer of the probe holds as a string.\<close>

lemma probe_buffer:
  assumes "length r \<le> 63" and "CHR 0x00 \<notin> set r"
  shows "c_string (copy_at 0 (take 63 r) (replicate 64 (CHR 0x00))) = r"
proof -
  obtain n where "64 - length r = Suc n" using assms(1) by (cases "64 - length r") auto
  then show ?thesis using c_string_terminated [OF assms(2), of "replicate n (CHR 0x00)"] assms(1) by (simp add: copy_at_def)
qed

definition head_start :: "bool \<Rightarrow> string" where
  "head_start up =
     (if up then ''HTTP/1.1 200 OK'' @ crlf else ''HTTP/1.1 503 Service Unavailable'' @ crlf)
     @ ''Content-Type: text/plain; charset=utf-8'' @ crlf @ ''Content-Length: ''"

lemma healthz_head:
  "response_head (healthz v) = head_start (loop_running_again v) @ decimal (length (body (healthz v))) @ crlf
     @ ''Connection: close'' @ crlf @ crlf"
proof -
  have "decimal_int 200 = ''200''" "decimal_int 503 = ''503''"
    by (simp_all add: decimal_int_def decimal.simps char_of_def bit_0)
  then show ?thesis
    by (simp add: response_head_def healthz_def head_start_def new_HttpResponse_def reasonPhrase_def)
qed

lemma healthz_length: "length (response_head (healthz v)) + length (body (healthz v)) \<le> 300"
proof -
  define d where "d = decimal (length (body (healthz v)))"
  have b: "length (body (healthz v)) \<le> 9" by (simp add: healthz_def nl_def)
  then have "length d \<le> 1" using decimal_length [of "length (body (healthz v))" 0] by (simp add: d_def)
  with b show ?thesis unfolding healthz_head d_def [symmetric] by (simp add: head_start_def crlf_def)
qed

lemma probe_verdict:
  assumes "13 \<le> k" and "k \<le> 63"
  shows "str_find '' 200 '' (take k (head_start up @ rest)) \<noteq> None \<longleftrightarrow> up"
proof -
  have len: "63 \<le> length (head_start up)" by (simp add: head_start_def crlf_def)
  then have take: "take k (head_start up @ rest) = take k (head_start up)" using assms by simp
  show ?thesis
  proof (cases up)
    case True
    define x where "x = drop 13 (head_start up)"
    have "drop 8 (head_start up) = '' 200 '' @ x" using True by (simp add: x_def head_start_def)
    then have "drop 8 (take k (head_start up)) = take (k - 8) '' 200 '' @ take (k - 13) x"
      by (simp only: drop_take take_append) simp
    moreover have "take (k - 8) '' 200 '' = '' 200 ''" using assms(1) by (intro take_all) simp
    ultimately have "prefix '' 200 '' (drop 8 (take k (head_start up)))" by simp
    then show ?thesis using str_find_there [of 8] assms len True unfolding take by simp
  next
    case False
    then have "str_find '' 200 '' (head_start up) = None" by (simp add: head_start_def crlf_def)
    then show ?thesis unfolding take using False by (simp add: str_find_take)
  qed
qed

section \<open>Reading the safety line\<close>

text \<open>The numbers of a line, as a consumer reads them.\<close>

fun fields_of :: "string \<Rightarrow> string \<Rightarrow> string list" where
  "fields_of cur [] = [cur]"
| "fields_of cur (c # cs) = (if c = CHR '' '' then cur # fields_of [] cs else fields_of (cur @ [c]) cs)"

lemma fields_of_field: "CHR '' '' \<notin> set a \<Longrightarrow> fields_of cur (a @ CHR '' '' # rest) = (cur @ a) # fields_of [] rest"
  by (induction a arbitrary: cur) auto

lemma fields_of_last: "CHR '' '' \<notin> set a \<Longrightarrow> fields_of cur a = [cur @ a]"
  by (induction a arbitrary: cur) auto

lemma decimal_no_space [simp]: "CHR '' '' \<notin> set (decimal n)"
  using decimal_isdigit [of "CHR '' ''" n] by (auto simp: isdigit_def)

lemma decimal_u32_length: "length (decimal (unat w)) \<le> 10" for w :: u32
proof -
  have "unat w < 2 ^ LENGTH(32)" by (rule unsigned_less)
  then show ?thesis using decimal_length [of "unat w" 9] by simp
qed

section \<open>Properties\<close>

text \<open>
  C23. The probe tells the truth through the server: however the network cuts up its
  request and as soon as its one read brings the status line, the probe exits with 0 if
  the control loop was running when the server answered, and with 1 if it was not.
\<close>

theorem healthcheck_end_to_end:
  assumes "routes s = routes daemon_server" and "concat chunks = probe_request" and "[] \<notin> set chunks"
    and "answers env = map Received chunks @ later" and "\<forall>w\<in>set (writes env). 0 < w" and "300 \<le> length (writes env)"
    and "13 \<le> k" and "k \<le> 63" and "0 \<le> fd"
  shows "fst (runHealthcheck \<lparr>probe_socket = fd, probe_connect = 0, probe_write = int (length probe_request),
      probe_read = take k (snd (serveConnection env s))\<rparr>) = (if loop_running_again (world env) then 0 else 1)"
proof -
  let ?h = "healthz (world env)" and ?up = "loop_running_again (world env)"
  have req: "probe_request = ''GET'' @ '' '' @ ''/healthz'' @ '' '' @ (''HTTP/1.1'' @ crlf @ ''Host: localhost'' @ crlf
      @ ''Connection: close'' @ crlf @ crlf)"
    by (simp add: probe_request_def)
  have "respond (routes s) (world env) probe_request = answer_of (routes s) (world env) ''GET'' ''/healthz''"
    unfolding req by (rule respond_answer) simp_all
  also have "\<dots> = ?h" by (simp add: answer_of_def assms(1) daemon_server_def route_def)
  finally have r: "?h = respond (routes s) (world env) (concat chunks)" using assms(2) by simp
  have "complete_request (concat chunks)"
    unfolding assms(2) by (simp add: complete_request_def probe_request_def crlf_def kMaxRequestBytes_def)
  then have sent: "snd (serveConnection env s) = response_head ?h @ body ?h"
    using serveConnection_answers [OF _ assms(3,4,5) r] healthz_length [of "world env"] assms(6) by simp
  obtain rest where rest: "response_head ?h @ body ?h = head_start ?up @ rest"
    by (metis healthz_head append_assoc)
  define got where "got = take k (head_start ?up @ rest)"
  have len: "63 \<le> length (head_start ?up)" by (simp add: head_start_def crlf_def)
  then have got: "got = take k (head_start ?up)" using assms(8) by (simp add: got_def)
  have "CHR 0x00 \<notin> set (head_start ?up)" by (simp add: head_start_def crlf_def)
  then have "CHR 0x00 \<notin> set got" unfolding got by (meson in_set_takeD)
  moreover have "length got \<le> 63" "got \<noteq> []" unfolding got using assms(7,8) len by auto
  ultimately have "c_string (copy_at 0 (take 63 got) (replicate 64 (CHR 0x00))) = got" "got \<noteq> []"
    using probe_buffer by blast+
  moreover have "str_find '' 200 '' got \<noteq> None \<longleftrightarrow> ?up"
    unfolding got_def using assms(7,8) by (rule probe_verdict)
  ultimately show ?thesis
    using assms(9) unfolding sent rest got_def [symmetric] by (simp add: runHealthcheck_def Let_def)
qed

theorem healthcheck_end_to_end_witness:
  "fst (runHealthcheck \<lparr>probe_socket = 3, probe_connect = 0, probe_write = int (length probe_request),
     probe_read = take 63 (snd (serveConnection
       \<lparr>answers = [Received probe_request], writes = replicate 300 1,
        world = \<lparr>loop_running = False, loop_running_again = False, loaded = None\<rparr>\<rparr> daemon_server))\<rparr>) = 1"
proof -
  let ?env = "\<lparr>answers = [Received probe_request], writes = replicate 300 1,
    world = \<lparr>loop_running = False, loop_running_again = False, loaded = None\<rparr>\<rparr>"
  have "probe_request \<noteq> []" by (simp add: probe_request_def)
  then show ?thesis
    using healthcheck_end_to_end [of daemon_server "[probe_request]" ?env "[]" 63 3] by simp
qed

text \<open>
  The safety line is exact: without a snapshot the endpoint answers 503 and not one
  digit; with one its line, never cut, reads back as exactly the sequence number, the
  torque permission and the instant of the transition.
\<close>

theorem safety_line_exact:
  "case loaded v of
     None \<Rightarrow> status (safety_endpoint v) = 503 \<and> list_all (\<lambda>c. \<not> isdigit c) (body (safety_endpoint v))
   | Some s \<Rightarrow> status (safety_endpoint v) = 200 \<and>
       map undecimal (fields_of [] (butlast (body (safety_endpoint v)))) =
         [unat (s_safety_sequence s), unat (s_torque_permitted s), unat (s_safety_transition_monotonic_ns s)]"
proof (cases "loaded v")
  case None
  then show ?thesis by (simp add: safety_endpoint_def isdigit_def nl_def)
next
  case (Some s)
  let ?t = "decimal (unat (s_safety_sequence s)) @ '' '' @ decimal (unat (s_torque_permitted s))
    @ '' '' @ decimal (unat (s_safety_transition_monotonic_ns s))"
  have "length (?t @ nl) < 128"
    using decimal_u64_length [of "s_safety_sequence s"] decimal_u32_length [of "s_torque_permitted s"]
      decimal_u64_length [of "s_safety_transition_monotonic_ns s"] by (simp add: nl_def)
  then have "body (safety_endpoint v) = ?t @ nl"
    using Some snprintf_fits [of "?t @ nl" 128] by (simp add: safety_endpoint_def)
  then have "butlast (body (safety_endpoint v)) = ?t" by (simp add: nl_def butlast_append)
  moreover have "status (safety_endpoint v) = 200" using Some by (simp add: safety_endpoint_def new_HttpResponse_def)
  ultimately show ?thesis using Some by (simp add: fields_of_field fields_of_last)
qed

text \<open>
  Readiness follows the loop: at every frequency from 20 Hz up, after any number of
  cycles, \<open>/readyz\<close> answers 503 exactly while an emergency stop is unacknowledged, and
  200 otherwise.
\<close>

theorem readiness_follows_mode:
  assumes "20 \<le> f" and "f \<le> 100000"
    and "loaded v = read_snapshot (published (control_after granted ws (period (daemon_executor_config f prio)) obs
      (new_control_loop now (initial_slot gaps)) (Suc n)))"
  shows "status (readyz v) = (if mode_after ws (Suc n) = Faulted then 503 else 200)"
  using control_after_shows [OF daemon_period_range [OF assms(1,2), of prio] initial_slot_ok, of n ws granted obs now gaps]
  unfolding assms(3) [symmetric] shows_mode_def readyz_def
  by (auto simp: new_HttpResponse_def split: option.splits if_splits simp del: mode_after.simps)

theorem readiness_follows_mode_witness:
  "status (readyz \<lparr>loop_running = True, loop_running_again = True,
     loaded = read_snapshot (published (control_after True (\<lambda>_. quiet_world\<lparr>estop_seen := True\<rparr>)
       (period (daemon_executor_config 1000 80)) (\<lambda>_. (0, new_ExecutorStats))
       (new_control_loop \<lparr>tv_sec = 0, tv_nsec = 0\<rparr> (initial_slot (0, 0))) (Suc 0)))\<rparr>) = 503"
  by (subst readiness_follows_mode [of 1000 _ True "\<lambda>_. quiet_world\<lparr>estop_seen := True\<rparr>" 80
        "\<lambda>_. (0, new_ExecutorStats)" "\<lparr>tv_sec = 0, tv_nsec = 0\<rparr>" "(0, 0)" 0])
    (simp_all add: mode_step_def del: control_after.simps)


end
