(* ===== verification/Daemon_Process.thy ===== *)
theory Daemon_Process
  imports Safeedged
begin

text \<open>
  The daemon from its start to its exit (\<open>main\<close> of \<open>src/apps/safeedged.cpp\<close>): the main thread,
  which waits for the shutdown flag, joins the control thread, stops the server and
  reports, the control thread with its cycles, the signal handler, and the objects that go
  when \<open>main\<close> returns, as steps that interleave freely.  The theory shows that the process
  ends in order and that no cycle runs on an object that is gone, and what the last log
  line counts.
\<close>

section \<open>Model\<close>

text \<open>The log lines of the start, up to the control thread.\<close>

definition startup_log :: "int \<Rightarrow> settings \<Rightarrow> bool \<Rightarrow> string list" where
  "startup_log now cfg region_valid =
     [logEvent now ''info'' ''starting'' None]
     @ (if snapshot_shm cfg = [] then []
        else if region_valid then [logEvent now ''info'' ''publishing snapshot to shared memory'' (Some (snapshot_shm cfg))]
        else [logEvent now ''warn'' ''could not create snapshot shared memory; HTTP only'' (Some (snapshot_shm cfg))])
     @ [logEvent now ''info'' ''metrics server listening'' None,
        logEvent now ''info'' ''emergency stop file watched'' (Some (estop_path cfg)),
        logEvent now ''info'' ''acknowledge file watched'' (Some (ack_path cfg))]"

definition scheduling_log :: "int \<Rightarrow> ThreadConfigReport \<Rightarrow> string" where
  "scheduling_log now report =
     (if \<not> scheduling_applied report
      then logEvent now ''warn'' ''real-time scheduling not granted; latency metrics are indicative only'' (Some (what report))
      else logEvent now ''info'' ''real-time scheduling granted'' None)"

text \<open>Where the main thread and the control thread are; the objects go in the reverse order of their declaration.\<close>

datatype main_at = Main_Waits | Main_Joins | Main_Stops | Main_Reports | Drops_Acknowledge | Drops_Estop | Drops_Server | Drops_Region | Exited

datatype control_at = Control_Starts | Control_Runs | Control_Ended

record process =
  main_is :: main_at
  control_is :: control_at
  g_shutdown_requested :: bool
  running_now :: bool
  stop_asked :: bool
  loop :: control_loop
  cycles_run :: nat
  p_server :: "daemon_view HttpServer"
  p_estop :: "FileFlagWatcher option"
  p_ack :: "FileFlagWatcher option"
  p_region :: "SharedMemoryRegion option"
  logged :: "string list"

definition process_start :: "daemon \<Rightarrow> timespec \<Rightarrow> int \<Rightarrow> process" where
  "process_start d control_clock now =
     \<lparr>main_is = Main_Waits, control_is = Control_Starts, g_shutdown_requested = False, running_now = False,
      stop_asked = False, loop = new_control_loop control_clock (d_slot d), cycles_run = 0, p_server = d_server d,
      p_estop = Some (d_estop d), p_ack = Some (d_ack d), p_region = Some (d_region d),
      logged = startup_log now (d_settings d) (d_shared d)\<rparr>"

definition onSignal :: "process \<Rightarrow> process" where
  "onSignal p = p\<lparr>g_shutdown_requested := True\<rparr>"

definition says :: "string \<Rightarrow> process \<Rightarrow> process" where
  "says line p = p\<lparr>logged := logged p @ [line]\<rparr>"

inductive process_step :: "ThreadConfigReport \<Rightarrow> process \<Rightarrow> process \<Rightarrow> bool" for report :: ThreadConfigReport where
  signalled: "process_step report p (onSignal p)"
| control_begins: "control_is p = Control_Starts \<Longrightarrow>
    process_step report p (says (scheduling_log now report) (p\<lparr>control_is := Control_Runs, running_now := True\<rparr>))"
| control_cycles: "control_is p = Control_Runs \<Longrightarrow> \<not> stop_asked p \<Longrightarrow> shutdown_seen w = g_shutdown_requested p \<Longrightarrow>
    cycle (scheduling_applied report) (\<lambda>_. w) context stats (loop p) = (c, sizes, stops) \<Longrightarrow>
    process_step report p (p\<lparr>loop := c, cycles_run := Suc (cycles_run p), stop_asked := stops\<rparr>)"
| control_ends: "control_is p = Control_Runs \<Longrightarrow> stop_asked p \<Longrightarrow>
    process_step report p (p\<lparr>control_is := Control_Ended, running_now := False\<rparr>)"
| main_wakes: "main_is p = Main_Waits \<Longrightarrow> g_shutdown_requested p \<Longrightarrow>
    process_step report p (says (logEvent now ''info'' ''shutdown requested'' None) (p\<lparr>main_is := Main_Joins\<rparr>))"
| main_joins: "main_is p = Main_Joins \<Longrightarrow> control_is p = Control_Ended \<Longrightarrow>
    process_step report p (p\<lparr>main_is := Main_Stops\<rparr>)"
| main_stops: "main_is p = Main_Stops \<Longrightarrow>
    process_step report p (p\<lparr>main_is := Main_Reports, p_server := fst (stop (p_server p))\<rparr>)"
| main_reports: "main_is p = Main_Reports \<Longrightarrow>
    process_step report p (says (daemon_finish now (read_snapshot (published (loop p)))) (p\<lparr>main_is := Drops_Acknowledge\<rparr>))"
| drops_acknowledge: "main_is p = Drops_Acknowledge \<Longrightarrow>
    process_step report p (p\<lparr>main_is := Drops_Estop, p_ack := None\<rparr>)"
| drops_estop: "main_is p = Drops_Estop \<Longrightarrow>
    process_step report p (p\<lparr>main_is := Drops_Server, p_estop := None\<rparr>)"
| drops_server: "main_is p = Drops_Server \<Longrightarrow>
    process_step report p (p\<lparr>main_is := Drops_Region, p_server := fst (stop (p_server p))\<rparr>)"
| drops_region: "main_is p = Drops_Region \<Longrightarrow>
    process_step report p (p\<lparr>main_is := Exited, p_region := None\<rparr>)"

inductive_cases process_stepE: "process_step report p p'"

section \<open>The threads\<close>

fun main_rank :: "main_at \<Rightarrow> nat" where
  "main_rank Main_Waits = 8"
| "main_rank Main_Joins = 7"
| "main_rank Main_Stops = 6"
| "main_rank Main_Reports = 5"
| "main_rank Drops_Acknowledge = 4"
| "main_rank Drops_Estop = 3"
| "main_rank Drops_Server = 2"
| "main_rank Drops_Region = 1"
| "main_rank Exited = 0"

definition process_inv :: "process \<Rightarrow> bool" where
  "process_inv p \<longleftrightarrow>
     (running_now p \<longleftrightarrow> control_is p = Control_Runs) \<and>
     (main_rank (main_is p) < 7 \<longrightarrow> control_is p = Control_Ended) \<and>
     (main_rank (main_is p) < 8 \<longrightarrow> g_shutdown_requested p) \<and>
     (stop_asked p \<longrightarrow> g_shutdown_requested p) \<and>
     (control_is p = Control_Ended \<longrightarrow> stop_asked p) \<and> (stop_asked p \<longrightarrow> 0 < cycles_run p) \<and>
     (control_is p = Control_Starts \<longrightarrow> cycles_run p = 0) \<and>
     (p_ack p = None \<longleftrightarrow> main_rank (main_is p) < 4) \<and> (p_estop p = None \<longleftrightarrow> main_rank (main_is p) < 3) \<and>
     (p_region p = None \<longleftrightarrow> main_is p = Exited) \<and>
     (main_rank (main_is p) < 6 \<longrightarrow> \<not> running (p_server p)) \<and> snapshot_slot_ok (published (loop p)) \<and>
     (main_rank (main_is p) < 5 \<longrightarrow>
        (\<exists>now. logged p \<noteq> [] \<and> last (logged p) = daemon_finish now (read_snapshot (published (loop p)))))"

lemma process_inv_start: "snapshot_slot_ok (d_slot d) \<Longrightarrow> process_inv (process_start d clock now)"
  by (simp add: process_inv_def process_start_def new_control_loop_def)

lemma stop_not_running: "\<not> running (fst (stop s))"
  by (simp add: stop_def Let_def)

lemma cycle_stops: "cycle granted ws ctx st c = (c', sizes, stops) \<Longrightarrow> stops = shutdown_seen (ws (turn c))"
  using cycle_stop [of granted ws ctx st c] by simp

lemma cycle_keeps_slot:
  "cycle granted ws ctx st c = (c', sizes, stops) \<Longrightarrow> snapshot_slot_ok (published c) \<Longrightarrow> snapshot_slot_ok (published c')"
  using cycle_slot_ok [of c granted ws ctx st] by simp

lemma process_inv_step: "process_step report p p' \<Longrightarrow> process_inv p \<Longrightarrow> process_inv p'"
  by (elim process_stepE)
    (auto simp: process_inv_def onSignal_def says_def stop_not_running dest: cycle_stops cycle_keeps_slot)

lemma process_reachable:
  assumes "(process_step report)\<^sup>*\<^sup>* (process_start d clock now) p" and "snapshot_slot_ok (d_slot d)"
  shows "process_inv p"
  using assms(1) by induction (auto intro: process_inv_start [OF assms(2)] process_inv_step)

text \<open>What is left to do once the flag is set.\<close>

definition process_left :: "process \<Rightarrow> nat" where
  "process_left p = main_rank (main_is p)
     + (case control_is p of Control_Starts \<Rightarrow> 3 | Control_Runs \<Rightarrow> if stop_asked p then 1 else 2 | Control_Ended \<Rightarrow> 0)"

lemma process_step_left:
  assumes "process_step report p p'" and "g_shutdown_requested p" and "process_inv p"
  shows "p' = p \<or> process_left p' < process_left p"
  using assms by (elim process_stepE) (auto simp: process_inv_def process_left_def onSignal_def says_def dest: cycle_stops)

lemma process_moves:
  assumes "g_shutdown_requested p" and "main_is p \<noteq> Exited" and "process_inv p"
  shows "\<exists>p'. process_step report p p' \<and> process_left p' < process_left p"
proof -
  consider "control_is p = Control_Starts" | "control_is p = Control_Runs" "stop_asked p"
    | "control_is p = Control_Runs" "\<not> stop_asked p" | "control_is p = Control_Ended"
    by (cases "control_is p") auto
  then show ?thesis
  proof cases
    case 1
    then show ?thesis
      using control_begins [of p report 0] by (intro exI conjI) (assumption, simp add: says_def process_left_def)
  next
    case 2
    then show ?thesis using control_ends [of p report] by (intro exI conjI) (assumption, simp add: process_left_def)
  next
    case 3
    define w :: cycle_world where "w = \<lparr>estop_seen = False, ack_taken = False, transition_clock = \<lparr>tv_sec = 0, tv_nsec = 0\<rparr>,
      publish_clock = \<lparr>tv_sec = 0, tv_nsec = 0\<rparr>, estop_seen_later = False, uptime = 0, shutdown_seen = True, padding = (0, 0)\<rparr>"
    obtain c sizes stops where cyc: "cycle (scheduling_applied report) (\<lambda>_. w) undefined undefined (loop p) = (c, sizes, stops)"
      using prod_cases3 by blast
    then have "process_step report p (p\<lparr>loop := c, cycles_run := Suc (cycles_run p), stop_asked := stops\<rparr>)"
      using 3 assms(1) by (intro control_cycles [of p w]) (simp_all add: w_def)
    moreover have "stops" using cycle_stops [OF cyc] by (simp add: w_def)
    ultimately show ?thesis using 3 by (intro exI conjI) (assumption, simp add: process_left_def)
  next
    case 4
    show ?thesis
    proof (cases "main_is p")
      case Main_Waits
      with main_wakes [of p report 0] assms(1) show ?thesis
        by (intro exI conjI) (assumption, simp add: says_def process_left_def)
    next
      case Main_Joins
      with main_joins [of p report] 4 show ?thesis by (intro exI conjI) (assumption, simp add: process_left_def)
    next
      case Main_Stops
      with main_stops [of p report] show ?thesis by (intro exI conjI) (assumption, simp add: process_left_def)
    next
      case Main_Reports
      with main_reports [of p report 0] show ?thesis by (intro exI conjI) (assumption, simp add: says_def process_left_def)
    next
      case Drops_Acknowledge
      with drops_acknowledge [of p report] show ?thesis by (intro exI conjI) (assumption, simp add: process_left_def)
    next
      case Drops_Estop
      with drops_estop [of p report] show ?thesis by (intro exI conjI) (assumption, simp add: process_left_def)
    next
      case Drops_Server
      with drops_server [of p report] show ?thesis by (intro exI conjI) (assumption, simp add: process_left_def)
    next
      case Drops_Region
      with drops_region [of p report] show ?thesis by (intro exI conjI) (assumption, simp add: process_left_def)
    qed (use assms(2) in simp)
  qed
qed

section \<open>What the last line counts\<close>

text \<open>A cycle sees, and publishes, the statistics from before it is counted.\<close>

lemma run_cycle_published:
  assumes "run_cycle (cycle granted ws) env s = Some s'" and "0 < period (exec_config (executor s))"
    and "snapshot_slot_ok (published (user s))"
  shows "\<exists>sn. read_snapshot (published (user s')) = Some sn \<and>
    s_cycles_executed sn = cycles_executed (exec_stats (executor s)) \<and>
    s_overruns sn = overruns (exec_stats (executor s)) \<and>
    cycles_executed (exec_stats (executor s')) = cycles_executed (exec_stats (executor s)) + 1"
proof -
  obtain s2 where s2: "invoke_callback (cycle granted ws) (guard_allocations (exec_config (executor s))) (cycle_context env s)
      (record_wakeup (toNanos (woke_at env) - deadline_ns s) s) = Some s2"
    and fin: "account_overrun (period (exec_config (executor s))) (toNanos (finished_at env))
      (record_finish (toNanos (woke_at env)) (toNanos (finished_at env)) s2) = Some s'"
    using assms(1) by (rule run_cycle_some)
  let ?st = "exec_stats (executor (record_wakeup (toNanos (woke_at env) - deadline_ns s) s))"
  have st: "cycles_executed ?st = cycles_executed (exec_stats (executor s))" "overruns ?st = overruns (exec_stats (executor s))"
    by (simp_all add: record_wakeup_def on_stats_def)
  have u: "user s2 = fst (cycle granted ws (cycle_context env s) ?st (user s))"
    using s2 by (auto simp: invoke_callback_def Let_def record_wakeup_def on_stats_def split: prod.splits if_splits)
  have "user s' = user s2"
    using fin by (auto simp: account_overrun_def record_finish_def on_stats_def Let_def split: if_splits)
  moreover have "\<exists>sn. read_snapshot (published (fst (cycle granted ws (cycle_context env s) ?st (user s)))) = Some sn \<and>
      s_cycles_executed sn = cycles_executed ?st \<and> s_overruns sn = overruns ?st"
    using assms(3)
    by (auto simp: cycle_eq Let_def read_publish_words cycle_snapshot_def words_snapshot_def snapshot_words_def split: prod.splits)
  ultimately show ?thesis
    using run_cycle_result [OF assms(1,2)] u st by (auto simp: Let_def cycle_stats_def)
qed

lemma final_report_one_short:
  assumes "run (cycle granted ws) 0 started envs (new_CyclicExecutor cfg, new_control_loop clock (initial_slot gaps), g) = Some (e, c, g')"
    and "0 < period cfg"
  shows "\<exists>n. cycles_executed (exec_stats e) = of_nat n \<and>
    (0 < n \<longrightarrow> (\<exists>sn. read_snapshot (published c) = Some sn \<and> s_cycles_executed sn = of_nat (n - 1)))"
proof -
  let ?e = "new_CyclicExecutor cfg" and ?c = "new_control_loop clock (initial_slot gaps)"
  have p: "0 < period (exec_config ?e)" using assms(2) by (simp add: new_CyclicExecutor_def)
  obtain s where s: "run_loop (cycle granted ws) 0 envs 0 (start_state started ?e ?c g) = Some s"
    and e: "e = (executor s)\<lparr>exec_stats := (exec_stats (executor s))\<lparr>allocation_violations := g_violations (guard s) - g_violations g\<rparr>\<rparr>"
      "c = user s"
    using assms(1) p by (rule run_some)
  let ?I = "\<lambda>k t. exec_config (executor t) = cfg \<and> snapshot_slot_ok (published (user t)) \<and>
    cycles_executed (exec_stats (executor t)) = of_nat k \<and>
    (0 < k \<longrightarrow> (\<exists>sn. read_snapshot (published (user t)) = Some sn \<and> s_cycles_executed sn = of_nat (k - 1)))"
  have "\<exists>n t. ?I n t \<and> (s = t \<and> (0 :: u64) \<noteq> 0 \<and> 0 \<le> loop_index t \<or> s = observe_stop (envs n) t \<and> stopRequested (executor s))"
  proof (rule run_loop_rule [OF s, where I = ?I])
    show "?I 0 (start_state started ?e ?c g)"
      by (simp add: start_state_def new_CyclicExecutor_def new_ExecutorStats_def new_control_loop_def initial_slot_ok)
  next
    fix k t t'
    assume I: "?I k t" and cyc: "run_cycle (cycle granted ws) (envs k) (observe_stop (envs k) t) = Some t'"
    have q: "0 < period (exec_config (executor (observe_stop (envs k) t)))" using I assms(2) by simp
    have ok: "snapshot_slot_ok (published (user (observe_stop (envs k) t)))" using I by simp
    have "snapshot_slot_ok (published (user t'))"
      using run_cycle_callback [OF cyc q] ok cycle_slot_ok by auto
    then show "?I (Suc k) (t'\<lparr>loop_index := loop_index t' + 1\<rparr>)"
      using run_cycle_published [OF cyc q ok] run_cycle_result [OF cyc q] I by (auto simp: Let_def)
  qed
  then obtain n t where I: "?I n t" and t: "s = observe_stop (envs n) t" by blast
  show ?thesis
    by (rule exI [of _ n]) (use I in \<open>simp add: e t\<close>)
qed

section \<open>Properties\<close>

lemma daemon_start_slot: "daemon_start sys getenv argv = Inr d \<Longrightarrow> snapshot_slot_ok (d_slot d)"
  by (auto simp: daemon_start_def Let_def initial_slot_ok split: if_splits prod.splits)

lemma process_can_exit:
  assumes "process_inv p" and "g_shutdown_requested p"
  shows "\<exists>p'. (process_step report)\<^sup>*\<^sup>* p p' \<and> main_is p' = Exited"
  using assms
proof (induction "process_left p" arbitrary: p rule: less_induct)
  case less
  show ?case
  proof (cases "main_is p = Exited")
    case False
    then obtain q where q: "process_step report p q" "process_left q < process_left p"
      using process_moves [OF less.prems(2) _ less.prems(1)] by blast
    have "g_shutdown_requested q"
      using q(1) less.prems(2) by (elim process_stepE) (simp_all add: onSignal_def says_def)
    then show ?thesis
      using less.hyps [OF q(2) process_inv_step [OF q(1) less.prems(1)]] q(1) by (meson converse_rtranclp_into_rtranclp)
  qed blast
qed

text \<open>
  The daemon ends in order: in every interleaving of its threads and of signals, the loop is
  announced as running exactly while it runs, no cycle runs once a watcher or the
  mapping is gone, and the last line of these two threads is the report on what the last cycle published.  Once a
  signal has arrived, every step but a repeated signal leaves less to do, and
  the process can always still exit.
\<close>

theorem daemon_ends_in_order:
  assumes "daemon_start sys getenv argv = Inr d"
    and "(process_step report)\<^sup>*\<^sup>* (process_start d clock now) p"
  shows "(running_now p \<longleftrightarrow> control_is p = Control_Runs) \<and>
    (control_is p \<noteq> Control_Ended \<longrightarrow> p_estop p \<noteq> None \<and> p_ack p \<noteq> None \<and> p_region p \<noteq> None) \<and>
    (main_is p = Exited \<longrightarrow> \<not> running (p_server p) \<and> control_is p = Control_Ended \<and> 0 < cycles_run p \<and>
       (\<exists>now. last (logged p) = daemon_finish now (read_snapshot (published (loop p))))) \<and>
    (g_shutdown_requested p \<longrightarrow>
       (\<forall>p'. process_step report p p' \<longrightarrow> p' = p \<or> process_left p' < process_left p) \<and>
       (\<exists>p'. (process_step report)\<^sup>*\<^sup>* p p' \<and> main_is p' = Exited))"
proof -
  note inv = process_reachable [OF assms(2) daemon_start_slot [OF assms(1)]]
  have "p_estop p \<noteq> None \<and> p_ack p \<noteq> None \<and> p_region p \<noteq> None" if "control_is p \<noteq> Control_Ended"
    using inv that by (cases "main_is p") (simp_all add: process_inv_def)
  moreover have "running_now p \<longleftrightarrow> control_is p = Control_Runs"
    "main_is p = Exited \<longrightarrow> \<not> running (p_server p) \<and> control_is p = Control_Ended \<and> 0 < cycles_run p \<and>
       (\<exists>now. last (logged p) = daemon_finish now (read_snapshot (published (loop p))))"
    using inv by (auto simp: process_inv_def)
  ultimately show ?thesis
    using process_step_left [OF _ _ inv] process_can_exit [OF inv] by blast
qed

text \<open>A system on which the daemon starts with its default settings.\<close>

definition willing_system :: daemon_answers where
  "willing_system =
     \<lparr>signal_failed = False,
      shm_sys = \<lparr>ans_shm_open = Inl 13, ans_ftruncate = None, ans_fstat = Inl 0, ans_mmap = Inl 12\<rparr>,
      server_sys = \<lparr>socket_fd = 5, bind_rc = 0, listen_rc = 0, sockname = None, errno = 0, message = \<lambda>_. []\<rparr>,
      slot_padding = (0, 0), probe_sys = \<lparr>probe_socket = -1, probe_connect = -1, probe_write = -1, probe_read = []\<rparr>\<rparr>"

lemma willing_starts: "\<exists>d. daemon_start willing_system (\<lambda>_. None) [''safeedged''] = Inr d"
  by (simp add: daemon_start_def willing_system_def read_settings_def environmentLong_def environmentString_def start_def
      daemon_server_def route_def new_HttpServer_def Let_def)

theorem daemon_ends_in_order_witness:
  "\<exists>d p. daemon_start willing_system (\<lambda>_. None) [''safeedged''] = Inr d \<and>
    (process_step new_ThreadConfigReport)\<^sup>*\<^sup>* (process_start d \<lparr>tv_sec = 0, tv_nsec = 0\<rparr> 0) p \<and> main_is p = Exited"
proof -
  obtain d where d: "daemon_start willing_system (\<lambda>_. None) [''safeedged''] = Inr d" using willing_starts by blast
  let ?p = "process_start d \<lparr>tv_sec = 0, tv_nsec = 0\<rparr> 0"
  have sig: "(process_step new_ThreadConfigReport)\<^sup>*\<^sup>* ?p (onSignal ?p)" by (intro r_into_rtranclp signalled)
  moreover have "g_shutdown_requested (onSignal ?p)" by (simp add: onSignal_def)
  ultimately obtain p where "(process_step new_ThreadConfigReport)\<^sup>*\<^sup>* (onSignal ?p) p" "main_is p = Exited"
    using daemon_ends_in_order [OF d sig] by blast
  then show ?thesis using d sig by (meson rtranclp_trans)
qed

end
