(* ===== verification/Daemon_Threads.thy ===== *)
theory Daemon_Threads
  imports Daemon_Process
begin

text \<open>
  All threads of the daemon at once (\<open>src/apps/safeedged.cpp\<close>): the process of
  \<open>Daemon_Process\<close> with its two file watchers running, the people who create and remove
  the two files, and the cycle of the control loop taken apart at the points where it
  touches what the watchers write.  The theory shows that the threads together are a
  process of \<open>Daemon_Process\<close>, that the destructors wait for the watchers, and the chain
  from a file to the torque and back, in stages of completed steps.
\<close>

section \<open>Model\<close>

text \<open>
  Where the cycle is: the emergency stop is loaded for the inputs, the acknowledgement is
  taken, and the emergency stop is loaded again for the snapshot.
\<close>

datatype cycle_at = Cycle_Idle | Loaded_Estop bool | Took_Ack bool bool | Loaded_Again bool bool bool

text \<open>The lines on standard output, of the main and the control thread and of the watchers.\<close>

datatype log_line = Own string | Watcher string

text \<open>What a watcher logs in its next step, in which it also stores the flag.\<close>

definition watcher_says :: "int \<Rightarrow> string \<Rightarrow> string \<Rightarrow> string \<Rightarrow> FileFlagWatcher \<Rightarrow> log_line list" where
  "watcher_says now path asserted_message cleared_message w =
     (case pc w of
        Unlinked \<Rightarrow> [Watcher (logEvent now ''info'' asserted_message (Some path))]
      | Checked seen \<Rightarrow>
          if mode w \<noteq> kLatchOnce \<and> seen \<noteq> asserted_flag w
          then [Watcher (logEvent now ''warn'' (if seen then asserted_message else cleared_message) (Some path))] else []
      | _ \<Rightarrow> [])"

text \<open>
  \<open>proc\<close> says which objects exist; what the two watchers hold is beside it, since their
  threads change it, with the presence of their files.
\<close>

record daemon_threads =
  proc :: process
  cycle_is :: cycle_at
  estop_watcher :: FileFlagWatcher
  ack_watcher :: FileFlagWatcher
  estop_file :: bool
  ack_file :: bool
  estop_name :: string
  ack_name :: string
  stdout :: "log_line list"

definition threads_start :: "daemon \<Rightarrow> timespec \<Rightarrow> int \<Rightarrow> bool \<Rightarrow> bool \<Rightarrow> daemon_threads" where
  "threads_start d clock now estop_there ack_there =
     \<lparr>proc = process_start d clock now, cycle_is = Cycle_Idle, estop_watcher = d_estop d, ack_watcher = d_ack d,
      estop_file = estop_there, ack_file = ack_there, estop_name = estop_path (d_settings d), ack_name = ack_path (d_settings d),
      stdout = map Own (logged (process_start d clock now))\<rparr>"

text \<open>A step of the process, with what it logs.\<close>

definition proceeds :: "process \<Rightarrow> daemon_threads \<Rightarrow> daemon_threads" where
  "proceeds p t = t\<lparr>proc := p, stdout := stdout t @ map Own (drop (length (logged (proc t))) (logged p))\<rparr>"

datatype thread_event = Estop_Thread | Ack_Thread bool
  | Creates_Estop | Removes_Estop | Creates_Ack | Removes_Ack | Signals
  | Loads_Estop | Takes_Ack bool | Loads_Again | Publishes RuntimeSnapshot | Control_Moves
  | Main_Moves | Destroys_Ack | Joins_Ack | Destroys_Estop | Joins_Estop

text \<open>
  One step.  The telegrams, the evaluation and the publication touch nothing that the
  watchers write, so that the rest of the cycle is one step, which sees the shutdown flag
  at its end.  A destructor tells its thread to end and joins it.  The other steps of the main
  thread and the start and end of the control thread are those of the process.
\<close>

inductive threads_step :: "ThreadConfigReport \<Rightarrow> int \<Rightarrow> daemon_threads \<Rightarrow> thread_event \<Rightarrow> daemon_threads \<Rightarrow> bool"
  for report :: ThreadConfigReport and per :: int where
  estop_thread: "watcher_step True (estop_watcher t, estop_file t) = (w, f) \<Longrightarrow>
    threads_step report per t Estop_Thread
      (t\<lparr>estop_watcher := w, estop_file := f, stdout := stdout t
        @ watcher_says now (estop_name t) ''emergency stop asserted'' ''emergency stop cleared'' (estop_watcher t)\<rparr>)"
| ack_thread: "watcher_step removed (ack_watcher t, ack_file t) = (w, f) \<Longrightarrow>
    threads_step report per t (Ack_Thread removed)
      (t\<lparr>ack_watcher := w, ack_file := f, stdout := stdout t
        @ watcher_says now (ack_name t) ''fault acknowledgement received'' [] (ack_watcher t)\<rparr>)"
| creates_estop: "\<not> estop_file t \<Longrightarrow> threads_step report per t Creates_Estop (t\<lparr>estop_file := True\<rparr>)"
| removes_estop: "estop_file t \<Longrightarrow> threads_step report per t Removes_Estop (t\<lparr>estop_file := False\<rparr>)"
| creates_ack: "\<not> ack_file t \<Longrightarrow> threads_step report per t Creates_Ack (t\<lparr>ack_file := True\<rparr>)"
| removes_ack: "ack_file t \<Longrightarrow> threads_step report per t Removes_Ack (t\<lparr>ack_file := False\<rparr>)"
| signals: "threads_step report per t Signals (t\<lparr>proc := onSignal (proc t)\<rparr>)"
| loads_estop: "control_is (proc t) = Control_Runs \<Longrightarrow> \<not> stop_asked (proc t) \<Longrightarrow> cycle_is t = Cycle_Idle \<Longrightarrow>
    threads_step report per t Loads_Estop (t\<lparr>cycle_is := Loaded_Estop (asserted (estop_watcher t))\<rparr>)"
| takes_ack: "cycle_is t = Loaded_Estop e \<Longrightarrow> takeOnce (ack_watcher t) = (a, w) \<Longrightarrow>
    threads_step report per t (Takes_Ack a) (t\<lparr>cycle_is := Took_Ack e a, ack_watcher := w\<rparr>)"
| loads_again: "cycle_is t = Took_Ack e a \<Longrightarrow>
    threads_step report per t Loads_Again (t\<lparr>cycle_is := Loaded_Again e a (asserted (estop_watcher t))\<rparr>)"
| publishes: "cycle_is t = Loaded_Again e a l \<Longrightarrow>
    estop_seen w = e \<Longrightarrow> ack_taken w = a \<Longrightarrow> estop_seen_later w = l \<Longrightarrow> shutdown_seen w = g_shutdown_requested (proc t) \<Longrightarrow>
    cycle (scheduling_applied report) (\<lambda>_. w)
      \<lparr>ctx_index = of_nat (cycles_run (proc t)), ctx_wakeup_jitter_ns = jitter, ctx_period_ns = per\<rparr> stats (loop (proc t))
      = (c, sizes, stops) \<Longrightarrow>
    read_snapshot (published c) = Some s \<Longrightarrow>
    threads_step report per t (Publishes s)
      (t\<lparr>cycle_is := Cycle_Idle,
         proc := (proc t)\<lparr>loop := c, cycles_run := Suc (cycles_run (proc t)), stop_asked := stops\<rparr>\<rparr>)"
| control_moves: "process_step report (proc t) p \<Longrightarrow> control_is p \<noteq> control_is (proc t) \<Longrightarrow>
    threads_step report per t Control_Moves (proceeds p t)"
| main_moves: "process_step report (proc t) p \<Longrightarrow> main_is p \<noteq> main_is (proc t) \<Longrightarrow>
    main_is (proc t) \<noteq> Drops_Acknowledge \<Longrightarrow> main_is (proc t) \<noteq> Drops_Estop \<Longrightarrow>
    threads_step report per t Main_Moves (proceeds p t)"
| destroys_ack: "main_is (proc t) = Drops_Acknowledge \<Longrightarrow>
    threads_step report per t Destroys_Ack (t\<lparr>ack_watcher := destroy (ack_watcher t)\<rparr>)"
| joins_ack: "main_is (proc t) = Drops_Acknowledge \<Longrightarrow> \<not> running_flag (ack_watcher t) \<Longrightarrow> pc (ack_watcher t) = Ended \<Longrightarrow>
    threads_step report per t Joins_Ack (t\<lparr>proc := (proc t)\<lparr>main_is := Drops_Estop, p_ack := None\<rparr>\<rparr>)"
| destroys_estop: "main_is (proc t) = Drops_Estop \<Longrightarrow>
    threads_step report per t Destroys_Estop (t\<lparr>estop_watcher := destroy (estop_watcher t)\<rparr>)"
| joins_estop: "main_is (proc t) = Drops_Estop \<Longrightarrow> \<not> running_flag (estop_watcher t) \<Longrightarrow> pc (estop_watcher t) = Ended \<Longrightarrow>
    threads_step report per t Joins_Estop (t\<lparr>proc := (proc t)\<lparr>main_is := Drops_Server, p_estop := None\<rparr>\<rparr>)"

inductive_cases threads_stepE: "threads_step report per t e t'"

inductive threads_run :: "ThreadConfigReport \<Rightarrow> int \<Rightarrow> daemon_threads \<Rightarrow> thread_event list \<Rightarrow> daemon_threads \<Rightarrow> bool"
  for report :: ThreadConfigReport and per :: int and t0 :: daemon_threads where
  run_start: "threads_run report per t0 [] t0"
| run_step: "threads_run report per t0 es t \<Longrightarrow> threads_step report per t e t' \<Longrightarrow> threads_run report per t0 (es @ [e]) t'"

lemma proceeds_frame [simp]:
  "proc (proceeds p t) = p" "cycle_is (proceeds p t) = cycle_is t" "estop_watcher (proceeds p t) = estop_watcher t"
  "ack_watcher (proceeds p t) = ack_watcher t" "estop_file (proceeds p t) = estop_file t" "ack_file (proceeds p t) = ack_file t"
  by (simp_all add: proceeds_def)

text \<open>What the handlers of the server see.\<close>

definition handlers_see :: "daemon_threads \<Rightarrow> daemon_view" where
  "handlers_see t = \<lparr>loop_running = running_now (proc t), loop_running_again = running_now (proc t),
     loaded = read_snapshot (published (loop (proc t)))\<rparr>"

section \<open>The threads are a process\<close>

lemma threads_step_process: "threads_step report per t e t' \<Longrightarrow> control_is (proc t) = Control_Runs \<or> cycle_is t = Cycle_Idle \<Longrightarrow>
    cycle_is t = Cycle_Idle \<or> \<not> stop_asked (proc t) \<Longrightarrow> (process_step report)\<^sup>*\<^sup>* (proc t) (proc t')"
  by (elim threads_stepE)
    (auto intro: r_into_rtranclp signalled control_cycles drops_acknowledge drops_estop)

text \<open>What the main thread has done to the watchers, and that a cycle is under way only while the loop runs.\<close>

definition watchers_inv :: "daemon_threads \<Rightarrow> bool" where
  "watchers_inv t \<longleftrightarrow>
     (cycle_is t \<noteq> Cycle_Idle \<longrightarrow> control_is (proc t) = Control_Runs \<and> \<not> stop_asked (proc t)) \<and>
     mode (estop_watcher t) = kLevel \<and> mode (ack_watcher t) = kLatchOnce \<and>
     (pc (estop_watcher t) = Ended \<longrightarrow> \<not> running_flag (estop_watcher t)) \<and>
     (pc (ack_watcher t) = Ended \<longrightarrow> \<not> running_flag (ack_watcher t)) \<and>
     (3 < main_rank (main_is (proc t)) \<longrightarrow> running_flag (estop_watcher t)) \<and>
     (4 < main_rank (main_is (proc t)) \<longrightarrow> running_flag (ack_watcher t)) \<and>
     (p_estop (proc t) = None \<longrightarrow> pc (estop_watcher t) = Ended) \<and> (p_ack (proc t) = None \<longrightarrow> pc (ack_watcher t) = Ended)"

definition threads_inv :: "daemon_threads \<Rightarrow> bool" where
  "threads_inv t \<longleftrightarrow> process_inv (proc t) \<and> watchers_inv t"

lemma watcher_step_running [simp]: "running_flag (fst (watcher_step r (w, f))) = running_flag w"
  by (auto simp: watcher_step_def split: watch_pc.splits)

lemma watcher_step_ended: "pc (fst (watcher_step r (w, f))) = Ended \<longleftrightarrow> pc w = Ended \<or> pc w = Top \<and> \<not> running_flag w"
  by (auto simp: watcher_step_def split: watch_pc.splits)

lemma takeOnce_frame:
  "takeOnce w = (a, w') \<Longrightarrow> mode w' = mode w \<and> pc w' = pc w \<and> running_flag w' = running_flag w \<and> a = asserted_flag w \<and> \<not> asserted_flag w'"
  by (auto simp: takeOnce_def)

lemma destroy_frame [simp]:
  "mode (destroy w) = mode w" "pc (destroy w) = pc w" "\<not> running_flag (destroy w)" "asserted_flag (destroy w) = asserted_flag w"
  by (simp_all add: destroy_def)

text \<open>The steps of the process that the main thread or the control thread takes.\<close>

lemma main_moved:
  assumes "process_step report p p'" and "main_is p' \<noteq> main_is p"
  shows "main_rank (main_is p') < main_rank (main_is p) \<and> control_is p' = control_is p \<and> stop_asked p' = stop_asked p \<and>
    loop p' = loop p \<and> cycles_run p' = cycles_run p \<and> g_shutdown_requested p' = g_shutdown_requested p"
  using assms by (elim process_stepE) (auto simp: onSignal_def says_def)

lemma main_moved_objects:
  assumes "process_step report p p'" and "main_is p' \<noteq> main_is p"
    and "main_is p \<noteq> Drops_Acknowledge" and "main_is p \<noteq> Drops_Estop"
  shows "p_estop p' = p_estop p \<and> p_ack p' = p_ack p"
  using assms by (elim process_stepE) (auto simp: onSignal_def says_def)

lemma control_moved:
  assumes "process_step report p p'" and "control_is p' \<noteq> control_is p"
  shows "main_is p' = main_is p \<and> stop_asked p' = stop_asked p \<and> loop p' = loop p \<and> cycles_run p' = cycles_run p \<and>
    p_estop p' = p_estop p \<and> p_ack p' = p_ack p \<and> g_shutdown_requested p' = g_shutdown_requested p \<and>
    (control_is p = Control_Runs \<longrightarrow> stop_asked p)"
  using assms by (elim process_stepE) (auto simp: onSignal_def says_def)

lemma watchers_inv_step:
  assumes "threads_step report per t e t'" and "watchers_inv t"
  shows "watchers_inv t'"
  using assms(1)
proof (cases rule: threads_step.cases)
  case (estop_thread w f)
  then have w: "w = fst (watcher_step True (estop_watcher t, estop_file t))" by simp
  show ?thesis
    using assms(2) unfolding estop_thread(2) w
    by (auto simp: watchers_inv_def watcher_step_ended)
next
  case (ack_thread removed w f)
  then have w: "w = fst (watcher_step removed (ack_watcher t, ack_file t))" by simp
  show ?thesis
    using assms(2) unfolding ack_thread(2) w
    by (auto simp: watchers_inv_def watcher_step_ended)
next
  case (main_moves p)
  show ?thesis
    using assms(2) main_moved [OF main_moves(3,4)] main_moved_objects [OF main_moves(3-6)]
    unfolding main_moves(2) by (auto simp: watchers_inv_def)
next
  case (control_moves p)
  show ?thesis
    using assms(2) control_moved [OF control_moves(3,4)] unfolding control_moves(2)
    by (cases "control_is (proc t)") (auto simp: watchers_inv_def)
qed (use assms(2) in \<open>auto simp: watchers_inv_def onSignal_def dest!: takeOnce_frame\<close>)

lemma threads_inv_start: "snapshot_slot_ok (d_slot d) \<Longrightarrow> d_estop d = new_FileFlagWatcher kLevel \<Longrightarrow>
    d_ack d = new_FileFlagWatcher kLatchOnce \<Longrightarrow> threads_inv (threads_start d clock now ef af)"
  using process_inv_start [of d clock now]
  by (simp add: threads_inv_def watchers_inv_def threads_start_def new_FileFlagWatcher_def process_start_def)

lemma threads_inv_process:
  "threads_step report per t e t' \<Longrightarrow> threads_inv t \<Longrightarrow> (process_step report)\<^sup>*\<^sup>* (proc t) (proc t')"
  by (rule threads_step_process) (auto simp: threads_inv_def watchers_inv_def)

lemma process_inv_steps: "(process_step report)\<^sup>*\<^sup>* p p' \<Longrightarrow> process_inv p \<Longrightarrow> process_inv p'"
  by (induction rule: rtranclp_induct) (auto intro: process_inv_step)

lemma threads_inv_step: "threads_step report per t e t' \<Longrightarrow> threads_inv t \<Longrightarrow> threads_inv t'"
  using threads_inv_process [of report per t e t'] process_inv_steps [of report "proc t" "proc t'"] watchers_inv_step
  unfolding threads_inv_def by blast

lemma threads_inv_run: "threads_run report per t es t' \<Longrightarrow> threads_inv t \<Longrightarrow> threads_inv t'"
  by (induction rule: threads_run.induct) (auto intro: threads_inv_step)

lemma threads_run_process:
  "threads_run report per t es t' \<Longrightarrow> threads_inv t \<Longrightarrow> (process_step report)\<^sup>*\<^sup>* (proc t) (proc t')"
  by (induction rule: threads_run.induct) (auto intro: rtranclp_trans threads_inv_process threads_inv_run)

lemma threads_run_append:
  "threads_run report per t' es' t'' \<Longrightarrow> threads_run report per t es t' \<Longrightarrow> threads_run report per t (es @ es') t''"
  by (induction rule: threads_run.induct) (auto simp flip: append_assoc intro: run_step)

lemma threads_run_split:
  "threads_run report per t (es @ es') t'' \<Longrightarrow> \<exists>t'. threads_run report per t es t' \<and> threads_run report per t' es' t''"
proof (induction es' arbitrary: t'' rule: rev_induct)
  case (snoc e es')
  then obtain u where u: "threads_run report per t (es @ es') u" "threads_step report per u e t''"
    by (auto simp flip: append_assoc elim: threads_run.cases)
  then show ?case using snoc.IH by (blast intro: run_step)
qed (auto intro: run_start)

lemma daemon_start_watchers:
  "daemon_start sys getenv argv = Inr d \<Longrightarrow> d_estop d = new_FileFlagWatcher kLevel \<and> d_ack d = new_FileFlagWatcher kLatchOnce \<and>
     1 \<le> frequency_hz (d_settings d) \<and> frequency_hz (d_settings d) \<le> 100000"
  by (auto simp: daemon_start_def Let_def split: if_splits prod.splits)

lemma threads_start_inv:
  "daemon_start sys getenv argv = Inr d \<Longrightarrow> threads_inv (threads_start d clock now ef af)"
  using daemon_start_watchers daemon_start_slot threads_inv_start by blast

section \<open>The mode of the loop\<close>

definition mode_of :: "control_loop \<Rightarrow> mode" where
  "mode_of c =
     (let ch = channel_a (supervisor c)
      in if state ch = SelfTest then Starting else if state ch = LimitedSpeed then Moving
         else if fault ch = FR_EmergencyStop then Faulted else Idle)"

abbreviation loop_mode :: "daemon_threads \<Rightarrow> mode" where
  "loop_mode t \<equiv> mode_of (loop (proc t))"

lemma in_mode_mode_of: "in_mode per n m c \<Longrightarrow> mode_of c = m"
  by (cases m) (auto simp: in_mode_def paired_def mode_of_def Let_def)

definition loop_inv :: "int \<Rightarrow> daemon_threads \<Rightarrow> bool" where
  "loop_inv per t \<longleftrightarrow> threads_inv t \<and> 0 < per \<and> per \<le> 50000000 \<and>
     in_mode per (cycles_run (proc t)) (loop_mode t) (loop (proc t)) \<and>
     (0 < cycles_run (proc t) \<longrightarrow> shows_mode (cycles_run (proc t)) (loop_mode t) (published (loop (proc t))))"

lemma loop_inv_threads: "loop_inv per t \<Longrightarrow> threads_inv t"
  by (simp add: loop_inv_def)

text \<open>What a snapshot says of a mode.\<close>

definition snapshot_mode :: "mode \<Rightarrow> RuntimeSnapshot \<Rightarrow> bool" where
  "snapshot_mode m s \<longleftrightarrow> s_torque_permitted s = (if m = Moving then 1 else 0) \<and>
     s_fault_latched s = (if m = Faulted then 1 else 0) \<and> s_fault_reason s = of_nat (fault_value (mode_fault m)) \<and>
     s_safety_state s = of_nat (state_value (mode_state m))"

lemma loop_inv_cycle:
  assumes "loop_inv per t"
    and cyc: "cycle granted (\<lambda>_. w) \<lparr>ctx_index = of_nat (cycles_run (proc t)), ctx_wakeup_jitter_ns = jitter, ctx_period_ns = per\<rparr>
      stats (loop (proc t)) = (c, sizes, stops)"
  shows "mode_of c = mode_step (estop_seen w) (ack_taken w) (loop_mode t)"
    and "in_mode per (Suc (cycles_run (proc t))) (mode_of c) c"
    and "shows_mode (Suc (cycles_run (proc t))) (mode_of c) (published c)"
    and "stops = shutdown_seen w"
proof -
  let ?m = "mode_step (estop_seen w) (ack_taken w) (loop_mode t)"
  have "in_mode per (Suc (cycles_run (proc t))) ?m c \<and> shows_mode (Suc (cycles_run (proc t))) ?m (published c)"
    using in_mode_cycle [of per "cycles_run (proc t)" "loop_mode t" "loop (proc t)"
        "\<lparr>ctx_index = of_nat (cycles_run (proc t)), ctx_wakeup_jitter_ns = jitter, ctx_period_ns = per\<rparr>" ?m "\<lambda>_. w" granted stats]
      assms(1) unfolding cyc by (simp add: loop_inv_def)
  then show "mode_of c = ?m" "in_mode per (Suc (cycles_run (proc t))) (mode_of c) c"
    "shows_mode (Suc (cycles_run (proc t))) (mode_of c) (published c)"
    using in_mode_mode_of by metis+
  show "stops = shutdown_seen w" using cycle_stops [OF cyc] by simp
qed

lemma shows_snapshot_mode: "shows_mode n m q \<Longrightarrow> read_snapshot q = Some s \<Longrightarrow> snapshot_mode m s"
  by (simp add: shows_mode_def snapshot_mode_def)

lemma threads_step_loop:
  "threads_step report per t e t' \<Longrightarrow> (\<And>s. e \<noteq> Publishes s) \<Longrightarrow>
     loop (proc t') = loop (proc t) \<and> cycles_run (proc t') = cycles_run (proc t)"
  by (elim threads_stepE) (auto simp: onSignal_def dest: main_moved control_moved)

lemma loop_inv_step:
  assumes "threads_step report per t e t'" and "loop_inv per t"
  shows "loop_inv per t'"
proof (cases "\<exists>s. e = Publishes s")
  case True
  then obtain s where e: "e = Publishes s" by blast
  show ?thesis
    using assms(1) unfolding e
  proof (cases rule: threads_step.cases)
    case (publishes ee a l w jitter stats c sizes stops)
    then show ?thesis
      using loop_inv_cycle [OF assms(2) publishes(7)] assms(2) threads_inv_step [OF assms(1)]
      by (simp add: loop_inv_def)
  qed
next
  case False
  then show ?thesis
    using threads_step_loop [OF assms(1)] threads_inv_step [OF assms(1)] assms(2) by (auto simp: loop_inv_def)
qed

lemma loop_inv_run: "threads_run report per t es t' \<Longrightarrow> loop_inv per t \<Longrightarrow> loop_inv per t'"
  by (induction rule: threads_run.induct) (auto intro: loop_inv_step)

text \<open>The publication, as the stages below use it.\<close>

lemma publishes_mode:
  assumes "threads_step report per t (Publishes s) t'" and "loop_inv per t"
  obtains e a l where "cycle_is t = Loaded_Again e a l" "cycle_is t' = Cycle_Idle"
    "loop_mode t' = mode_step e a (loop_mode t)" "snapshot_mode (loop_mode t') s"
    "estop_watcher t' = estop_watcher t" "ack_watcher t' = ack_watcher t" "estop_file t' = estop_file t" "ack_file t' = ack_file t"
    "read_snapshot (published (loop (proc t'))) = Some s" "control_is (proc t') = control_is (proc t)"
    "main_is (proc t') = main_is (proc t)"
  using assms(1)
proof (cases rule: threads_step.cases)
  case (publishes ee a l w jitter stats c sizes stops)
  then show ?thesis
    using that loop_inv_cycle [OF assms(2) publishes(7)] shows_snapshot_mode by simp
qed

lemma loop_inv_start:
  assumes "daemon_start sys getenv argv = Inr d" and "20 \<le> frequency_hz (d_settings d)"
    and "per = period (daemon_executor_config (frequency_hz (d_settings d)) prio)"
  shows "loop_inv per (threads_start d clock now ef af)"
proof -
  have per: "0 < per" "per \<le> 50000000"
    using daemon_period_range [OF assms(2)] daemon_start_watchers [OF assms(1)] assms(3) by simp_all
  have m: "in_mode per 0 Starting (new_control_loop clock (d_slot d))"
    by (rule in_mode_new [OF daemon_start_slot [OF assms(1)]])
  then show ?thesis
    using threads_start_inv [OF assms(1)] per in_mode_mode_of [OF m]
    by (simp add: loop_inv_def) (simp add: threads_start_def process_start_def)
qed

section \<open>Stages\<close>

text \<open>
  A chain of stages: steps of the allowed kinds keep a stage, and the steps that count
  lead to the next.
\<close>

lemma threads_stages:
  assumes "threads_run report per t es t'" and "loop_inv per t" and "P 0 t" and "\<And>e. e \<in> set es \<Longrightarrow> allowed e"
    and "\<And>i s e s'. loop_inv per s \<Longrightarrow> P i s \<Longrightarrow> threads_step report per s e s' \<Longrightarrow> allowed e \<Longrightarrow>
      P (if counts e then Suc i else i) s'"
  shows "P (length (filter counts es)) t'"
  using assms(1,4)
proof (induction rule: threads_run.induct)
  case (run_step es s e s')
  then have "P (if counts e then Suc (length (filter counts es)) else length (filter counts es)) s'"
    using assms(5) [of s _ e s'] loop_inv_run [OF run_step.hyps(1) assms(2)] by simp
  then show ?case by (simp split: if_splits)
qed (simp add: assms(3))

definition is_publication :: "thread_event \<Rightarrow> bool" where
  "is_publication e \<longleftrightarrow> (case e of Publishes s \<Rightarrow> True | _ \<Rightarrow> False)"

text \<open>Until the control thread has ended, the main thread has not come to the watchers.\<close>

abbreviation alive :: "daemon_threads \<Rightarrow> bool" where
  "alive t \<equiv> control_is (proc t) \<noteq> Control_Ended"

lemma alive_main: "threads_inv t \<Longrightarrow> alive t \<Longrightarrow> 7 \<le> main_rank (main_is (proc t))"
  by (auto simp: threads_inv_def process_inv_def not_less [symmetric])

lemma alive_watchers:
  assumes "threads_inv t" and "alive t"
  shows "running_flag (estop_watcher t)" "pc (estop_watcher t) \<noteq> Ended" "mode (estop_watcher t) = kLevel"
    "running_flag (ack_watcher t)" "pc (ack_watcher t) \<noteq> Ended" "mode (ack_watcher t) = kLatchOnce"
  using alive_main [OF assms] assms(1) by (auto simp: threads_inv_def watchers_inv_def)

lemma cycling_alive: "threads_inv t \<Longrightarrow> cycle_is t \<noteq> Cycle_Idle \<Longrightarrow> alive t"
  by (auto simp: threads_inv_def watchers_inv_def)

lemma process_step_ended: "process_step report p p' \<Longrightarrow> control_is p = Control_Ended \<Longrightarrow> control_is p' = Control_Ended"
  by (elim process_stepE) (auto simp: onSignal_def says_def)

lemma threads_step_alive: "threads_step report per t e t' \<Longrightarrow> alive t' \<Longrightarrow> alive t"
  by (elim threads_stepE) (auto simp: onSignal_def dest: process_step_ended)

lemma threads_step_estop:
  "threads_step report per t e t' \<Longrightarrow> e \<notin> {Estop_Thread, Creates_Estop, Removes_Estop, Destroys_Estop} \<Longrightarrow>
     estop_watcher t' = estop_watcher t \<and> estop_file t' = estop_file t"
  by (elim threads_stepE) auto

lemma no_destruction: "threads_step report per t e t' \<Longrightarrow> threads_inv t \<Longrightarrow> alive t \<Longrightarrow> e \<noteq> Destroys_Estop \<and> e \<noteq> Destroys_Ack"
  using alive_main [of t] by (elim threads_stepE) auto

subsection \<open>The emergency stop file and its flag\<close>

text \<open>The steps of the thread until the flag agrees with a file that does not change.\<close>

fun level_left :: "bool \<Rightarrow> watch_pc \<Rightarrow> bool \<Rightarrow> nat" where
  "level_left present Top set_now = (if set_now = present then 0 else 2)"
| "level_left present (Checked seen) set_now = (if seen \<noteq> present then 3 else if set_now = present then 0 else 1)"
| "level_left present Unlinked set_now = 3"
| "level_left present Ended set_now = 3"

lemma level_left_step:
  assumes "watcher_step r (w, present) = (w', f)" and "mode w = kLevel" and "running_flag w" and "pc w \<noteq> Ended"
  shows "f = present \<and> level_left present (pc w') (asserted_flag w') \<le> level_left present (pc w) (asserted_flag w) - 1"
  using assms by (cases "pc w") (auto simp: watcher_step_def split: if_splits)

definition estop_stage :: "bool \<Rightarrow> nat \<Rightarrow> daemon_threads \<Rightarrow> bool" where
  "estop_stage there i t \<longleftrightarrow>
     (alive t \<longrightarrow> estop_file t = there \<and> level_left there (pc (estop_watcher t)) (asserted_flag (estop_watcher t)) \<le> 3 - i)"

lemma level_left_le: "level_left there x y \<le> 3"
  by (cases x) auto

lemma estop_stage_0: "estop_file t = there \<Longrightarrow> estop_stage there 0 t"
  by (simp add: estop_stage_def level_left_le)

lemma estop_stage_step:
  assumes "threads_inv t" and "estop_stage there i t" and step: "threads_step report per t e t'"
    and "e \<noteq> (if there then Removes_Estop else Creates_Estop)"
  shows "estop_stage there (if e = Estop_Thread then Suc i else i) t'"
proof (cases "alive t'")
  case True
  then have t: "alive t" using threads_step_alive [OF step] by blast
  note w = alive_watchers [OF assms(1) t]
  show ?thesis
  proof (cases "e = Estop_Thread")
    case True
    then obtain w' f where "watcher_step True (estop_watcher t, estop_file t) = (w', f)"
      "estop_watcher t' = w'" "estop_file t' = f"
      using step by (auto elim: threads_stepE)
    then show ?thesis
      using level_left_step [of True "estop_watcher t" "estop_file t" w' f] w assms(2) t True by (auto simp: estop_stage_def)
  next
    case False
    have "e \<noteq> Creates_Estop \<and> e \<noteq> Removes_Estop"
      using step assms(2,4) t by (elim threads_stepE) (auto simp: estop_stage_def split: if_splits)
    then show ?thesis
      using False threads_step_estop [OF step] no_destruction [OF step assms(1) t] assms(2) t
      by (simp add: estop_stage_def)
  qed
qed (simp add: estop_stage_def)

lemma estop_stage_flag: "estop_stage there i t \<Longrightarrow> 3 \<le> i \<Longrightarrow> alive t \<Longrightarrow> asserted (estop_watcher t) = there"
  by (cases "pc (estop_watcher t)") (auto simp: estop_stage_def asserted_def split: if_splits)

lemma estop_stage_run:
  assumes "threads_run report per t es t'" and "loop_inv per t" and "estop_file t = there"
    and "(if there then Removes_Estop else Creates_Estop) \<notin> set es"
  shows "estop_stage there (count_list es Estop_Thread) t'"
proof -
  have "estop_stage there (length (filter ((=) Estop_Thread) es)) t'"
  proof (rule threads_stages [where P = "estop_stage there" and allowed = "\<lambda>e. e \<noteq> (if there then Removes_Estop else Creates_Estop)",
        OF assms(1,2) estop_stage_0 [OF assms(3)]])
    show "e \<noteq> (if there then Removes_Estop else Creates_Estop)" if "e \<in> set es" for e using assms(4) that by metis
  qed (use estop_stage_step [OF loop_inv_threads] in \<open>simp only: eq_commute [of Estop_Thread]\<close>)
  then show ?thesis by (simp add: count_list_eq_length_filter)
qed

subsection \<open>From the flag to the torque\<close>

fun carried_estop :: "cycle_at \<Rightarrow> bool option" where
  "carried_estop Cycle_Idle = None"
| "carried_estop (Loaded_Estop e) = Some e"
| "carried_estop (Took_Ack e a) = Some e"
| "carried_estop (Loaded_Again e a l) = Some e"

fun carried_ack :: "cycle_at \<Rightarrow> bool" where
  "carried_ack (Took_Ack e a) = a"
| "carried_ack (Loaded_Again e a l) = a"
| "carried_ack _ = False"

lemma threads_step_cycle:
  "threads_step report per t e t' \<Longrightarrow> e \<noteq> Loads_Estop \<Longrightarrow> \<not> is_publication e \<Longrightarrow> carried_estop (cycle_is t') = carried_estop (cycle_is t)"
  by (elim threads_stepE) (auto simp: is_publication_def)

text \<open>
  With the flag standing, the cycle under way ends, and every later one has read the flag.
\<close>

definition cycle_reads :: "bool \<Rightarrow> nat \<Rightarrow> daemon_threads \<Rightarrow> bool" where
  "cycle_reads there i t \<longleftrightarrow> estop_stage there 3 t \<and> (1 \<le> i \<longrightarrow> carried_estop (cycle_is t) \<noteq> Some (\<not> there))"

lemma cycle_reads_step:
  assumes "threads_inv t" and "cycle_reads there i t" and step: "threads_step report per t e t'"
    and "e \<noteq> (if there then Removes_Estop else Creates_Estop)"
  shows "cycle_reads there (if is_publication e then Suc i else i) t'"
proof -
  have stage: "estop_stage there 3 t'"
  proof -
    have "estop_stage there (if e = Estop_Thread then Suc 3 else 3) t'"
      using estop_stage_step [OF assms(1) _ step assms(4)] assms(2) unfolding cycle_reads_def by blast
    then show ?thesis by (auto simp: estop_stage_def split: if_splits)
  qed
  show ?thesis
  proof (cases "is_publication e \<or> e = Loads_Estop")
    case True
    then have "carried_estop (cycle_is t') \<noteq> Some (\<not> there)"
    proof
      assume "e = Loads_Estop"
      then show ?thesis
        using step assms(2) estop_stage_flag [of there 3 t]
        by (elim threads_stepE) (auto simp: cycle_reads_def)
    next
      assume "is_publication e"
      then show ?thesis using step by (elim threads_stepE) (auto simp: is_publication_def)
    qed
    then show ?thesis using stage by (simp add: cycle_reads_def)
  next
    case False
    then show ?thesis using threads_step_cycle [OF step] stage assms(2) by (simp add: cycle_reads_def)
  qed
qed

lemma cycle_reads_run:
  assumes "threads_run report per t es t'" and "loop_inv per t" and "cycle_reads there 0 t"
    and "(if there then Removes_Estop else Creates_Estop) \<notin> set es"
  shows "cycle_reads there (length (filter is_publication es)) t'"
proof (rule threads_stages [where P = "cycle_reads there" and allowed = "\<lambda>e. e \<noteq> (if there then Removes_Estop else Creates_Estop)",
      OF assms(1-3)])
qed (use assms(4) in metis, rule cycle_reads_step [OF loop_inv_threads])

lemma publication_counts:
  "threads_run report per t es t' \<Longrightarrow> cycles_run (proc t') = cycles_run (proc t) + length (filter is_publication es)"
proof (induction rule: threads_run.induct)
  case (run_step es s e s')
  have "cycles_run (proc s') = cycles_run (proc s) + (if is_publication e then 1 else 0)"
    using run_step.hyps(2) threads_step_loop [OF run_step.hyps(2)]
    by (cases "is_publication e") (auto simp: is_publication_def elim: threads_stepE split: thread_event.splits)
  then show ?case using run_step.IH by simp
qed simp

lemma threads_step_quiet:
  "threads_step report per t e t' \<Longrightarrow> \<not> is_publication e \<Longrightarrow> loop_mode t' = loop_mode t"
  using threads_step_loop [of report per t e t'] by (cases e) (auto simp: is_publication_def)

definition stop_stage :: "nat \<Rightarrow> daemon_threads \<Rightarrow> bool" where
  "stop_stage i t \<longleftrightarrow> cycle_reads True i t \<and> (2 \<le> i \<longrightarrow> loop_mode t = Faulted)"

lemma stop_stage_step:
  assumes "loop_inv per t" and "stop_stage i t" and step: "threads_step report per t e t'" and "e \<noteq> Removes_Estop"
  shows "stop_stage (if is_publication e then Suc i else i) t'"
proof -
  have reads: "cycle_reads True (if is_publication e then Suc i else i) t'"
    using cycle_reads_step [OF loop_inv_threads [OF assms(1)] _ step, of True i] assms(2,4) by (simp add: stop_stage_def)
  show ?thesis
  proof (cases "is_publication e")
    case True
    then obtain s where e: "e = Publishes s" by (auto simp: is_publication_def split: thread_event.splits)
    obtain x a l where "cycle_is t = Loaded_Again x a l" "loop_mode t' = mode_step x a (loop_mode t)"
      using publishes_mode [OF step [unfolded e] assms(1)] by metis
    then show ?thesis
      using reads True assms(2) by (auto simp: stop_stage_def cycle_reads_def mode_step_def)
  next
    case False
    then show ?thesis using reads threads_step_quiet [OF step] assms(2) by (simp add: stop_stage_def)
  qed
qed

lemma stop_stage_run:
  assumes "threads_run report per t es t'" and "loop_inv per t" and "stop_stage 0 t" and "Removes_Estop \<notin> set es"
  shows "stop_stage (length (filter is_publication es)) t'"
proof (rule threads_stages [where P = stop_stage and allowed = "\<lambda>e. e \<noteq> Removes_Estop", OF assms(1-3)])
qed (use assms(4) in metis, rule stop_stage_step)

lemma stop_chain:
  assumes "threads_run report per t (es @ fs) t'" and "loop_inv per t" and "estop_file t"
    and "Removes_Estop \<notin> set (es @ fs)" and "3 \<le> count_list es Estop_Thread" and "2 \<le> length (filter is_publication fs)"
  shows "loop_mode t' = Faulted"
proof -
  obtain u where u: "threads_run report per t es u" "threads_run report per u fs t'"
    using threads_run_split [OF assms(1)] by blast
  have "estop_stage True 3 u"
    using estop_stage_run [OF u(1) assms(2), of True] assms(3-5) by (auto simp: estop_stage_def)
  then have "stop_stage 0 u" by (simp add: stop_stage_def cycle_reads_def)
  then have "stop_stage (length (filter is_publication fs)) t'"
    using assms(4) loop_inv_run [OF u(1) assms(2)] by (intro stop_stage_run [OF u(2)]) simp_all
  then show ?thesis using assms(6) by (simp add: stop_stage_def)
qed

text \<open>What the slot holds then.\<close>

lemma shown_mode:
  assumes "loop_inv per t" and "0 < cycles_run (proc t)"
  obtains s where "read_snapshot (published (loop (proc t))) = Some s" "snapshot_mode (loop_mode t) s"
  using assms shows_snapshot_mode by (force simp: loop_inv_def shows_mode_def split: option.splits)

lemma stopped_snapshot:
  assumes "loop_inv per t" and "estop_file t" and "threads_run report per t (es @ fs) t'" and "Removes_Estop \<notin> set (es @ fs)"
    and "3 \<le> count_list es Estop_Thread" and "2 \<le> length (filter is_publication fs)"
  shows "\<exists>s. read_snapshot (published (loop (proc t'))) = Some s \<and> snapshot_mode Faulted s"
proof -
  have "loop_mode t' = Faulted" by (rule stop_chain [OF assms(3,1,2,4-6)])
  moreover have "0 < cycles_run (proc t')" using publication_counts [OF assms(3)] assms(6) by auto
  ultimately show ?thesis using shown_mode [OF loop_inv_run [OF assms(3,1)]] by metis
qed

subsection \<open>The way back\<close>

text \<open>The steps of the thread until it has set the acknowledgement for a file that is there.\<close>

definition ack_within :: "nat \<Rightarrow> daemon_threads \<Rightarrow> bool" where
  "ack_within k t \<longleftrightarrow>
     (case pc (ack_watcher t) of
        Top \<Rightarrow> ack_file t \<and> 3 \<le> k
      | Checked seen \<Rightarrow> if seen then 2 \<le> k else ack_file t \<and> 4 \<le> k
      | Unlinked \<Rightarrow> 1 \<le> k
      | Ended \<Rightarrow> False)"

definition is_ack_step :: "thread_event \<Rightarrow> bool" where
  "is_ack_step e \<longleftrightarrow> (case e of Ack_Thread r \<Rightarrow> True | _ \<Rightarrow> False)"

definition acknowledging :: "daemon_threads \<Rightarrow> bool" where
  "acknowledging t \<longleftrightarrow> loop_mode t \<noteq> Faulted \<or> carried_ack (cycle_is t) \<or> asserted_flag (ack_watcher t)"

definition ack_stage :: "nat \<Rightarrow> daemon_threads \<Rightarrow> bool" where
  "ack_stage i t \<longleftrightarrow> cycle_reads False 1 t \<and> (alive t \<longrightarrow> acknowledging t \<or> ack_within (4 - i) t)"

lemma ack_thread_stage:
  assumes "watcher_step r (ack_watcher t, ack_file t) = (w, f)" and "mode (ack_watcher t) = kLatchOnce" and "running_flag (ack_watcher t)"
    and "ack_within k t"
    and "ack_watcher t' = w" and "ack_file t' = f"
  shows "asserted_flag w \<or> ack_within (k - 1) t'"
  unfolding ack_within_def assms(5,6) using assms(1-4) by (cases "pc (ack_watcher t)") (auto simp: watcher_step_def ack_within_def split: if_splits)

lemma ack_thread_keeps:
  "watcher_step r (w, f) = (w', f') \<Longrightarrow> mode w = kLatchOnce \<Longrightarrow> asserted_flag w \<Longrightarrow> asserted_flag w'"
  by (cases "pc w") (auto simp: watcher_step_def split: if_splits)

lemma acknowledging_step:
  assumes "loop_inv per t" and "cycle_reads False 1 t" and step: "threads_step report per t e t'" and "acknowledging t"
  shows "acknowledging t'"
proof (cases "is_publication e")
  case True
  then obtain s where e: "e = Publishes s" by (auto simp: is_publication_def split: thread_event.splits)
  obtain x a l where p: "cycle_is t = Loaded_Again x a l" "loop_mode t' = mode_step x a (loop_mode t)" "ack_watcher t' = ack_watcher t"
    using publishes_mode [OF step [unfolded e] assms(1)] by metis
  then have "\<not> x" using assms(2) by (auto simp: cycle_reads_def)
  then show ?thesis
    using p assms(4) by (cases "loop_mode t") (auto simp: acknowledging_def mode_step_def)
next
  case False
  have "mode (ack_watcher t) = kLatchOnce"
    using loop_inv_threads [OF assms(1)] by (simp add: threads_inv_def watchers_inv_def)
  then show ?thesis
    using step threads_step_quiet [OF step False] assms(4) False
    by (elim threads_stepE)
      (auto simp: acknowledging_def is_publication_def dest: takeOnce_frame ack_thread_keeps)
qed

lemma ack_within_other:
  assumes "threads_step report per t e t'" and "\<not> is_ack_step e" and "e \<noteq> Removes_Ack"
  shows "ack_within k t \<Longrightarrow> ack_within k t'"
  using assms by (elim threads_stepE) (auto simp: ack_within_def is_ack_step_def takeOnce_def split: watch_pc.splits)

lemma ack_stage_step:
  assumes "loop_inv per t" and "ack_stage i t" and step: "threads_step report per t e t'"
    and "e \<noteq> Creates_Estop" and "e \<noteq> Removes_Ack"
  shows "ack_stage (if is_ack_step e then Suc i else i) t'"
proof -
  note inv = loop_inv_threads [OF assms(1)]
  have reads: "cycle_reads False 1 t'"
    using cycle_reads_step [OF inv _ step, of False 1] assms(2,4) by (auto simp: ack_stage_def cycle_reads_def split: if_splits)
  have "acknowledging t' \<or> ack_within (4 - (if is_ack_step e then Suc i else i)) t'" if alive: "alive t'"
  proof (cases "acknowledging t")
    case True
    then show ?thesis using acknowledging_step [OF assms(1) _ step] assms(2) by (simp add: ack_stage_def)
  next
    case False
    have t: "alive t" using threads_step_alive [OF step alive] .
    then have within: "ack_within (4 - i) t" using assms(2) False by (simp add: ack_stage_def)
    show ?thesis
    proof (cases "is_ack_step e")
      case True
      then obtain r w f where w: "watcher_step r (ack_watcher t, ack_file t) = (w, f)" "ack_watcher t' = w" "ack_file t' = f"
        using step by (auto simp: is_ack_step_def elim: threads_stepE split: thread_event.splits)
      then show ?thesis
        using ack_thread_stage [OF w(1) alive_watchers(6,4) [OF inv t] within w(2,3)] True by (auto simp: acknowledging_def)
    qed (use within ack_within_other [OF step] assms(5) in simp)
  qed
  then show ?thesis using reads by (simp add: ack_stage_def)
qed

lemma ack_stage_run:
  assumes "threads_run report per t es t'" and "loop_inv per t" and "ack_stage 0 t"
    and "Creates_Estop \<notin> set es" and "Removes_Ack \<notin> set es"
  shows "ack_stage (length (filter is_ack_step es)) t'"
proof (rule threads_stages [where P = ack_stage and allowed = "\<lambda>e. e \<noteq> Creates_Estop \<and> e \<noteq> Removes_Ack", OF assms(1-3)])
qed (use assms(4,5) in metis, blast intro: ack_stage_step)

fun before_taking :: "cycle_at \<Rightarrow> bool" where
  "before_taking Cycle_Idle = True"
| "before_taking (Loaded_Estop e) = True"
| "before_taking _ = False"

text \<open>
  An acknowledgement that is set is taken by the next cycle at the latest, which is idle
  with it, and the one after it moves.
\<close>

definition restart_stage :: "nat \<Rightarrow> daemon_threads \<Rightarrow> bool" where
  "restart_stage i t \<longleftrightarrow> cycle_reads False 1 t \<and>
     (alive t \<longrightarrow> acknowledging t \<and>
       (1 \<le> i \<longrightarrow> loop_mode t \<noteq> Faulted \<or> carried_ack (cycle_is t) \<or> before_taking (cycle_is t))) \<and>
     (2 \<le> i \<longrightarrow> loop_mode t \<in> {Idle, Moving}) \<and> (3 \<le> i \<longrightarrow> loop_mode t = Moving)"

lemma restart_stage_step:
  assumes "loop_inv per t" and "restart_stage i t" and step: "threads_step report per t e t'" and "e \<noteq> Creates_Estop"
  shows "restart_stage (if is_publication e then Suc i else i) t'"
proof -
  note inv = loop_inv_threads [OF assms(1)]
  have reads: "cycle_reads False 1 t'"
    using cycle_reads_step [OF inv _ step, of False 1] assms(2,4) by (auto simp: restart_stage_def cycle_reads_def split: if_splits)
  have ack: "acknowledging t'" if "alive t'"
    using acknowledging_step [OF assms(1) _ step] threads_step_alive [OF step that] assms(2) by (simp add: restart_stage_def)
  show ?thesis
  proof (cases "is_publication e")
    case True
    then obtain s where e: "e = Publishes s" by (auto simp: is_publication_def split: thread_event.splits)
    obtain x a l where p: "cycle_is t = Loaded_Again x a l" "loop_mode t' = mode_step x a (loop_mode t)"
      "cycle_is t' = Cycle_Idle" "ack_watcher t' = ack_watcher t"
      using publishes_mode [OF step [unfolded e] assms(1)] by metis
    have "\<not> x" using assms(2) p(1) by (auto simp: restart_stage_def cycle_reads_def)
    moreover have "alive t" using cycling_alive [OF inv] p(1) by simp
    ultimately show ?thesis
      using reads ack True assms(2) p
      by (cases "loop_mode t") (auto simp: restart_stage_def mode_step_def)
  next
    case False
    have "loop_mode t' = loop_mode t" by (rule threads_step_quiet [OF step False])
    moreover have "loop_mode t \<noteq> Faulted \<or> carried_ack (cycle_is t') \<or> before_taking (cycle_is t')" if "alive t'" "1 \<le> i"
      using step threads_step_alive [OF step that(1)] assms(2) that(2) False
      by (elim threads_stepE) (auto simp: restart_stage_def acknowledging_def is_publication_def dest: takeOnce_frame)
    ultimately show ?thesis using reads ack False assms(2) by (simp add: restart_stage_def)
  qed
qed

lemma restart_stage_run:
  assumes "threads_run report per t es t'" and "loop_inv per t" and "restart_stage 0 t" and "Creates_Estop \<notin> set es"
  shows "restart_stage (length (filter is_publication es)) t'"
proof (rule threads_stages [where P = restart_stage and allowed = "\<lambda>e. e \<noteq> Creates_Estop", OF assms(1-3)])
qed (use assms(4) in metis, rule restart_stage_step)

lemma restart_chain:
  assumes "loop_inv per t" and "\<not> estop_file t"
    and "Creates_Estop \<notin> set (es @ fs @ gs @ hs)" and "3 \<le> count_list es Estop_Thread" and "1 \<le> length (filter is_publication fs)"
    and "threads_run report per t (es @ fs) u" and "threads_run report per u (gs @ hs) t'" and "ack_file u"
    and "Removes_Ack \<notin> set gs" and "4 \<le> length (filter is_ack_step gs)" and "3 \<le> length (filter is_publication hs)"
  shows "loop_mode t' = Moving"
proof -
  obtain t1 where t1: "threads_run report per t es t1" "threads_run report per t1 fs u"
    using threads_run_split [OF assms(6)] by blast
  obtain t3 where t3: "threads_run report per u gs t3" "threads_run report per t3 hs t'"
    using threads_run_split [OF assms(7)] by blast
  note inv1 = loop_inv_run [OF t1(1) assms(1)]
  note inv2 = loop_inv_run [OF t1(2) inv1]
  note inv3 = loop_inv_run [OF t3(1) inv2]
  have "estop_stage False 3 t1"
    using estop_stage_run [OF t1(1) assms(1), of False] assms(2-4) by (auto simp: estop_stage_def)
  then have "cycle_reads False 0 t1" by (simp add: cycle_reads_def)
  then have "cycle_reads False (length (filter is_publication fs)) u"
    using assms(3) by (intro cycle_reads_run [OF t1(2) inv1]) simp_all
  then have "cycle_reads False 1 u" using assms(5) by (simp add: cycle_reads_def)
  moreover have "ack_within 4 u" if "alive u"
    using alive_watchers(5) [OF loop_inv_threads [OF inv2] that] assms(8) by (simp add: ack_within_def split: watch_pc.splits)
  ultimately have "ack_stage 0 u" by (simp add: ack_stage_def)
  then have "ack_stage (length (filter is_ack_step gs)) t3"
    using assms(3,9) by (intro ack_stage_run [OF t3(1) inv2]) simp_all
  moreover have "\<not> ack_within 0 t3" by (simp add: ack_within_def split: watch_pc.splits)
  ultimately have "restart_stage 0 t3" using assms(10) by (simp add: ack_stage_def restart_stage_def)
  then have "restart_stage (length (filter is_publication hs)) t'"
    using assms(3) by (intro restart_stage_run [OF t3(2) inv3]) simp_all
  then show ?thesis using assms(11) by (simp add: restart_stage_def)
qed

section \<open>Torque and acknowledgements\<close>

definition snapshots :: "thread_event list \<Rightarrow> RuntimeSnapshot list" where
  "snapshots es = concat (map (\<lambda>e. case e of Publishes s \<Rightarrow> [s] | _ \<Rightarrow> []) es)"

text \<open>How often a sequence changes to true.\<close>

fun rises :: "bool \<Rightarrow> bool list \<Rightarrow> nat" where
  "rises before [] = 0"
| "rises before (b # bs) = (if b \<and> \<not> before then 1 else 0) + rises b bs"

lemma rises_snoc: "rises before (bs @ [b]) = rises before bs + (if b \<and> \<not> last (before # bs) then 1 else 0)"
  by (induction bs arbitrary: before) auto

definition torques :: "thread_event list \<Rightarrow> bool list" where
  "torques es = map (\<lambda>s. s_torque_permitted s \<noteq> 0) (snapshots es)"

definition torque_starts :: "thread_event list \<Rightarrow> nat" where
  "torque_starts es = rises False (torques es)"

lemma torques_snoc:
  "torques (es @ [e]) = torques es @ (case e of Publishes s \<Rightarrow> [s_torque_permitted s \<noteq> 0] | _ \<Rightarrow> [])"
  by (simp add: torques_def snapshots_def split: thread_event.splits)

text \<open>
  What may still become a start: the first one, and an acknowledgement on its way from its
  file through the thread, the flag and the cycle.
\<close>

definition starts_left :: "daemon_threads \<Rightarrow> nat" where
  "starts_left t = (if loop_mode t \<in> {Starting, Idle} then 1 else 0) + on_the_way (ack_watcher t, ack_file t)
     + (if carried_ack (cycle_is t) then 1 else 0)"

lemma starts_left_publishes:
  assumes "threads_step report per t (Publishes s) t'" and "loop_inv per t"
  shows "starts_left t' + (if s_torque_permitted s \<noteq> 0 \<and> loop_mode t \<noteq> Moving then 1 else 0) \<le> starts_left t"
    and "s_torque_permitted s \<noteq> 0 \<longleftrightarrow> loop_mode t' = Moving"
proof -
  obtain e a l where p: "cycle_is t = Loaded_Again e a l" "cycle_is t' = Cycle_Idle"
    "loop_mode t' = mode_step e a (loop_mode t)" "snapshot_mode (loop_mode t') s"
    "ack_watcher t' = ack_watcher t" "ack_file t' = ack_file t"
    using publishes_mode [OF assms] by metis
  then show torque: "s_torque_permitted s \<noteq> 0 \<longleftrightarrow> loop_mode t' = Moving" by (simp add: snapshot_mode_def)
  show "starts_left t' + (if s_torque_permitted s \<noteq> 0 \<and> loop_mode t \<noteq> Moving then 1 else 0) \<le> starts_left t"
    unfolding torque using p by (cases "loop_mode t") (simp_all add: starts_left_def mode_step_def)
qed

lemma starts_left_other:
  assumes step: "threads_step report per t e t'" and "threads_inv t" and "\<not> is_publication e" and "e \<noteq> Ack_Thread False"
  shows "starts_left t' \<le> starts_left t + (if e = Creates_Ack then 1 else 0)"
proof -
  have m: "loop_mode t' = loop_mode t" by (rule threads_step_quiet [OF step assms(3)])
  have latch: "mode (ack_watcher t) = kLatchOnce" using assms(2) by (simp add: threads_inv_def watchers_inv_def)
  show ?thesis
  proof (cases "e = Ack_Thread True")
    case True
    then have "(ack_watcher t', ack_file t') = watcher_step True (ack_watcher t, ack_file t)" "cycle_is t' = cycle_is t"
      using step by (auto elim: threads_stepE)
    then show ?thesis using m watcher_step_on_the_way [OF latch, of "ack_file t"] by (simp add: starts_left_def)
  next
    case False
    then show ?thesis
      using step m assms(3,4)
      by (elim threads_stepE) (auto simp: starts_left_def on_the_way_def is_publication_def dest!: takeOnce_frame)
  qed
qed

lemma starts_accounted:
  assumes "threads_run report per t0 es t" and "loop_inv per t0" and "loop_mode t0 = Starting" and "Ack_Thread False \<notin> set es"
  shows "torque_starts es + starts_left t \<le> starts_left t0 + count_list es Creates_Ack \<and>
    last (False # torques es) = (loop_mode t = Moving)"
  using assms(1,4)
proof (induction rule: threads_run.induct)
  case run_start
  then show ?case using assms(3) by (simp add: torque_starts_def torques_def snapshots_def)
next
  case (run_step es s e s')
  note inv = loop_inv_run [OF run_step.hyps(1) assms(2)]
  have IH: "torque_starts es + starts_left s \<le> starts_left t0 + count_list es Creates_Ack"
    "last (False # torques es) = (loop_mode s = Moving)" using run_step by simp_all
  show ?case
  proof (cases "is_publication e")
    case True
    then obtain x where e: "e = Publishes x" by (auto simp: is_publication_def split: thread_event.splits)
    show ?thesis
      using starts_left_publishes [OF run_step.hyps(2) [unfolded e] inv] IH
      by (simp add: e torque_starts_def torques_snoc rises_snoc)
  next
    case False
    have "torques (es @ [e]) = torques es" using False by (simp add: torques_snoc is_publication_def split: thread_event.splits)
    then show ?thesis
      using starts_left_other [OF run_step.hyps(2) loop_inv_threads [OF inv] False] run_step.prems IH
        threads_step_quiet [OF run_step.hyps(2) False]
      by (simp add: torque_starts_def split: if_splits)
  qed
qed

lemma starts_left_start:
  assumes "daemon_start sys getenv argv = Inr d"
  shows "loop_mode (threads_start d clock now ef af) = Starting \<and>
    starts_left (threads_start d clock now ef af) = 1 + (if af then 1 else 0)"
proof -
  have "mode_of (new_control_loop clock (d_slot d)) = Starting"
    using in_mode_mode_of [OF in_mode_new [OF daemon_start_slot [OF assms]]] by simp
  then show ?thesis
    using daemon_start_watchers [OF assms]
    by (simp add: starts_left_def threads_start_def process_start_def on_the_way_def new_FileFlagWatcher_def)
qed

section \<open>The end\<close>

fun cycle_left :: "cycle_at \<Rightarrow> nat" where
  "cycle_left Cycle_Idle = 4"
| "cycle_left (Loaded_Estop e) = 3"
| "cycle_left (Took_Ack e a) = 2"
| "cycle_left (Loaded_Again e a l) = 1"

fun watch_left :: "watch_pc \<Rightarrow> nat" where
  "watch_left (Checked seen) = 3"
| "watch_left Unlinked = 2"
| "watch_left Top = 1"
| "watch_left Ended = 0"

definition watcher_left :: "FileFlagWatcher \<Rightarrow> nat" where
  "watcher_left w = (if running_flag w then 1 else 0) + watch_left (pc w)"

definition threads_left :: "daemon_threads \<Rightarrow> nat" where
  "threads_left t = 5 * process_left (proc t) + cycle_left (cycle_is t) + watcher_left (estop_watcher t) + watcher_left (ack_watcher t)"

lemma watcher_step_left:
  "watcher_step r (w, f) = (w', f') \<Longrightarrow> \<not> running_flag w \<Longrightarrow> pc w \<noteq> Ended \<Longrightarrow> watcher_left w' < watcher_left w"
  by (cases "pc w") (auto simp: watcher_step_def watcher_left_def split: if_splits)

lemma process_progress:
  assumes "process_step report p p'" and "process_left p' < process_left p" and "control_is p \<noteq> Control_Runs \<or> stop_asked p"
  shows "control_is p' \<noteq> control_is p \<or> main_is p' \<noteq> main_is p"
  using assms by (elim process_stepE) (auto simp: onSignal_def says_def process_left_def split: control_at.splits)

lemma threads_drop:
  assumes "main_is (proc t) = Drops_Acknowledge \<or> main_is (proc t) = Drops_Estop"
  shows "\<exists>e t'. threads_step report per t e t' \<and> threads_left t' < threads_left t"
proof -
  obtain w f where aw: "watcher_step True (ack_watcher t, ack_file t) = (w, f)" by fastforce
  obtain w' f' where ew: "watcher_step True (estop_watcher t, estop_file t) = (w', f')" by fastforce
  consider "main_is (proc t) = Drops_Acknowledge" "running_flag (ack_watcher t)"
    | "main_is (proc t) = Drops_Acknowledge" "\<not> running_flag (ack_watcher t)" "pc (ack_watcher t) \<noteq> Ended"
    | "main_is (proc t) = Drops_Acknowledge" "\<not> running_flag (ack_watcher t)" "pc (ack_watcher t) = Ended"
    | "main_is (proc t) = Drops_Estop" "running_flag (estop_watcher t)"
    | "main_is (proc t) = Drops_Estop" "\<not> running_flag (estop_watcher t)" "pc (estop_watcher t) \<noteq> Ended"
    | "main_is (proc t) = Drops_Estop" "\<not> running_flag (estop_watcher t)" "pc (estop_watcher t) = Ended"
    using assms by blast
  then show ?thesis
  proof cases
    case 1
    then show ?thesis using destroys_ack [OF 1(1)] by (intro exI conjI) (assumption, simp add: threads_left_def watcher_left_def)
  next
    case 2
    then show ?thesis
      using ack_thread [OF aw] watcher_step_left [OF aw] by (intro exI conjI) (assumption, simp add: threads_left_def)
  next
    case 3
    then show ?thesis using joins_ack [OF 3] by (intro exI conjI) (assumption, simp add: threads_left_def process_left_def)
  next
    case 4
    then show ?thesis using destroys_estop [OF 4(1)] by (intro exI conjI) (assumption, simp add: threads_left_def watcher_left_def)
  next
    case 5
    then show ?thesis
      using estop_thread [OF ew] watcher_step_left [OF ew] by (intro exI conjI) (assumption, simp add: threads_left_def)
  next
    case 6
    then show ?thesis using joins_estop [OF 6] by (intro exI conjI) (assumption, simp add: threads_left_def process_left_def)
  qed
qed

lemma threads_cycle:
  assumes "loop_inv per t" and "g_shutdown_requested (proc t)" and "control_is (proc t) = Control_Runs" and "\<not> stop_asked (proc t)"
  shows "\<exists>e t'. threads_step report per t e t' \<and> threads_left t' < threads_left t"
proof (cases "cycle_is t")
  case Cycle_Idle
  then show ?thesis
    using loads_estop [OF assms(3,4) Cycle_Idle, of report per] by (intro exI conjI) (assumption, simp add: threads_left_def)
next
  case (Loaded_Estop e)
  obtain a w where w: "takeOnce (ack_watcher t) = (a, w)" by fastforce
  then show ?thesis
    using takes_ack [OF Loaded_Estop w, of report per] takeOnce_frame [OF w] Loaded_Estop
    by (intro exI conjI) (assumption, simp add: threads_left_def watcher_left_def)
next
  case (Took_Ack e a)
  then show ?thesis
    using loads_again [OF Took_Ack, of report per] by (intro exI conjI) (assumption, simp add: threads_left_def)
next
  case (Loaded_Again e a l)
  define w :: cycle_world where "w = \<lparr>estop_seen = e, ack_taken = a, transition_clock = \<lparr>tv_sec = 0, tv_nsec = 0\<rparr>,
    publish_clock = \<lparr>tv_sec = 0, tv_nsec = 0\<rparr>, estop_seen_later = l, uptime = 0, shutdown_seen = True, padding = (0, 0)\<rparr>"
  obtain c sizes stops where c: "cycle (scheduling_applied report) (\<lambda>_. w)
      \<lparr>ctx_index = of_nat (cycles_run (proc t)), ctx_wakeup_jitter_ns = 0, ctx_period_ns = per\<rparr> new_ExecutorStats (loop (proc t))
      = (c, sizes, stops)"
    using prod_cases3 by blast
  obtain s where "read_snapshot (published c) = Some s"
    using loop_inv_cycle(3) [OF assms(1) c] by (auto simp: shows_mode_def split: option.splits)
  then have "threads_step report per t (Publishes s)
      (t\<lparr>cycle_is := Cycle_Idle, proc := (proc t)\<lparr>loop := c, cycles_run := Suc (cycles_run (proc t)), stop_asked := stops\<rparr>\<rparr>)"
    using assms(2) by (intro publishes [OF Loaded_Again _ _ _ _ c]) (simp_all add: w_def)
  moreover have "stops" using loop_inv_cycle(4) [OF assms(1) c] by (simp add: w_def)
  ultimately show ?thesis
    using assms(3,4) Loaded_Again by (intro exI conjI) (assumption, simp add: threads_left_def process_left_def)
qed

lemma threads_progress:
  assumes "loop_inv per t" and "g_shutdown_requested (proc t)" and "main_is (proc t) \<noteq> Exited"
  shows "\<exists>e t'. threads_step report per t e t' \<and> threads_left t' < threads_left t"
proof -
  consider "main_is (proc t) = Drops_Acknowledge \<or> main_is (proc t) = Drops_Estop"
    | "control_is (proc t) = Control_Runs" "\<not> stop_asked (proc t)"
    | "main_is (proc t) \<noteq> Drops_Acknowledge" "main_is (proc t) \<noteq> Drops_Estop"
      "control_is (proc t) \<noteq> Control_Runs \<or> stop_asked (proc t)" by blast
  then show ?thesis
  proof cases
    case 3
    have "process_inv (proc t)" using loop_inv_threads [OF assms(1)] by (simp add: threads_inv_def)
    then obtain p where p: "process_step report (proc t) p" "process_left p < process_left (proc t)"
      using process_moves [OF assms(2,3)] by blast
    then consider "control_is p \<noteq> control_is (proc t)" | "main_is p \<noteq> main_is (proc t)"
      using process_progress 3(3) by blast
    then have "\<exists>e. threads_step report per t e (proceeds p t)"
      using control_moves [OF p(1)] main_moves [OF p(1)] 3(1,2) by cases blast+
    then show ?thesis using p(2) by (auto simp: threads_left_def intro!: exI [of _ "proceeds p t"])
  qed (use threads_drop threads_cycle [OF assms(1,2)] in blast)+
qed

lemma threads_step_shutdown:
  "threads_step report per t e t' \<Longrightarrow> g_shutdown_requested (proc t) \<Longrightarrow> g_shutdown_requested (proc t')"
  by (elim threads_stepE) (auto simp: onSignal_def dest: main_moved control_moved)

lemma threads_can_exit:
  assumes "loop_inv per t" and "g_shutdown_requested (proc t)"
  shows "\<exists>es t'. threads_run report per t es t' \<and> main_is (proc t') = Exited"
  using assms
proof (induction "threads_left t" arbitrary: t rule: less_induct)
  case less
  show ?case
  proof (cases "main_is (proc t) = Exited")
    case False
    then obtain e u where u: "threads_step report per t e u" "threads_left u < threads_left t"
      using threads_progress [OF less.prems] by blast
    obtain es t' where "threads_run report per u es t'" "main_is (proc t') = Exited"
      using less.hyps [OF u(2) loop_inv_step [OF u(1) less.prems(1)] threads_step_shutdown [OF u(1) less.prems(2)]] by blast
    moreover have "threads_run report per t [e] u" using run_step [OF run_start u(1)] by simp
    ultimately show ?thesis using threads_run_append by blast
  qed (blast intro: run_start)
qed

section \<open>Cycles that run\<close>

text \<open>
  The loop between two cycles, with nothing in its way: a cycle needs no step of any
  other thread.
\<close>

definition between_cycles :: "int \<Rightarrow> daemon_threads \<Rightarrow> bool" where
  "between_cycles per t \<longleftrightarrow> loop_inv per t \<and> control_is (proc t) = Control_Runs \<and> \<not> stop_asked (proc t) \<and>
     cycle_is t = Cycle_Idle \<and> \<not> g_shutdown_requested (proc t)"

lemma one_cycle:
  assumes "between_cycles per t"
  shows "\<exists>a s t'. threads_run report per t [Loads_Estop, Takes_Ack a, Loads_Again, Publishes s] t' \<and> between_cycles per t' \<and>
    estop_file t' = estop_file t \<and> ack_file t' = ack_file t"
proof -
  note t = assms [unfolded between_cycles_def]
  define e where "e = asserted (estop_watcher t)"
  obtain a w where w: "takeOnce (ack_watcher t) = (a, w)" by fastforce
  let ?t1 = "t\<lparr>cycle_is := Loaded_Estop e\<rparr>"
  let ?t2 = "?t1\<lparr>cycle_is := Took_Ack e a, ack_watcher := w\<rparr>"
  let ?t3 = "?t2\<lparr>cycle_is := Loaded_Again e a e\<rparr>"
  have "threads_step report per t Loads_Estop ?t1" unfolding e_def using t by (intro loads_estop) simp_all
  moreover have "threads_step report per ?t1 (Takes_Ack a) ?t2" by (rule takes_ack) (simp_all add: w)
  moreover have "threads_step report per ?t2 Loads_Again ?t3" using loads_again [of ?t2 e a report per] by (simp add: e_def)
  ultimately have r3: "threads_run report per t [Loads_Estop, Takes_Ack a, Loads_Again] ?t3"
    using run_step [OF run_step [OF run_step [OF run_start]]] by fastforce
  then have inv3: "loop_inv per ?t3" using loop_inv_run t by blast
  define cw where "cw = quiet_world\<lparr>estop_seen := e, ack_taken := a, estop_seen_later := e\<rparr>"
  obtain c sizes stops where c: "cycle (scheduling_applied report) (\<lambda>_. cw)
      \<lparr>ctx_index = of_nat (cycles_run (proc ?t3)), ctx_wakeup_jitter_ns = 0, ctx_period_ns = per\<rparr> new_ExecutorStats (loop (proc ?t3))
      = (c, sizes, stops)"
    using prod_cases3 by blast
  obtain s where s: "read_snapshot (published c) = Some s"
    using loop_inv_cycle(3) [OF inv3 c] by (auto simp: shows_mode_def split: option.splits)
  let ?t4 = "?t3\<lparr>cycle_is := Cycle_Idle, proc := (proc ?t3)\<lparr>loop := c, cycles_run := Suc (cycles_run (proc ?t3)), stop_asked := stops\<rparr>\<rparr>"
  have "threads_step report per ?t3 (Publishes s) ?t4"
    using t by (intro publishes [OF _ _ _ _ _ c s]) (simp_all add: cw_def quiet_world_def)
  then have r4: "threads_run report per t [Loads_Estop, Takes_Ack a, Loads_Again, Publishes s] ?t4"
    using run_step [OF r3] by fastforce
  have "stops = shutdown_seen cw" by (rule loop_inv_cycle(4) [OF inv3 c])
  then have "between_cycles per ?t4"
    using t loop_inv_run [OF r4] by (simp add: between_cycles_def cw_def quiet_world_def)
  then show ?thesis using r4 by (intro exI conjI) (assumption, assumption, simp_all)
qed

text \<open>Events of the people at the files, and a removal that fails.\<close>

definition undisturbed :: "thread_event list \<Rightarrow> bool" where
  "undisturbed es \<longleftrightarrow> set es \<inter> {Creates_Estop, Removes_Estop, Creates_Ack, Removes_Ack, Ack_Thread False} = {}"

lemma some_cycles:
  "between_cycles per t \<Longrightarrow> \<exists>es t'. threads_run report per t es t' \<and> undisturbed es \<and> length (filter is_publication es) = n \<and>
     between_cycles per t' \<and> estop_file t' = estop_file t \<and> ack_file t' = ack_file t"
proof (induction n)
  case 0
  show ?case by (rule exI [of _ "[]"]) (auto simp: undisturbed_def 0 intro: run_start)
next
  case (Suc n)
  then obtain es u where u: "threads_run report per t es u" "undisturbed es" "length (filter is_publication es) = n"
    "between_cycles per u" "estop_file u = estop_file t" "ack_file u = ack_file t" by blast
  obtain a s t' where t': "threads_run report per u [Loads_Estop, Takes_Ack a, Loads_Again, Publishes s] t'" "between_cycles per t'"
    "estop_file t' = estop_file u" "ack_file t' = ack_file u" using one_cycle [OF u(4)] by blast
  have "undisturbed (es @ [Loads_Estop, Takes_Ack a, Loads_Again, Publishes s])" using u(2) by (auto simp: undisturbed_def)
  moreover have "filter is_publication [Loads_Estop, Takes_Ack a, Loads_Again, Publishes s] = [Publishes s]"
    by (simp add: is_publication_def)
  ultimately show ?case
    using threads_run_append [OF t'(1) u(1)] u(3,5,6) t'(2-4)
    by (intro exI conjI) (assumption, assumption, simp_all)
qed

lemma between_step:
  assumes "threads_step report per t e t'" and "between_cycles per t" and "proc t' = proc t" and "cycle_is t' = cycle_is t"
  shows "between_cycles per t'"
  using assms loop_inv_step [OF assms(1)] by (simp add: between_cycles_def)

lemma some_estop_steps:
  "between_cycles per t \<Longrightarrow> \<exists>t'. threads_run report per t (replicate n Estop_Thread) t' \<and> between_cycles per t' \<and>
     estop_file t' = estop_file t \<and> ack_file t' = ack_file t"
proof (induction n)
  case (Suc n)
  then obtain u where u: "threads_run report per t (replicate n Estop_Thread) u" "between_cycles per u"
    "estop_file u = estop_file t" "ack_file u = ack_file t" by blast
  obtain w f where w: "watcher_step True (estop_watcher u, estop_file u) = (w, f)" by fastforce
  note step = estop_thread [OF w, of report per 0]
  have i: "threads_inv u" "alive u" using u(2) by (simp_all add: between_cycles_def loop_inv_def)
  have "f = estop_file u" using level_left_step [OF w] alive_watchers [OF i] by blast
  moreover note run_step [OF u(1) step, unfolded replicate_append_same]
  ultimately show ?case unfolding replicate_Suc
    using between_step [OF step u(2)] u(3,4) by (intro exI conjI) (assumption, simp_all)
qed (auto intro: run_start)

lemma some_ack_steps:
  "between_cycles per t \<Longrightarrow> \<exists>t'. threads_run report per t (replicate n (Ack_Thread True)) t' \<and> between_cycles per t' \<and>
     estop_file t' = estop_file t"
proof (induction n)
  case (Suc n)
  then obtain u where u: "threads_run report per t (replicate n (Ack_Thread True)) u" "between_cycles per u" "estop_file u = estop_file t" by blast
  obtain w f where w: "watcher_step True (ack_watcher u, ack_file u) = (w, f)" by fastforce
  note step = ack_thread [OF w, of report per 0]
  note run_step [OF u(1) step, unfolded replicate_append_same]
  then show ?case unfolding replicate_Suc
    using between_step [OF step u(2)] u(3) by (intro exI conjI) (assumption, simp_all)
qed (auto intro: run_start)

text \<open>The daemon on the system of \<open>Daemon_Process\<close>, at a thousand cycles per second, as its control thread begins.\<close>

lemma willing_frequency:
  "daemon_start willing_system (\<lambda>_. None) [''safeedged''] = Inr d \<Longrightarrow> frequency_hz (d_settings d) = 1000 \<and>
     1000000 = period (daemon_executor_config (frequency_hz (d_settings d)) (rt_priority (d_settings d)))"
  by (auto simp: daemon_start_def Let_def read_settings_def environmentLong_def daemon_period split: if_splits prod.splits)

lemma willing_begins:
  assumes "daemon_start willing_system (\<lambda>_. None) [''safeedged''] = Inr d"
  shows "\<exists>t. threads_run report 1000000 (threads_start d clock now ef af) [Control_Moves] t \<and> between_cycles 1000000 t \<and>
    estop_file t = ef \<and> ack_file t = af"
proof -
  let ?t = "threads_start d clock now ef af"
  let ?p = "says (scheduling_log 0 report) ((proc ?t)\<lparr>control_is := Control_Runs, running_now := True\<rparr>)"
  have "threads_step report 1000000 ?t Control_Moves (proceeds ?p ?t)"
    by (intro control_moves control_begins) (simp_all add: threads_start_def process_start_def says_def)
  then have run: "threads_run report 1000000 ?t [Control_Moves] (proceeds ?p ?t)"
    using run_step [OF run_start] by fastforce
  have "loop_inv 1000000 ?t"
    by (rule loop_inv_start [OF assms _ conjunct2 [OF willing_frequency [OF assms]]]) (simp add: willing_frequency [OF assms])
  then have "loop_inv 1000000 (proceeds ?p ?t)" by (rule loop_inv_run [OF run])
  then show ?thesis
    using run by (intro exI conjI) (assumption, simp_all add: between_cycles_def says_def threads_start_def process_start_def)
qed

lemma count_list_replicate_same [simp]: "count_list (replicate n x) x = n"
  by (induction n) simp_all

lemma willing_stops:
  assumes "daemon_start willing_system (\<lambda>_. None) [''safeedged''] = Inr d"
  shows "\<exists>t es t'. threads_run report 1000000 (threads_start d clock now ef af) [Control_Moves] t \<and> estop_file t = ef \<and>
    threads_run report 1000000 t (replicate 3 Estop_Thread @ es) t' \<and> undisturbed es \<and> length (filter is_publication es) = n \<and>
    between_cycles 1000000 t' \<and> estop_file t' = ef \<and> ack_file t' = af"
proof -
  obtain t where t: "threads_run report 1000000 (threads_start d clock now ef af) [Control_Moves] t" "between_cycles 1000000 t"
    "estop_file t = ef" "ack_file t = af" using willing_begins [OF assms] by blast
  obtain u where u: "threads_run report 1000000 t (replicate 3 Estop_Thread) u" "between_cycles 1000000 u"
    "estop_file u = ef" "ack_file u = af" using some_estop_steps [OF t(2)] t(3,4) by blast
  obtain es t' where "threads_run report 1000000 u es t'" "undisturbed es" "length (filter is_publication es) = n"
    "between_cycles 1000000 t'" "estop_file t' = ef" "ack_file t' = af" using some_cycles [OF u(2)] u(3,4) by blast
  then show ?thesis using t(1,3) threads_run_append [OF _ u(1)] by blast
qed

section \<open>Standard output\<close>

text \<open>The lines of the main and the control thread, in their order.\<close>

fun own_lines :: "log_line list \<Rightarrow> string list" where
  "own_lines [] = []"
| "own_lines (Own line # ls) = line # own_lines ls"
| "own_lines (Watcher line # ls) = own_lines ls"

lemma own_lines_append [simp]: "own_lines (xs @ ys) = own_lines xs @ own_lines ys"
  by (induction xs rule: own_lines.induct) simp_all

lemma own_lines_own [simp]: "own_lines (map Own xs) = xs"
  by (induction xs) simp_all

lemma own_lines_watcher [simp]: "own_lines (watcher_says now path m n w) = []"
  by (simp add: watcher_says_def split: watch_pc.splits)

lemma process_step_logs: "process_step report p p' \<Longrightarrow> \<exists>ls. logged p' = logged p @ ls"
  by (elim process_stepE) (simp_all add: onSignal_def says_def)

lemma stdout_step:
  "threads_step report per t e t' \<Longrightarrow> own_lines (stdout t) = logged (proc t) \<Longrightarrow> own_lines (stdout t') = logged (proc t')"
  by (elim threads_stepE) (auto simp: proceeds_def onSignal_def dest: process_step_logs)

lemma stdout_run:
  "threads_run report per (threads_start d clock now estop_there ack_there) es t \<Longrightarrow> own_lines (stdout t) = logged (proc t)"
  by (induction rule: threads_run.induct) (simp add: threads_start_def, blast intro: stdout_step)

text \<open>A level watcher logs exactly when its flag changes, a latching one exactly when it sets the flag.\<close>

lemma level_says_change:
  "watcher_step r (w, f) = (w', f') \<Longrightarrow> mode w = kLevel \<Longrightarrow> pc w \<noteq> Unlinked \<Longrightarrow>
     watcher_says now path m n w =
       (if asserted_flag w' = asserted_flag w then []
        else [Watcher (logEvent now ''warn'' (if asserted_flag w' then m else n) (Some path))])"
  by (auto simp: watcher_step_def watcher_says_def split: watch_pc.splits if_splits)

lemma latch_says_delivery:
  "mode w = kLatchOnce \<Longrightarrow> watcher_says now path m n w =
     (if pc w = Unlinked then [Watcher (logEvent now ''info'' m (Some path))] else [])"
  by (simp add: watcher_says_def split: watch_pc.splits)

section \<open>Properties\<close>

text \<open>
  C6. The threads of the daemon end in order: every interleaving of the main thread, the control
  thread, the two watchers, signals and the people at the files is a run of the process; a cycle is
  under way only while the loop runs and what it uses exists; a watcher object is gone only
  after its thread has ended; the lines of the main and the control thread reach the output in
  their order, whatever the watchers log between them, and at the exit the server is stopped and the
  last of these lines is the report on what the last cycle published; and once a signal has arrived the process can always
  still exit.
\<close>

theorem threads_end_in_order:
  assumes "daemon_start sys getenv argv = Inr d" and "20 \<le> frequency_hz (d_settings d)"
    and "per = period (daemon_executor_config (frequency_hz (d_settings d)) (rt_priority (d_settings d)))"
    and "threads_run report per (threads_start d clock now estop_there ack_there) es t"
  shows "(process_step report)\<^sup>*\<^sup>* (process_start d clock now) (proc t) \<and>
    (cycle_is t \<noteq> Cycle_Idle \<longrightarrow> running_now (proc t) \<and> p_estop (proc t) \<noteq> None \<and> p_ack (proc t) \<noteq> None \<and> p_region (proc t) \<noteq> None) \<and>
    (p_estop (proc t) = None \<longrightarrow> pc (estop_watcher t) = Ended) \<and> (p_ack (proc t) = None \<longrightarrow> pc (ack_watcher t) = Ended) \<and>
    own_lines (stdout t) = logged (proc t) \<and>
    (main_is (proc t) = Exited \<longrightarrow> \<not> running (p_server (proc t)) \<and> 0 < cycles_run (proc t) \<and>
       (\<exists>now. last (own_lines (stdout t)) = daemon_finish now (read_snapshot (published (loop (proc t)))))) \<and>
    (g_shutdown_requested (proc t) \<longrightarrow> (\<exists>es' t'. threads_run report per t es' t' \<and> main_is (proc t') = Exited))"
proof -
  note start = threads_start_inv [OF assms(1), of clock now estop_there ack_there]
  note inv = threads_inv_run [OF assms(4) start]
  have "(process_step report)\<^sup>*\<^sup>* (process_start d clock now) (proc t)"
    using threads_run_process [OF assms(4) start] by (simp add: threads_start_def)
  moreover have "running_now (proc t) \<and> p_estop (proc t) \<noteq> None \<and> p_ack (proc t) \<noteq> None \<and> p_region (proc t) \<noteq> None"
    if "cycle_is t \<noteq> Cycle_Idle"
    using inv alive_main [OF inv cycling_alive [OF inv that]] that
    by (cases "main_is (proc t)") (simp_all add: threads_inv_def watchers_inv_def process_inv_def)
  moreover have "loop_inv per t" using loop_inv_run [OF assms(4) loop_inv_start [OF assms(1-3)]] .
  moreover have "main_is (proc t) = Exited \<longrightarrow> \<not> running (p_server (proc t)) \<and> 0 < cycles_run (proc t) \<and>
      (\<exists>now. last (own_lines (stdout t)) = daemon_finish now (read_snapshot (published (loop (proc t)))))"
    using inv stdout_run [OF assms(4)] by (auto simp: threads_inv_def process_inv_def)
  ultimately show ?thesis
    using inv threads_can_exit stdout_run [OF assms(4)] by (simp add: threads_inv_def watchers_inv_def)
qed

text \<open>The daemon on the system above, from its start through a signal to its end.\<close>

theorem threads_end_in_order_witness:
  "\<exists>d es t. daemon_start willing_system (\<lambda>_. None) [''safeedged''] = Inr d \<and>
    threads_run new_ThreadConfigReport 1000000 (threads_start d \<lparr>tv_sec = 0, tv_nsec = 0\<rparr> 0 True True) es t \<and>
    main_is (proc t) = Exited"
proof -
  obtain d where d: "daemon_start willing_system (\<lambda>_. None) [''safeedged''] = Inr d" using willing_starts by blast
  let ?t = "threads_start d \<lparr>tv_sec = 0, tv_nsec = 0\<rparr> 0 True True"
  let ?u = "?t\<lparr>proc := onSignal (proc ?t)\<rparr>"
  note f = willing_frequency [OF d]
  have run: "threads_run new_ThreadConfigReport 1000000 ?t [Signals] ?u"
    using run_step [OF run_start signals] by simp
  have "g_shutdown_requested (proc ?u)" by (simp add: onSignal_def)
  then obtain es t where "threads_run new_ThreadConfigReport 1000000 ?u es t" "main_is (proc t) = Exited"
    using threads_end_in_order [OF d _ conjunct2 [OF f] run] f by auto
  then show ?thesis using d run threads_run_append by blast
qed

end
