(* ===== verification/Live_Snapshot.thy ===== *)
theory Live_Snapshot
  imports Daemon_Threads
begin

text \<open>
  The published snapshot while it is being written (\<open>published->store\<close> in the cycle of
  \<open>src/apps/safeedged.cpp\<close> against \<open>tryLoad\<close> in the handlers and in other processes): the control loop
  with the sequence lock at the grain of single words.  The theory shows that the
  store of a whole snapshot is the run of its single steps, and that a load that succeeds
  at any moment is the snapshot of the last cycle that was completely published.
\<close>

section \<open>Model\<close>

text \<open>\<open>live_shown\<close> is the loop as it was at the end of the last store.\<close>

record live_slot =
  live_loop :: control_loop
  live_shown :: control_loop
  live_sys :: seq_sys

definition live_start :: "control_loop \<Rightarrow> live_slot" where
  "live_start c =
     \<lparr>live_loop = c, live_shown = c,
      live_sys = \<lparr>slot = published c, wpc = WIdle, rpc = RIdle,
        history = [replicate 21 0, seq_words (published c)], sampled = 0\<rparr>\<rparr>"

text \<open>
  A cycle computes its snapshot and begins the store; every other step is one of the
  store under way or of a reader.
\<close>

inductive live_step :: "bool \<Rightarrow> int \<Rightarrow> live_slot \<Rightarrow> seq_event \<Rightarrow> live_slot \<Rightarrow> bool" for granted :: bool and per :: int where
  live_cycle: "wpc (live_sys t) = WIdle \<Longrightarrow>
    cycle granted (\<lambda>_. w) \<lparr>ctx_index = of_nat (turn (live_loop t)), ctx_wakeup_jitter_ns = jitter, ctx_period_ns = per\<rparr> stats
      (live_loop t) = (c, sizes, stops) \<Longrightarrow>
    live_step granted per t STau
      (t\<lparr>live_loop := c, live_sys := (live_sys t)\<lparr>slot := mark_odd (slot (live_sys t)), wpc := WWords (seq_words (published c)) 0\<rparr>\<rparr>)"
| live_other: "seq_step (live_sys t) e y \<Longrightarrow> wpc (live_sys t) \<noteq> WIdle \<or> wpc y = WIdle \<Longrightarrow>
    live_step granted per t e (t\<lparr>live_sys := y, live_shown := (if wpc y = WIdle then live_loop t else live_shown t)\<rparr>)"

inductive live_run :: "bool \<Rightarrow> int \<Rightarrow> live_slot \<Rightarrow> live_slot \<Rightarrow> bool" for granted :: bool and per :: int and t0 :: live_slot where
  live_begin: "live_run granted per t0 t0"
| live_next: "live_run granted per t0 t \<Longrightarrow> live_step granted per t e t' \<Longrightarrow> live_run granted per t0 t'"

section \<open>The store, step by step\<close>

lemma write_word_length [simp]: "length (seq_words (fold (write_word v) is q)) = length (seq_words q)"
  by (induction "is" arbitrary: q) (simp_all add: write_word_def)

lemma words_reachable:
  assumes "seq_reachable n s" and "wpc s = WIdle" and "length v = length (seq_words (slot s))" and "i \<le> length v"
  shows "seq_reachable n (s\<lparr>slot := fold (write_word v) [0..<i] (mark_odd (slot s)), wpc := WWords v i\<rparr>)"
  using assms(4)
proof (induction i)
  case 0
  then show ?case using seq_reachable.step [OF assms(1) write_begin [OF assms(2,3)]] by simp
next
  case (Suc i)
  let ?s = "s\<lparr>slot := fold (write_word v) [0..<i] (mark_odd (slot s)), wpc := WWords v i\<rparr>"
  have "seq_step ?s STau (?s\<lparr>slot := write_word v i (slot ?s), wpc := WWords v (Suc i)\<rparr>)"
    using Suc.prems assms(3) by (intro write_next) (simp_all add: mark_odd_def)
  then show ?case using seq_reachable.step [OF Suc.IH] Suc.prems by simp
qed

lemma store_reachable:
  assumes "seq_reachable n s" and "wpc s = WIdle" and "length v = length (seq_words (slot s))"
  shows "seq_reachable n (s\<lparr>slot := store v (slot s), history := history s @ [v]\<rparr>)"
proof -
  let ?s = "s\<lparr>slot := fold (write_word v) [0..<length v] (mark_odd (slot s)), wpc := WWords v (length v)\<rparr>"
  have "seq_step ?s STau (?s\<lparr>slot := mark_even (slot ?s), wpc := WIdle, history := history ?s @ [v]\<rparr>)"
    using assms(3) by (intro write_end) (simp_all add: mark_odd_def)
  from seq_reachable.step [OF words_reachable [OF assms order_refl] this]
  have "seq_reachable n (?s\<lparr>slot := mark_even (slot ?s), wpc := WIdle, history := history ?s @ [v]\<rparr>)" .
  also have "?s\<lparr>slot := mark_even (slot ?s), wpc := WIdle, history := history ?s @ [v]\<rparr> =
      s\<lparr>slot := store v (slot s), history := history s @ [v]\<rparr>"
    using assms(2,3) by (simp add: store_def)
  finally show ?thesis .
qed

lemma initial_live_reachable:
  "seq_reachable 21 \<lparr>slot = initial_slot gaps, wpc = WIdle, rpc = RIdle, history = [replicate 21 0, seq_words (initial_slot gaps)], sampled = 0\<rparr>"
proof -
  let ?v = "snapshot_words (fst gaps) (snd gaps) new_RuntimeSnapshot"
  have k: "kWordCount 168 = 21" by (simp add: kWordCount_def)
  have "length ?v = length (seq_words (slot (initial_seq 21)))" by (simp add: initial_seq_def new_seqlock_def)
  moreover have "wpc (initial_seq 21) = WIdle" by (simp add: initial_seq_def)
  ultimately have "seq_reachable 21 ((initial_seq 21)\<lparr>slot := store ?v (slot (initial_seq 21)), history := history (initial_seq 21) @ [?v]\<rparr>)"
    by (intro store_reachable [OF seq_reachable.init])
  moreover have "seq_words (initial_slot gaps) = ?v"
    using store_words [of ?v "new_seqlock 21"] by (simp add: initial_slot_def publish_def k new_seqlock_def)
  ultimately show ?thesis by (simp add: initial_seq_def initial_slot_def publish_def k)
qed

section \<open>The loop and its slot\<close>

definition live_inv :: "int \<Rightarrow> live_slot \<Rightarrow> bool" where
  "live_inv per t \<longleftrightarrow> seq_reachable 21 (live_sys t) \<and>
     last (history (live_sys t)) = seq_words (published (live_shown t)) \<and>
     (case wpc (live_sys t) of
        WIdle \<Rightarrow> live_shown t = live_loop t
      | WWords v i \<Rightarrow> v = seq_words (published (live_loop t)) \<and> turn (live_loop t) = Suc (turn (live_shown t))) \<and>
     (\<forall>c\<in>{live_loop t, live_shown t}. in_mode per (turn c) (mode_of c) c \<and>
        (0 < turn c \<longrightarrow> shows_mode (turn c) (mode_of c) (published c)))"

lemma live_inv_start: "live_inv per (live_start (new_control_loop now (initial_slot gaps)))"
proof -
  let ?c = "new_control_loop now (initial_slot gaps)"
  have c: "published ?c = initial_slot gaps" "turn ?c = 0" by (simp_all add: new_control_loop_def)
  have m: "in_mode per 0 Starting ?c" by (rule in_mode_new [OF initial_slot_ok])
  then show ?thesis
    using initial_live_reachable [of gaps] in_mode_mode_of [OF m] by (simp add: live_inv_def live_start_def c)
qed

lemma seq_step_writer:
  "seq_step s e s' \<Longrightarrow> wpc s' = wpc s \<and> history s' = history s \<or>
     (\<exists>v. wpc s = WIdle \<and> wpc s' = WWords v 0) \<or>
     (\<exists>v i. wpc s = WWords v i \<and> wpc s' = WWords v (Suc i) \<and> history s' = history s) \<or>
     (\<exists>v i. wpc s = WWords v i \<and> wpc s' = WIdle \<and> history s' = history s @ [v])"
  by (induction rule: seq_step.induct) auto

lemma live_inv_step:
  assumes "live_step granted per t e t'" and "live_inv per t" and "0 < per" and "per \<le> 50000000"
  shows "live_inv per t'"
  using assms(1)
proof (cases rule: live_step.cases)
  case (live_cycle w jitter stats c sizes stops)
  let ?c = "live_loop t"
  let ?ctx = "\<lparr>ctx_index = of_nat (turn ?c), ctx_wakeup_jitter_ns = jitter, ctx_period_ns = per\<rparr>"
  let ?m = "mode_step (estop_seen w) (ack_taken w) (mode_of ?c)"
  have shown: "live_shown t = ?c" and mode: "in_mode per (turn ?c) (mode_of ?c) ?c"
    using assms(2) live_cycle(3) by (simp_all add: live_inv_def)
  have c: "in_mode per (Suc (turn ?c)) ?m c" "shows_mode (Suc (turn ?c)) ?m (published c)" "turn c = Suc (turn ?c)"
    using in_mode_cycle [OF mode assms(3,4), of ?ctx ?m "\<lambda>_. w" granted stats] cycle_turn [of granted "\<lambda>_. w" ?ctx stats ?c]
    by (simp_all add: live_cycle(4))
  have "length (seq_words (slot (live_sys t))) = 21"
    using reachable_ok assms(2) by (auto simp: live_inv_def writer_ok_def)
  moreover have "length (seq_words (published c)) = 21" using c(1) by (simp add: in_mode_def snapshot_slot_ok_def)
  ultimately have "seq_step (live_sys t) STau
      ((live_sys t)\<lparr>slot := mark_odd (slot (live_sys t)), wpc := WWords (seq_words (published c)) 0\<rparr>)"
    by (intro write_begin [OF live_cycle(3)]) simp
  then have "seq_reachable 21 ((live_sys t)\<lparr>slot := mark_odd (slot (live_sys t)), wpc := WWords (seq_words (published c)) 0\<rparr>)"
    using seq_reachable.step assms(2) by (auto simp: live_inv_def)
  then show ?thesis
    using assms(2) c shown in_mode_mode_of [OF c(1)] unfolding live_cycle(2) by (simp add: live_inv_def)
next
  case (live_other y)
  have "seq_reachable 21 y" using seq_reachable.step [OF _ live_other(2)] assms(2) by (simp add: live_inv_def)
  then show ?thesis
    using assms(2) live_other(3) seq_step_writer [OF live_other(2)] unfolding live_other(1)
    by (auto simp: live_inv_def split: wpc.splits if_splits)
qed

lemma live_inv_run:
  "live_run granted per t0 t \<Longrightarrow> live_inv per t0 \<Longrightarrow> 0 < per \<Longrightarrow> per \<le> 50000000 \<Longrightarrow> live_inv per t"
  by (induction rule: live_run.induct) (auto intro: live_inv_step)

section \<open>Alone\<close>

text \<open>A store under way ends without a step of any reader.\<close>

lemma store_finishes:
  assumes "live_run granted per t0 t" and "live_inv per t" and "0 < per" and "per \<le> 50000000" and "wpc (live_sys t) = WWords v i"
  shows "\<exists>t'. live_run granted per t0 t' \<and> wpc (live_sys t') = WIdle \<and> rpc (live_sys t') = rpc (live_sys t) \<and>
    live_shown t' = live_loop t \<and> sampled (live_sys t') = sampled (live_sys t)"
  using assms
proof (induction "21 - i" arbitrary: t i rule: less_induct)
  case less
  have w: "writer_ok 21 (live_sys t)" using less.prems(2) reachable_ok by (auto simp: live_inv_def)
  then have i: "i \<le> 21" "length (seq_words (slot (live_sys t))) = 21" using less.prems(5) by (auto simp: writer_ok_def)
  show ?case
  proof (cases "i = 21")
    case True
    have "seq_step (live_sys t) STau
        ((live_sys t)\<lparr>slot := mark_even (slot (live_sys t)), wpc := WIdle, history := history (live_sys t) @ [v]\<rparr>)"
      using less.prems(5) True i(2) by (intro write_end) simp_all
    from live_next [OF less.prems(1) live_other [OF this]] show ?thesis
      by (intro exI conjI) (simp, simp_all)
  next
    case False
    have "seq_step (live_sys t) STau ((live_sys t)\<lparr>slot := write_word v i (slot (live_sys t)), wpc := WWords v (Suc i)\<rparr>)"
      using less.prems(5) False i by (intro write_next) simp_all
    note step = live_other [OF this, of granted per]
    have st: "wpc (live_sys t) \<noteq> WIdle" using less.prems(5) by simp
    let ?t = "t\<lparr>live_sys := (live_sys t)\<lparr>slot := write_word v i (slot (live_sys t)), wpc := WWords v (Suc i)\<rparr>,
      live_shown := (if WWords v (Suc i) = WIdle then live_loop t else live_shown t)\<rparr>"
    have u: "live_step granted per t STau ?t" using step st by simp
    have "21 - Suc i < 21 - i" using False i(1) by simp
    from less.hyps [OF this live_next [OF less.prems(1) u] live_inv_step [OF u less.prems(2-4)] less.prems(3,4)]
    show ?thesis by auto
  qed
qed

text \<open>A reader that meets no store copies the words on its first attempt.\<close>

lemma reader_copies:
  assumes "live_run granted per t0 t" and "wpc (live_sys t) = WIdle" and "length (seq_words (slot (live_sys t))) = 21"
    and "rpc (live_sys t) = RCopy k before (take i (seq_words (slot (live_sys t))))" and "i \<le> 21"
    and "sequence (slot (live_sys t)) = before" and "live_shown t = live_loop t"
  shows "\<exists>t' v t''. live_run granted per t0 t' \<and> live_step granted per t' (Loaded v) t'' \<and> live_shown t' = live_shown t \<and>
    history (live_sys t') = history (live_sys t) \<and> sampled (live_sys t') = sampled (live_sys t)"
  using assms
proof (induction "21 - i" arbitrary: t i rule: less_induct)
  case less
  let ?q = "slot (live_sys t)" and ?st = "take i (seq_words (slot (live_sys t)))"
  show ?case
  proof (cases "i = 21")
    case True
    have "seq_step (live_sys t) (Loaded ?st) ((live_sys t)\<lparr>rpc := RIdle\<rparr>)"
      using less.prems True by (intro read_ok [where k = k and before = before]) simp_all
    from live_other [OF this, of granted per] less.prems(1,2) show ?thesis by fastforce
  next
    case False
    let ?y = "(live_sys t)\<lparr>rpc := RCopy k before (?st @ [seq_words ?q ! length ?st])\<rparr>"
    have "seq_step (live_sys t) STau ?y" using less.prems False by (intro read_word) simp_all
    note u = live_next [OF less.prems(1) live_other [OF this, of granted per]]
    have "?st @ [seq_words ?q ! length ?st] = take (Suc i) (seq_words ?q)"
      using less.prems(3,5) False by (simp add: take_Suc_conv_app_nth)
    then show ?thesis
      using less.hyps [of "Suc i" "t\<lparr>live_sys := ?y, live_shown := live_loop t\<rparr>"] u less.prems False by simp
  qed
qed

lemma reader_loads:
  assumes "live_run granted per t0 t" and "live_inv per t" and "wpc (live_sys t) = WIdle" and "rpc (live_sys t) = RIdle"
  shows "\<exists>t' v t''. live_run granted per t0 t' \<and> live_step granted per t' (Loaded v) t'' \<and> live_shown t' = live_shown t \<and>
    length (history (live_sys t')) - sampled (live_sys t') = 0"
proof -
  have w: "writer_ok 21 (live_sys t)" and shown: "live_shown t = live_loop t"
    using assms(2,3) reachable_ok by (auto simp: live_inv_def)
  have "even (seq_number (live_sys t))" using assms(3) by (simp add: seq_number_def)
  then have even: "sequence (slot (live_sys t)) AND 1 = 0" "length (seq_words (slot (live_sys t))) = 21"
    using w odd_number [of "seq_number (live_sys t)"] by (simp_all add: writer_ok_def)
  let ?y = "(live_sys t)\<lparr>rpc := RTry 32\<rparr>"
  let ?t = "t\<lparr>live_sys := ?y, live_shown := live_loop t\<rparr>"
  let ?z = "?y\<lparr>rpc := RCopy 31 (sequence (slot ?y)) [], sampled := length (history ?y)\<rparr>"
  have "live_step granted per t STau ?t"
    using live_other [OF read_call [OF assms(4), of 32], of granted per] assms(3) by simp
  then have r: "live_run granted per t0 ?t" by (rule live_next [OF assms(1)])
  have "seq_step ?y STau ?z" using even(1) by (intro read_sample) simp_all
  then have "live_step granted per ?t STau (?t\<lparr>live_sys := ?z, live_shown := live_loop t\<rparr>)"
    using live_other [of ?t STau ?z granted per] assms(3) by simp
  from live_next [OF r this]
  obtain t' v t'' where "live_run granted per t0 t'" "live_step granted per t' (Loaded v) t''" "live_shown t' = live_loop t"
    "history (live_sys t') = history (live_sys t)" "sampled (live_sys t') = length (history (live_sys t))"
    using reader_copies [of granted per t0 "?t\<lparr>live_sys := ?z, live_shown := live_loop t\<rparr>" 31 "sequence (slot ?y)" 0]
      assms(3) even shown by auto
  then show ?thesis using shown by (intro exI [of _ t'] exI [of _ v] exI [of _ t'']) simp
qed

section \<open>Properties\<close>

text \<open>
  C5. Readers see whole decisions: at every frequency from 20 Hz up and in every interleaving of
  the loop's word by word stores with a reader, in this process or another, a load that
  succeeds is the snapshot of the last cycle published to its end, with the state, fault, torque
  and latch of one mode; at most the cycle being stored is newer.
\<close>

theorem readers_see_whole_decisions:
  assumes "20 \<le> f" and "f \<le> 100000" and "per = period (daemon_executor_config f prio)"
    and "live_run granted per (live_start (new_control_loop now (initial_slot gaps))) t"
    and "live_step granted per t (Loaded v) t'" and "length (history (live_sys t)) - sampled (live_sys t) < 2 ^ 63"
  shows "read_snapshot (published (live_shown t)) = Some (words_snapshot v) \<and>
    (0 < turn (live_shown t) \<longrightarrow> snapshot_mode (mode_of (live_shown t)) (words_snapshot v)) \<and>
    turn (live_loop t) \<le> turn (live_shown t) + 1"
proof -
  have inv: "live_inv per t"
    using live_inv_run [OF assms(4) live_inv_start] daemon_period_range [OF assms(1,2)] assms(3) by simp
  obtain y where y: "seq_step (live_sys t) (Loaded v) y" using assms(5) by (auto elim: live_step.cases)
  have "v = last (history (live_sys t))"
    using loaded_last [OF _ y assms(6)] inv by (auto simp: live_inv_def)
  then have v: "v = seq_words (published (live_shown t))" using inv by (simp add: live_inv_def)
  have ok: "snapshot_slot_ok (published (live_shown t))" using inv by (auto simp: live_inv_def in_mode_def)
  then have r: "read_snapshot (published (live_shown t)) = Some (words_snapshot v)"
    by (simp add: read_snapshot_def snapshot_slot_ok_def tryLoad_32 v)
  moreover have "turn (live_loop t) \<le> turn (live_shown t) + 1"
    using inv by (auto simp: live_inv_def split: wpc.splits)
  ultimately show ?thesis
    using inv shows_snapshot_mode [OF _ r] by (auto simp: live_inv_def)
qed

text \<open>One cycle is published, and a reader loads its snapshot.\<close>

theorem readers_see_whole_decisions_witness:
  "\<exists>t v t'. live_run True 1000000 (live_start (new_control_loop \<lparr>tv_sec = 0, tv_nsec = 0\<rparr> (initial_slot (0, 0)))) t \<and>
    live_step True 1000000 t (Loaded v) t' \<and> turn (live_shown t) = 1 \<and> snapshot_mode (mode_of (live_shown t)) (words_snapshot v)"
proof -
  let ?c = "new_control_loop \<lparr>tv_sec = 0, tv_nsec = 0\<rparr> (initial_slot (0, 0))"
  let ?t0 = "live_start ?c"
  have t0: "wpc (live_sys ?t0) = WIdle" "rpc (live_sys ?t0) = RIdle" "live_loop ?t0 = ?c" by (simp_all add: live_start_def)
  obtain c sizes stops where c: "cycle True (\<lambda>_. quiet_world)
      \<lparr>ctx_index = of_nat (turn (live_loop ?t0)), ctx_wakeup_jitter_ns = 0, ctx_period_ns = 1000000\<rparr> new_ExecutorStats (live_loop ?t0)
      = (c, sizes, stops)" using prod_cases3 by blast
  have "turn (fst (c, sizes, stops)) = Suc (turn (live_loop ?t0))" unfolding c [symmetric] by (rule cycle_turn)
  then have turn: "turn c = 1" by (simp add: t0(3)) (simp add: new_control_loop_def)
  let ?t1 = "?t0\<lparr>live_loop := c, live_sys := (live_sys ?t0)\<lparr>slot := mark_odd (slot (live_sys ?t0)), wpc := WWords (seq_words (published c)) 0\<rparr>\<rparr>"
  have r1: "live_run True 1000000 ?t0 ?t1" by (rule live_next [OF live_begin live_cycle [OF t0(1) c]])
  have i1: "live_inv 1000000 ?t1" by (rule live_inv_run [OF r1 live_inv_start]) simp_all
  obtain t2 where t2: "live_run True 1000000 ?t0 t2" "wpc (live_sys t2) = WIdle" "rpc (live_sys t2) = RIdle" "live_shown t2 = c"
    using store_finishes [OF r1 i1, of "seq_words (published c)" 0] t0(2) by auto
  have i2: "live_inv 1000000 t2" by (rule live_inv_run [OF t2(1) live_inv_start]) simp_all
  obtain t v t' where t: "live_run True 1000000 ?t0 t" "live_step True 1000000 t (Loaded v) t'" "live_shown t = c"
    "length (history (live_sys t)) - sampled (live_sys t) = 0"
    using reader_loads [OF t2(1) i2 t2(2,3)] t2(4) by auto
  have "1000000 = period (daemon_executor_config 1000 80)" by (simp add: daemon_period)
  from readers_see_whole_decisions [OF _ _ this t(1,2)] t(3,4) turn
  have "snapshot_mode (mode_of (live_shown t)) (words_snapshot v)" by simp
  then show ?thesis using t turn by (intro exI conjI) (assumption, assumption, simp_all)
qed

end
