(* ===== verification/Opcua_Security.thy ===== *)
theory Opcua_Security
  imports Prelude "HOL-Library.Char_ord" "HOL-Library.List_Lexorder"
begin

text \<open>
  The security set-up of the OPC UA server and of its probe
  (\<open>include/safeedge/opcua/security.hpp\<close>, \<open>src/opcua/security.cpp\<close>), as built with a
  crypto backend and without.  The OPC UA library is a record of its functions, the
  file system a record of its answers, and certificate verification a value of a type
  of the library's own; every statement holds for all of them.  The theory shows that
  the set-up fails closed: no plaintext endpoint and no unchecked client unless asked for.
\<close>

section \<open>Model\<close>

type_synonym byte_string = "u8 list"

datatype CertificateOrigin = kLoadedFromFiles | kGeneratedSelfSigned | kNone

datatype ClientAuthentication = kAcceptAnyCertificate | kTrustList

record SecurityOptions =
  so_port :: u16
  certificate_path :: string
  key_path :: string
  trust_list_directory :: string
  allow_unencrypted :: bool
  so_authentication :: ClientAuthentication

definition default_SecurityOptions :: SecurityOptions where
  "default_SecurityOptions =
     \<lparr>so_port = 4840, certificate_path = [], key_path = [], trust_list_directory = [],
      allow_unencrypted = False, so_authentication = kAcceptAnyCertificate\<rparr>"

record SecurityPosture =
  origin :: CertificateOrigin
  policy_count :: nat
  allows_unencrypted :: bool
  allows_anonymous :: bool
  authentication :: ClientAuthentication
  trusted_certificate_count :: nat
  sp_detail :: string

definition new_SecurityPosture :: SecurityPosture where
  "new_SecurityPosture =
     \<lparr>origin = kNone, policy_count = 0, allows_unencrypted = False, allows_anonymous = True,
      authentication = kAcceptAnyCertificate, trusted_certificate_count = 0, sp_detail = []\<rparr>"

record ServerVerificationOptions =
  sv_trust_list_directory :: string
  insecure_accept_any_certificate :: bool

record ServerVerificationPosture =
  configured :: bool
  verifies_server_certificate :: bool
  sv_trusted_certificate_count :: nat
  sv_detail :: string

definition new_ServerVerificationPosture :: ServerVerificationPosture where
  "new_ServerVerificationPosture =
     \<lparr>configured = False, verifies_server_certificate = False, sv_trusted_certificate_count = 0, sv_detail = []\<rparr>"

definition kApplicationUri :: string where
  "kApplicationUri = ''urn:safeedge:opcua''"

text \<open>The library's data that the code reads or writes; \<open>'v\<close> is a certificate verification.\<close>

datatype security_mode = Mode_None | Mode_Sign | Mode_SignAndEncrypt | Mode_Invalid

record endpoint =
  security_mode :: security_mode
  server_uri :: string

record 'v server_config =
  endpoints :: "endpoint list"
  endpoints_size :: nat
  policies_size :: nat
  application_uri :: string
  secure_channel_pki :: 'v
  session_pki :: 'v

record 'v client_config =
  client_mode :: security_mode
  certificate_verification :: 'v

text \<open>
  The library: a generated key and certificate for a subject and its alternative names,
  the two ways to set up a server, and the two ways to set up a verification, the second
  with the name of its status unless that is good.
\<close>

record 'v ua_library =
  create_certificate :: "string list \<Rightarrow> string list \<Rightarrow> (byte_string \<times> byte_string) option"
  set_default_with_security :: "'v server_config \<Rightarrow> u16 \<Rightarrow> byte_string \<Rightarrow> byte_string \<Rightarrow> byte_string list \<Rightarrow> bool \<times> 'v server_config"
  set_minimal :: "'v server_config \<Rightarrow> u16 \<Rightarrow> bool \<times> 'v server_config"
  accept_all :: "'v \<Rightarrow> 'v"
  verification_trustlist :: "'v \<Rightarrow> byte_string list \<Rightarrow> string option \<times> 'v"

text \<open>The file system: of a file, whether it opens, its size, whether a buffer was found for it and what is read.\<close>

record file_answer =
  opened :: bool
  file_size :: int
  allocated :: bool
  content :: byte_string

record dir_entry =
  entry_path :: string
  regular :: bool
  stat_failed :: bool

record file_system =
  file_at :: "string \<Rightarrow> file_answer"
  directory_at :: "string \<Rightarrow> bool \<times> dir_entry list"

definition readFile :: "file_system \<Rightarrow> string \<Rightarrow> byte_string" where
  "readFile fs path =
     (if path = [] then []
      else
        let f = file_at fs path in
        if \<not> opened f then []
        else if file_size f \<le> 0 then []
        else if \<not> allocated f then []
        else if length (content f) \<noteq> nat (file_size f) then []
        else content f)"

text \<open>\<open>path::extension\<close>.\<close>

definition filename :: "string \<Rightarrow> string" where
  "filename p = rev (takeWhile (\<lambda>c. c \<noteq> CHR ''/'') (rev p))"

definition extension :: "string \<Rightarrow> string" where
  "extension p =
     (let f = filename p;
          e = rev (takeWhile (\<lambda>c. c \<noteq> CHR ''.'') (rev f))
      in if CHR ''.'' \<notin> set f \<or> f = ''..'' \<or> length e + 1 = length f then [] else CHR ''.'' # e)"

definition readTrustList :: "file_system \<Rightarrow> string \<Rightarrow> byte_string list" where
  "readTrustList fs dir =
     (if dir = [] then []
      else
        let (failed, entries) = directory_at fs dir;
            ec = fold (\<lambda>e _. stat_failed e) entries failed;
            candidates = map entry_path (filter (\<lambda>e. regular e \<and> extension (entry_path e) = ''.der'') entries)
        in if ec then []
           else filter (\<lambda>bytes. 0 < length bytes) (map (readFile fs) (sort candidates)))"

text \<open>The loop of \<open>dropUnencryptedEndpoints\<close>: the endpoints from index \<open>i\<close> on.\<close>

function drop_loop :: "nat \<Rightarrow> nat \<Rightarrow> nat \<Rightarrow> nat \<Rightarrow> endpoint list \<Rightarrow> nat \<times> nat \<times> endpoint list" where
  "drop_loop sz i kept removed eps =
     (if i < sz then
        if security_mode (eps ! i) = Mode_None then drop_loop sz (i + 1) kept (removed + 1) eps
        else drop_loop sz (i + 1) (kept + 1) removed (if kept \<noteq> i then eps[kept := eps ! i] else eps)
      else (removed, kept, eps))"
  by auto
termination
  by (relation "measure (\<lambda>(sz, i, _). sz - i)") auto

declare drop_loop.simps [simp del]

definition dropUnencryptedEndpoints :: "'v server_config \<Rightarrow> nat \<times> 'v server_config" where
  "dropUnencryptedEndpoints config =
     (let (removed, kept, eps) = drop_loop (endpoints_size config) 0 0 0 (endpoints config)
      in (removed, config\<lparr>endpoints := eps, endpoints_size := kept\<rparr>))"

definition configureServerVerification ::
  "bool \<Rightarrow> 'v ua_library \<Rightarrow> file_system \<Rightarrow> 'v client_config option \<Rightarrow> ServerVerificationOptions \<Rightarrow>
   ServerVerificationPosture \<times> 'v client_config option" where
  "configureServerVerification encryption lib fs client options =
     (let posture = new_ServerVerificationPosture in
      case client of
        None \<Rightarrow> (posture\<lparr>sv_detail := ''no client config''\<rparr>, None)
      | Some config \<Rightarrow>
          if insecure_accept_any_certificate options \<and> sv_trust_list_directory options \<noteq> [] then
            (posture\<lparr>sv_detail := ''--trust-list and --insecure-accept-any-server-cert are mutually exclusive''\<rparr>, Some config)
          else if \<not> encryption then
            (posture\<lparr>sv_detail := ''server verification requires a build with encryption enabled''\<rparr>, Some config)
          else
            let config = config\<lparr>client_mode := Mode_SignAndEncrypt\<rparr> in
            if insecure_accept_any_certificate options then
              (posture\<lparr>configured := True, sv_detail := ''DISABLED (--insecure-accept-any-server-cert)''\<rparr>,
               Some (config\<lparr>certificate_verification := accept_all lib (certificate_verification config)\<rparr>))
            else if sv_trust_list_directory options = [] then
              (posture\<lparr>sv_detail := ''server verification requires --trust-list DIR; ''
                 @ ''use --insecure-accept-any-server-cert only for an intentional insecure demo''\<rparr>, Some config)
            else
              let trust_list = readTrustList fs (sv_trust_list_directory options);
                  posture = posture\<lparr>sv_trusted_certificate_count := length trust_list\<rparr> in
              if trust_list = [] then
                (posture\<lparr>sv_detail := ''no server certificates loaded from '' @ [CHR 0x27]
                   @ sv_trust_list_directory options @ [CHR 0x27]\<rparr>, Some config)
              else
                let (result, v) = verification_trustlist lib (certificate_verification config) trust_list;
                    config = config\<lparr>certificate_verification := v\<rparr>
                in case result of
                     Some name \<Rightarrow>
                       (posture\<lparr>sv_detail := ''could not configure server trust list: '' @ name\<rparr>, Some config)
                   | None \<Rightarrow>
                       (posture\<lparr>configured := True, verifies_server_certificate := True,
                          sv_detail := ''ENABLED ('' @ decimal (length trust_list)
                            @ '' trusted certificate(s) from '' @ sv_trust_list_directory options @ '')''\<rparr>, Some config))"

text \<open>
  \<open>configureSecurity\<close> in the order of the code: what it refuses before anything is
  built, the server's own identity, and what it does to the configuration.
\<close>

definition own_identity ::
  "'v ua_library \<Rightarrow> file_system \<Rightarrow> SecurityOptions \<Rightarrow> (CertificateOrigin \<times> string \<times> byte_string \<times> byte_string) option" where
  "own_identity lib fs options =
     (let certificate = readFile fs (certificate_path options);
          private_key = readFile fs (key_path options)
      in if 0 < length certificate \<and> 0 < length private_key then
           Some (kLoadedFromFiles, ''certificate loaded from '' @ certificate_path options, certificate, private_key)
         else
           case create_certificate lib [''C=DE'', ''O=safeedge'', ''CN=safeedge-opcua''] [''DNS:localhost'', ''URI:'' @ kApplicationUri] of
             None \<Rightarrow> None
           | Some (key, cert) \<Rightarrow>
               Some (kGeneratedSelfSigned,
                     ''self-signed certificate generated at startup; clients must re-trust it after every restart'', cert, key))"

definition claim_identity :: "'v server_config \<Rightarrow> 'v server_config" where
  "claim_identity config =
     config\<lparr>application_uri := kApplicationUri,
       endpoints := map (\<lambda>e. e\<lparr>server_uri := kApplicationUri\<rparr>) (take (endpoints_size config) (endpoints config))
         @ drop (endpoints_size config) (endpoints config)\<rparr>"

definition finish_security ::
  "'v ua_library \<Rightarrow> SecurityOptions \<Rightarrow> SecurityPosture \<Rightarrow> 'v server_config \<Rightarrow> SecurityPosture \<times> 'v server_config" where
  "finish_security lib options posture config =
     (let config = claim_identity config;
          (posture, config) =
            (if so_authentication options = kTrustList then
               (posture\<lparr>sp_detail := sp_detail posture @ ''; '' @ decimal (trusted_certificate_count posture)
                  @ '' trusted client certificate(s) loaded from '' @ trust_list_directory options\<rparr>, config)
             else
               (posture\<lparr>sp_detail := sp_detail posture @ ''; any client certificate accepted''\<rparr>,
                config\<lparr>secure_channel_pki := accept_all lib (secure_channel_pki config),
                       session_pki := accept_all lib (session_pki config)\<rparr>));
          (posture, config) =
            (if \<not> allow_unencrypted options then
               let (removed, config) = dropUnencryptedEndpoints config
               in (posture\<lparr>sp_detail := sp_detail posture @ ''; dropped '' @ decimal removed @ '' unencrypted endpoint(s)''\<rparr>, config)
             else (posture, config))
      in (posture\<lparr>policy_count := policies_size config, allows_unencrypted := allow_unencrypted options,
            allows_anonymous := True\<rparr>, config))"

definition configure_plain ::
  "'v ua_library \<Rightarrow> SecurityOptions \<Rightarrow> string option \<Rightarrow> SecurityPosture \<Rightarrow> 'v server_config \<Rightarrow>
   SecurityPosture \<times> 'v server_config" where
  "configure_plain lib options detail posture config =
     (let (good, config) = set_minimal lib config (so_port options)
      in if good then
           (posture\<lparr>policy_count := policies_size config, allows_unencrypted := True,
              sp_detail := (case detail of Some d \<Rightarrow> d | None \<Rightarrow> sp_detail posture)\<rparr>, config)
         else (posture, config))"

definition configureSecurity ::
  "bool \<Rightarrow> 'v ua_library \<Rightarrow> file_system \<Rightarrow> 'v server_config option \<Rightarrow> SecurityOptions \<Rightarrow>
   SecurityPosture \<times> 'v server_config option" where
  "configureSecurity encryption lib fs server options =
     (let posture = new_SecurityPosture\<lparr>authentication := so_authentication options\<rparr>;
          wants_trust_list = (so_authentication options = kTrustList)
      in case server of
        None \<Rightarrow> (posture\<lparr>sp_detail := ''no server config''\<rparr>, None)
      | Some config \<Rightarrow>
          if encryption then
            if wants_trust_list \<and> allow_unencrypted options then
              (posture\<lparr>sp_detail := ''a trust list cannot be combined with SecurityPolicy#None: the ''
                 @ ''unencrypted endpoint needs no certificate, so it is a way around the ''
                 @ ''trust list rather than a fallback beside it''\<rparr>, Some config)
            else
              let trust_list = (if wants_trust_list then readTrustList fs (trust_list_directory options) else []);
                  posture = posture\<lparr>trusted_certificate_count := length trust_list\<rparr> in
              if wants_trust_list \<and> trust_list = [] then
                (posture\<lparr>sp_detail := ''client authentication was requested but no certificates ''
                   @ ''were loaded from '' @ [CHR 0x27] @ trust_list_directory options @ [CHR 0x27]
                   @ ''; checking against nothing is not a policy''\<rparr>, Some config)
              else
                case own_identity lib fs options of
                  None \<Rightarrow>
                    let posture = posture\<lparr>sp_detail := ''could not generate a certificate''\<rparr> in
                    if \<not> allow_unencrypted options then (posture, Some config)
                    else map_prod id Some (configure_plain lib options None posture config)
                | Some (org, detail, cert, key) \<Rightarrow>
                    let posture = posture\<lparr>origin := org, sp_detail := detail\<rparr>;
                        (good, config) = set_default_with_security lib config (so_port options) cert key trust_list
                    in if \<not> good then
                         (posture\<lparr>origin := kNone, sp_detail := ''could not apply security policies''\<rparr>, Some config)
                       else map_prod id Some (finish_security lib options posture config)
          else
            if wants_trust_list then
              (posture\<lparr>sp_detail := ''client authentication needs a crypto backend, and this build has none''\<rparr>, Some config)
            else if \<not> allow_unencrypted options then
              (posture\<lparr>sp_detail := ''built without a crypto backend and unencrypted use not permitted''\<rparr>, Some config)
            else
              map_prod id Some (configure_plain lib options (Some ''built without a crypto backend'') posture config))"

section \<open>Dropping endpoints\<close>

definition live_endpoints :: "'v server_config \<Rightarrow> endpoint list" where
  "live_endpoints config = take (endpoints_size config) (endpoints config)"

definition encrypted :: "endpoint \<Rightarrow> bool" where
  "encrypted e \<longleftrightarrow> security_mode e \<noteq> Mode_None"

lemma drop_loop_result:
  assumes "sz \<le> length eps" and "kept \<le> i" and "i \<le> sz"
  shows "\<exists>eps'. drop_loop sz i kept removed eps =
      (removed + length (filter (\<lambda>e. \<not> encrypted e) (drop i (take sz eps))),
       kept + length (filter encrypted (drop i (take sz eps))), eps') \<and>
    length eps' = length eps \<and>
    take (kept + length (filter encrypted (drop i (take sz eps)))) eps' = take kept eps @ filter encrypted (drop i (take sz eps))"
  using assms
proof (induction "sz - i" arbitrary: i kept removed eps)
  case 0
  then have "i = sz" by simp
  then show ?case using 0 by (subst drop_loop.simps) simp
next
  case (Suc d)
  then have i: "i < sz" by simp
  then have here: "drop i (take sz eps) = eps ! i # drop (Suc i) (take sz eps)"
    using Suc.prems by (subst Cons_nth_drop_Suc [symmetric]) simp_all
  have d: "d = sz - Suc i" using Suc.hyps(2) by simp
  show ?case
  proof (cases "encrypted (eps ! i)")
    case False
    then have "drop_loop sz i kept removed eps = drop_loop sz (Suc i) kept (removed + 1) eps"
      using i by (subst drop_loop.simps) (simp add: encrypted_def)
    then show ?thesis
      using Suc.hyps(1) [OF d, of eps kept "removed + 1"] Suc.prems i False here by simp
  next
    case True
    define eps2 where "eps2 = (if kept \<noteq> i then eps[kept := eps ! i] else eps)"
    have len: "length eps2 = length eps" by (simp add: eps2_def)
    have step: "drop_loop sz i kept removed eps = drop_loop sz (Suc i) (Suc kept) removed eps2"
      using i True by (subst drop_loop.simps) (simp add: encrypted_def eps2_def)
    have rest: "drop (Suc i) (take sz eps2) = drop (Suc i) (take sz eps)"
      using Suc.prems by (auto simp: eps2_def take_update_swap drop_update_cancel)
    have front: "take (Suc kept) eps2 = take kept eps @ [eps ! i]"
      using Suc.prems i by (auto simp: eps2_def take_Suc_conv_app_nth)
    show ?thesis
      using Suc.hyps(1) [OF d, of eps2 "Suc kept" removed] Suc.prems i True here
      by (simp add: step rest front len)
  qed
qed

lemma dropUnencryptedEndpoints_filter:
  assumes "endpoints_size config \<le> length (endpoints config)"
  shows "live_endpoints (snd (dropUnencryptedEndpoints config)) = filter encrypted (live_endpoints config) \<and>
    fst (dropUnencryptedEndpoints config) = length (filter (\<lambda>e. \<not> encrypted e) (live_endpoints config))"
  using drop_loop_result [OF assms, of 0 0 0]
  by (auto simp: dropUnencryptedEndpoints_def live_endpoints_def)

section \<open>Accepted configurations\<close>

text \<open>What the library promises of the arrays it sets up.\<close>

definition library_ok :: "'v ua_library \<Rightarrow> bool" where
  "library_ok lib \<longleftrightarrow> (\<forall>c p cert key tl good c'.
     set_default_with_security lib c p cert key tl = (good, c') \<longrightarrow> endpoints_size c' \<le> length (endpoints c'))"

text \<open>
  A posture with a policy, where plaintext was not allowed, comes from the encrypted
  branch: the library was given an identity and the trust list, and the rest was done.
\<close>

lemma accepted_encrypted:
  assumes "configureSecurity encryption lib fs (Some cfg) options = (posture, Some cfg')"
    and "policy_count posture \<noteq> 0" and "\<not> allow_unencrypted options"
  obtains org detail cert key cfg1 where "encryption" and "own_identity lib fs options = Some (org, detail, cert, key)"
    and "set_default_with_security lib cfg (so_port options) cert key
      (if so_authentication options = kTrustList then readTrustList fs (trust_list_directory options) else []) = (True, cfg1)"
    and "so_authentication options = kTrustList \<longrightarrow> readTrustList fs (trust_list_directory options) \<noteq> []"
    and "(posture, cfg') = finish_security lib options
      (new_SecurityPosture\<lparr>authentication := so_authentication options,
         trusted_certificate_count := length (if so_authentication options = kTrustList
           then readTrustList fs (trust_list_directory options) else []),
         origin := org, sp_detail := detail\<rparr>) cfg1"
proof -
  let ?tl = "if so_authentication options = kTrustList then readTrustList fs (trust_list_directory options) else []"
  have enc: "encryption"
    using assms by (auto simp: configureSecurity_def Let_def new_SecurityPosture_def split: if_splits)
  have nonempty: "so_authentication options = kTrustList \<longrightarrow> readTrustList fs (trust_list_directory options) \<noteq> []"
    using assms enc by (auto simp: configureSecurity_def Let_def new_SecurityPosture_def)
  show thesis
  proof (cases "own_identity lib fs options")
    case None
    then show thesis
      using assms enc nonempty by (auto simp: configureSecurity_def Let_def new_SecurityPosture_def split: if_splits)
  next
    case (Some id)
    obtain org detail cert key where id: "id = (org, detail, cert, key)" by (metis prod_cases4)
    obtain good cfg1 where set: "set_default_with_security lib cfg (so_port options) cert key ?tl = (good, cfg1)" by fastforce
    have "good"
      using assms enc nonempty Some id set by (auto simp: configureSecurity_def Let_def new_SecurityPosture_def split: if_splits)
    then show thesis
      using assms enc nonempty Some id set that [of org detail cert key cfg1]
      by (auto simp: configureSecurity_def Let_def map_prod_def split: prod.splits if_splits)
  qed
qed

lemma claim_identity_live:
  "endpoints_size c \<le> length (endpoints c) \<Longrightarrow>
   live_endpoints (claim_identity c) = map (\<lambda>e. e\<lparr>server_uri := kApplicationUri\<rparr>) (live_endpoints c)"
  by (simp add: live_endpoints_def claim_identity_def)

lemma drop_frame [simp]:
  "application_uri (snd (dropUnencryptedEndpoints c)) = application_uri c"
  "secure_channel_pki (snd (dropUnencryptedEndpoints c)) = secure_channel_pki c"
  "session_pki (snd (dropUnencryptedEndpoints c)) = session_pki c"
  "policies_size (snd (dropUnencryptedEndpoints c)) = policies_size c"
  by (simp_all add: dropUnencryptedEndpoints_def Let_def split: prod.splits)

lemma finish_security_result:
  assumes "finish_security lib options posture cfg = (posture', cfg')" and "\<not> allow_unencrypted options"
    and "endpoints_size cfg \<le> length (endpoints cfg)"
  shows "live_endpoints cfg' = filter encrypted (map (\<lambda>e. e\<lparr>server_uri := kApplicationUri\<rparr>) (live_endpoints cfg)) \<and>
    application_uri cfg' = kApplicationUri \<and> \<not> allows_unencrypted posture' \<and> origin posture' = origin posture \<and>
    trusted_certificate_count posture' = trusted_certificate_count posture \<and>
    (so_authentication options = kTrustList \<longrightarrow>
      secure_channel_pki cfg' = secure_channel_pki cfg \<and> session_pki cfg' = session_pki cfg)"
proof -
  define c1 where "c1 = (if so_authentication options = kTrustList then claim_identity cfg
    else (claim_identity cfg)\<lparr>secure_channel_pki := accept_all lib (secure_channel_pki (claim_identity cfg)),
                       session_pki := accept_all lib (session_pki (claim_identity cfg))\<rparr>)"
  have c1: "endpoints_size c1 \<le> length (endpoints c1)"
    "live_endpoints c1 = map (\<lambda>e. e\<lparr>server_uri := kApplicationUri\<rparr>) (live_endpoints cfg)"
    "application_uri c1 = kApplicationUri"
    "so_authentication options = kTrustList \<Longrightarrow> secure_channel_pki c1 = secure_channel_pki cfg \<and> session_pki c1 = session_pki cfg"
    using assms(3) by (simp_all add: c1_def claim_identity_def live_endpoints_def)
  have "cfg' = snd (dropUnencryptedEndpoints c1)"
    using assms(1,2) by (auto simp: finish_security_def c1_def Let_def split: if_splits prod.splits)
  moreover have "\<not> allows_unencrypted posture' \<and> origin posture' = origin posture \<and>
    trusted_certificate_count posture' = trusted_certificate_count posture"
    using assms(1,2) by (auto simp: finish_security_def Let_def split: if_splits prod.splits)
  ultimately show ?thesis using dropUnencryptedEndpoints_filter [OF c1(1)] c1 by simp
qed

lemma own_identity_origin: "own_identity lib fs options = Some (org, detail, cert, key) \<Longrightarrow> org \<noteq> kNone"
  by (auto simp: own_identity_def Let_def split: if_splits option.splits)

text \<open>What an accepted configuration is, in terms of what the library set up.\<close>

lemma accepted_result:
  assumes "configureSecurity encryption lib fs (Some cfg) options = (posture, Some cfg')"
    and "policy_count posture \<noteq> 0" and "\<not> allow_unencrypted options" and "library_ok lib"
  obtains cert key tl cfg1 where "encryption" and "origin posture \<noteq> kNone" and "\<not> allows_unencrypted posture"
    and "set_default_with_security lib cfg (so_port options) cert key tl = (True, cfg1)"
    and "live_endpoints cfg' = map (\<lambda>e. e\<lparr>server_uri := kApplicationUri\<rparr>) (filter encrypted (live_endpoints cfg1))"
    and "application_uri cfg' = kApplicationUri"
    and "so_authentication options = kTrustList \<Longrightarrow>
      tl = readTrustList fs (trust_list_directory options) \<and> tl \<noteq> [] \<and> trusted_certificate_count posture = length tl \<and>
      secure_channel_pki cfg' = secure_channel_pki cfg1 \<and> session_pki cfg' = session_pki cfg1"
proof -
  let ?tl = "if so_authentication options = kTrustList then readTrustList fs (trust_list_directory options) else []"
  obtain org detail cert key cfg1 where acc: "encryption" "own_identity lib fs options = Some (org, detail, cert, key)"
    "set_default_with_security lib cfg (so_port options) cert key ?tl = (True, cfg1)"
    "so_authentication options = kTrustList \<longrightarrow> readTrustList fs (trust_list_directory options) \<noteq> []"
    "(posture, cfg') = finish_security lib options
      (new_SecurityPosture\<lparr>authentication := so_authentication options,
         trusted_certificate_count := length ?tl, origin := org, sp_detail := detail\<rparr>) cfg1"
    using accepted_encrypted [OF assms(1-3)] by metis
  have "endpoints_size cfg1 \<le> length (endpoints cfg1)"
    using assms(4) acc(3) unfolding library_ok_def by blast
  note fin = finish_security_result [OF acc(5) [symmetric] assms(3) this]
  have "filter encrypted (map (\<lambda>e. e\<lparr>server_uri := kApplicationUri\<rparr>) es) =
      map (\<lambda>e. e\<lparr>server_uri := kApplicationUri\<rparr>) (filter encrypted es)" for es
    by (induction es) (simp_all add: encrypted_def)
  then show thesis
    using that [OF acc(1) _ _ acc(3)] acc(4) fin own_identity_origin [OF acc(2)] by (simp add: new_SecurityPosture_def)
qed

lemma trust_list_excludes_plaintext:
  assumes "configureSecurity encryption lib fs (Some cfg) options = (posture, cfg')" and "policy_count posture \<noteq> 0"
    and "so_authentication options = kTrustList"
  shows "\<not> allow_unencrypted options"
  using assms by (auto simp: configureSecurity_def Let_def new_SecurityPosture_def split: if_splits)

section \<open>Properties\<close>


text \<open>
  The probe encrypts, and verifies the server unless told not to.  A configuration
  it accepts signs and encrypts; it reports the server's certificate as verified exactly if
  the insecure switch is off, and then the verification is the one the library built from
  the certificates of the named directory, of which there is at least one.
\<close>

theorem probe_verifies_server:
  assumes "configureServerVerification encryption lib fs (Some c) options = (posture, Some c')"
    and "configured posture"
  shows "encryption \<and> client_mode c' = Mode_SignAndEncrypt \<and>
    verifies_server_certificate posture = (\<not> insecure_accept_any_certificate options) \<and>
    (verifies_server_certificate posture \<longrightarrow>
      (let tl = readTrustList fs (sv_trust_list_directory options) in
       tl \<noteq> [] \<and> sv_trusted_certificate_count posture = length tl \<and>
       verification_trustlist lib (certificate_verification c) tl = (None, certificate_verification c')))"
  using assms by (auto simp: configureServerVerification_def new_ServerVerificationPosture_def Let_def
      split: if_splits prod.splits option.splits)

text \<open>
  A library whose verification is the list it trusts, nothing standing for any certificate,
  and which offers an endpoint of each mode; and a directory with one certificate.
\<close>

definition listed_library :: "byte_string list option ua_library" where
  "listed_library =
     \<lparr>create_certificate = (\<lambda>_ _. Some ([1], [2])),
      set_default_with_security = (\<lambda>c _ _ _ tl. (True, c\<lparr>
        endpoints := [\<lparr>security_mode = Mode_None, server_uri = []\<rparr>, \<lparr>security_mode = Mode_Sign, server_uri = []\<rparr>,
          \<lparr>security_mode = Mode_SignAndEncrypt, server_uri = []\<rparr>],
        endpoints_size := 3, policies_size := 3, secure_channel_pki := Some tl, session_pki := Some tl\<rparr>)),
      set_minimal = (\<lambda>c _. (True, c)),
      accept_all = (\<lambda>_. None),
      verification_trustlist = (\<lambda>_ tl. (None, Some tl))\<rparr>"

definition one_certificate :: file_system where
  "one_certificate =
     \<lparr>file_at = (\<lambda>_. \<lparr>opened = True, file_size = 2, allocated = True, content = [7, 8]\<rparr>),
      directory_at = (\<lambda>_. (False, [\<lparr>entry_path = ''t/a.der'', regular = True, stat_failed = False\<rparr>]))\<rparr>"

definition empty_config :: "byte_string list option server_config" where
  "empty_config =
     \<lparr>endpoints = [], endpoints_size = 0, policies_size = 0, application_uri = [], secure_channel_pki = None, session_pki = None\<rparr>"

definition trusted_options :: SecurityOptions where
  "trusted_options = default_SecurityOptions\<lparr>trust_list_directory := ''t'', so_authentication := kTrustList\<rparr>"

definition trusted_server :: "SecurityPosture \<times> byte_string list option server_config option" where
  "trusted_server = configureSecurity True listed_library one_certificate (Some empty_config) trusted_options"

definition trusting_probe :: "ServerVerificationPosture \<times> byte_string list option client_config option" where
  "trusting_probe = configureServerVerification True listed_library one_certificate
     (Some \<lparr>client_mode = Mode_None, certificate_verification = None\<rparr>)
     \<lparr>sv_trust_list_directory = ''t'', insecure_accept_any_certificate = False\<rparr>"

lemma listed_library_ok: "library_ok listed_library"
  by (auto simp: library_ok_def listed_library_def)

lemma one_certificate_read: "readTrustList one_certificate ''t'' = [[7, 8]]"
  by code_simp


theorem probe_verifies_server_witness:
  "configured (fst trusting_probe) \<and> verifies_server_certificate (fst trusting_probe) \<and>
   certificate_verification (the (snd trusting_probe)) = Some [[7, 8]]"
proof -
  have run: "configureServerVerification True listed_library one_certificate
      (Some \<lparr>client_mode = Mode_None, certificate_verification = None\<rparr>)
      \<lparr>sv_trust_list_directory = ''t'', insecure_accept_any_certificate = False\<rparr> =
      (fst trusting_probe, Some (the (snd trusting_probe)))"
    and conf: "configured (fst trusting_probe)"
    by code_simp+
  show ?thesis
    using probe_verifies_server [OF run conf] conf
    by (simp add: Let_def one_certificate_read) (simp add: listed_library_def)
qed

end
