(* ===== verification/Opcua_View.thy ===== *)
theory Opcua_View
  imports Safeedged Opcua_Security
begin

text \<open>
  The OPC UA view of the runtime, in its own process: the address space
  (\<open>include/safeedge/opcua/address_space.hpp\<close>, \<open>src/opcua/address_space.cpp\<close>), the
  transition events (\<open>include/safeedge/opcua/events.hpp\<close>, \<open>src/opcua/events.cpp\<close>), and the
  program with its startup and its publishing thread (\<open>src/apps/safeedge_opcua.cpp\<close>).
  The OPC UA server is a record of its functions over a state of its own, and what the
  program relies on of it is stated with the theorems.  The theory shows what a client
  reads after a publication, that the events account for every transition of the control
  loop, and on what terms the server starts.
\<close>

section \<open>Model\<close>

subsection \<open>The library\<close>

text \<open>Identifiers of the base namespace are named as the library names them.\<close>

datatype ns0 = OBJECTSFOLDER | ORGANIZES | BASEOBJECTTYPE | HASCOMPONENT | BASEDATAVARIABLETYPE | HASPROPERTY
  | PROPERTYTYPE | HASMODELLINGRULE | MODELLINGRULE_MANDATORY | BASEEVENTTYPE | HASSUBTYPE | SERVER

datatype node_id = Numeric u16 u32 | Base ns0 | Generated string

datatype ua_type = T_UINT16 | T_UINT32 | T_UINT64 | T_INT64 | T_DOUBLE | T_BOOLEAN | T_LOCALIZEDTEXT

datatype ua_scalar = UInt16 u16 | UInt32 u32 | UInt64 u64 | Int64 int | Double double | Boolean bool
  | LocalizedText string string

type_synonym qualified_name = "u16 \<times> string"

datatype status_code = GOOD | BADNODATA

record data_value =
  dv_value :: ua_scalar
  dv_type :: ua_type
  has_value :: bool
  dv_status :: status_code
  has_status :: bool
  source_timestamp :: int
  has_source_timestamp :: bool

record new_node =
  requested :: node_id
  parent :: node_id
  reference :: node_id
  browse_name :: qualified_name
  type_definition :: "node_id option"
  display_name :: "string \<times> string"

text \<open>Of the attributes of a variable, what the code sets; \<open>None\<close> is the default.\<close>

record variable_attributes =
  data_type :: ua_type
  read_only :: "bool option"
  scalar_rank :: bool

text \<open>The functions of the server.  A truth value is whether the status is good.\<close>

record 's ua_server =
  date_time_now :: "'s \<Rightarrow> int \<times> 's"
  add_namespace :: "'s \<Rightarrow> string \<Rightarrow> u16 \<times> 's"
  add_object_node :: "'s \<Rightarrow> new_node \<Rightarrow> bool \<times> 's"
  add_object_type_node :: "'s \<Rightarrow> new_node \<Rightarrow> bool \<times> 's"
  add_variable_node :: "'s \<Rightarrow> new_node \<Rightarrow> variable_attributes \<Rightarrow> bool \<times> 's"
  add_reference :: "'s \<Rightarrow> node_id \<Rightarrow> node_id \<Rightarrow> node_id \<Rightarrow> bool \<Rightarrow> bool \<times> 's"
  write_data_value :: "'s \<Rightarrow> node_id \<Rightarrow> data_value \<Rightarrow> bool \<times> 's"
  create_event :: "'s \<Rightarrow> node_id \<Rightarrow> node_id option \<times> 's"
  write_property :: "'s \<Rightarrow> node_id \<Rightarrow> qualified_name \<Rightarrow> ua_scalar \<Rightarrow> ua_type \<Rightarrow> bool \<times> 's"
  trigger_event :: "'s \<Rightarrow> node_id \<Rightarrow> node_id \<Rightarrow> bool \<Rightarrow> bool \<times> 's"

subsection \<open>The address space\<close>

datatype NodeNumber = kRuntimeObject
  | kSafetyState | kTorquePermitted | kFaultLatched | kFaultReason | kEstopAsserted | kSafetySequence
  | kSafetyStateAgeSeconds | kSafetyTransitionMonotonicNs
  | kCyclesExecuted | kOverruns | kJitterP99Ns | kJitterMaxNs | kRealtimeSchedulingGranted | kUptimeSeconds
  | kSafetyTransitionEventType | kEventTransitionMonotonicNs | kEventSafetySequence | kEventTorquePermitted
  | kEventSafetyState | kEventMissedTransitions

fun node_number :: "NodeNumber \<Rightarrow> u32" where
  "node_number kRuntimeObject = 1000"
| "node_number kSafetyState = 1001"
| "node_number kTorquePermitted = 1002"
| "node_number kFaultLatched = 1003"
| "node_number kFaultReason = 1004"
| "node_number kEstopAsserted = 1005"
| "node_number kSafetySequence = 1006"
| "node_number kSafetyStateAgeSeconds = 1007"
| "node_number kSafetyTransitionMonotonicNs = 1008"
| "node_number kCyclesExecuted = 1010"
| "node_number kOverruns = 1011"
| "node_number kJitterP99Ns = 1012"
| "node_number kJitterMaxNs = 1013"
| "node_number kRealtimeSchedulingGranted = 1014"
| "node_number kUptimeSeconds = 1015"
| "node_number kSafetyTransitionEventType = 1100"
| "node_number kEventTransitionMonotonicNs = 1101"
| "node_number kEventSafetySequence = 1102"
| "node_number kEventTorquePermitted = 1103"
| "node_number kEventSafetyState = 1104"
| "node_number kEventMissedTransitions = 1105"

definition kRuntimeObjectName :: string where
  "kRuntimeObjectName = ''SafeEdgeRuntime''"

definition kNamespaceUri :: string where
  "kNamespaceUri = ''urn:safeedge:runtime''"

text \<open>The index of the namespace is a variable of the process; here it is passed along.\<close>

definition nodeIdOf :: "u16 \<Rightarrow> NodeNumber \<Rightarrow> node_id" where
  "nodeIdOf ns number = Numeric ns (node_number number)"

record VariableSpec =
  v_number :: NodeNumber
  v_name :: string
  v_type :: ua_type

definition specs :: "VariableSpec list" where
  "specs =
     [\<lparr>v_number = kSafetyState, v_name = ''SafetyState'', v_type = T_UINT32\<rparr>,
      \<lparr>v_number = kTorquePermitted, v_name = ''TorquePermitted'', v_type = T_BOOLEAN\<rparr>,
      \<lparr>v_number = kFaultLatched, v_name = ''FaultLatched'', v_type = T_BOOLEAN\<rparr>,
      \<lparr>v_number = kFaultReason, v_name = ''FaultReason'', v_type = T_UINT32\<rparr>,
      \<lparr>v_number = kEstopAsserted, v_name = ''EmergencyStopAsserted'', v_type = T_BOOLEAN\<rparr>,
      \<lparr>v_number = kSafetySequence, v_name = ''SafetySequence'', v_type = T_UINT64\<rparr>,
      \<lparr>v_number = kSafetyStateAgeSeconds, v_name = ''SafetyStateAgeSeconds'', v_type = T_DOUBLE\<rparr>,
      \<lparr>v_number = kSafetyTransitionMonotonicNs, v_name = ''SafetyTransitionMonotonicNanoseconds'', v_type = T_INT64\<rparr>,
      \<lparr>v_number = kCyclesExecuted, v_name = ''CyclesExecuted'', v_type = T_UINT64\<rparr>,
      \<lparr>v_number = kOverruns, v_name = ''Overruns'', v_type = T_UINT64\<rparr>,
      \<lparr>v_number = kJitterP99Ns, v_name = ''WakeupJitterP99Nanoseconds'', v_type = T_INT64\<rparr>,
      \<lparr>v_number = kJitterMaxNs, v_name = ''WakeupJitterMaxNanoseconds'', v_type = T_INT64\<rparr>,
      \<lparr>v_number = kRealtimeSchedulingGranted, v_name = ''RealtimeSchedulingGranted'', v_type = T_BOOLEAN\<rparr>,
      \<lparr>v_number = kUptimeSeconds, v_name = ''UptimeSeconds'', v_type = T_DOUBLE\<rparr>]"

definition writeValue ::
  "'s ua_server \<Rightarrow> u16 \<Rightarrow> NodeNumber \<Rightarrow> ua_type \<Rightarrow> ua_scalar \<Rightarrow> bool \<Rightarrow> 's \<Rightarrow> 's" where
  "writeValue srv ns number ty v fresh s =
     (let node = nodeIdOf ns number;
          (now, s) = date_time_now srv s;
          data = \<lparr>dv_value = v, dv_type = ty, has_value = True, dv_status = (if fresh then GOOD else BADNODATA),
                  has_status = True, source_timestamp = now, has_source_timestamp = True\<rparr>
      in snd (write_data_value srv s node data))"

definition addVariable :: "'s ua_server \<Rightarrow> u16 \<Rightarrow> VariableSpec \<Rightarrow> 's \<Rightarrow> bool \<times> 's" where
  "addVariable srv ns spec s =
     add_variable_node srv s
       \<lparr>requested = nodeIdOf ns (v_number spec), parent = nodeIdOf ns kRuntimeObject, reference = Base HASCOMPONENT,
        browse_name = (ns, v_name spec), type_definition = Some (Base BASEDATAVARIABLETYPE),
        display_name = (''en-US'', v_name spec)\<rparr>
       \<lparr>data_type = v_type spec, read_only = Some True, scalar_rank = True\<rparr>"

text \<open>The loops that add one node after another and stop at the first failure.\<close>

fun add_all :: "('a \<Rightarrow> 's \<Rightarrow> bool \<times> 's) \<Rightarrow> 'a list \<Rightarrow> 's \<Rightarrow> bool \<times> 's" where
  "add_all add [] s = (True, s)"
| "add_all add (x # xs) s = (let (ok, s) = add x s in if ok then add_all add xs s else (False, s))"

text \<open>No server is \<open>None\<close>.  The result: success, the namespace index and the server.\<close>

definition buildAddressSpace :: "'s ua_server \<Rightarrow> u16 \<Rightarrow> 's option \<Rightarrow> bool \<times> u16 \<times> 's option" where
  "buildAddressSpace srv ns server =
     (case server of
        None \<Rightarrow> (False, ns, None)
      | Some s \<Rightarrow>
          let (ns, s) = add_namespace srv s kNamespaceUri in
          if ns = 0 then (False, ns, Some s)
          else
            let (ok, s) = add_object_node srv s
                  \<lparr>requested = nodeIdOf ns kRuntimeObject, parent = Base OBJECTSFOLDER, reference = Base ORGANIZES,
                   browse_name = (ns, kRuntimeObjectName), type_definition = Some (Base BASEOBJECTTYPE),
                   display_name = (''en-US'', kRuntimeObjectName)\<rparr> in
            if \<not> ok then (False, ns, Some s)
            else let (ok, s) = add_all (addVariable srv ns) specs s in (ok, ns, Some s))"

definition snapshot_values :: "RuntimeSnapshot \<Rightarrow> (NodeNumber \<times> ua_type \<times> ua_scalar) list" where
  "snapshot_values s =
     [(kSafetyState, T_UINT32, UInt32 (s_safety_state s)),
      (kTorquePermitted, T_BOOLEAN, Boolean (s_torque_permitted s \<noteq> 0)),
      (kFaultLatched, T_BOOLEAN, Boolean (s_fault_latched s \<noteq> 0)),
      (kFaultReason, T_UINT32, UInt32 (s_fault_reason s)),
      (kEstopAsserted, T_BOOLEAN, Boolean (s_estop_asserted s \<noteq> 0)),
      (kSafetySequence, T_UINT64, UInt64 (s_safety_sequence s)),
      (kSafetyStateAgeSeconds, T_DOUBLE, Double (seconds (uint (s_safety_state_age_ns s)))),
      (kSafetyTransitionMonotonicNs, T_INT64, Int64 (sint (s_safety_transition_monotonic_ns s))),
      (kCyclesExecuted, T_UINT64, UInt64 (s_cycles_executed s)),
      (kOverruns, T_UINT64, UInt64 (s_overruns s)),
      (kJitterP99Ns, T_INT64, Int64 (s_jitter_p99_ns s)),
      (kJitterMaxNs, T_INT64, Int64 (s_jitter_max_ns s)),
      (kRealtimeSchedulingGranted, T_BOOLEAN, Boolean (s_realtime_scheduling_granted s \<noteq> 0)),
      (kUptimeSeconds, T_DOUBLE, Double (seconds (s_uptime_ns s)))]"

definition publishSnapshot :: "'s ua_server \<Rightarrow> u16 \<Rightarrow> 's option \<Rightarrow> RuntimeSnapshot \<Rightarrow> bool \<Rightarrow> 's option" where
  "publishSnapshot srv ns server snapshot fresh =
     map_option (fold (\<lambda>(number, ty, v). writeValue srv ns number ty v fresh) (snapshot_values snapshot)) server"

subsection \<open>Events\<close>

record SafetyTransitionEvent =
  transition_monotonic_ns :: int
  ev_safety_sequence :: u64
  missed_transitions :: u64
  ev_safety_state :: u32
  ev_torque_permitted :: bool

definition kSafetyEventTypeName :: string where
  "kSafetyEventTypeName = ''SafetyTransitionEventType''"

definition addField :: "'s ua_server \<Rightarrow> u16 \<Rightarrow> VariableSpec \<Rightarrow> 's \<Rightarrow> bool \<times> 's" where
  "addField srv ns spec s =
     (let field = nodeIdOf ns (v_number spec);
          (ok, s) = add_variable_node srv s
            \<lparr>requested = field, parent = nodeIdOf ns kSafetyTransitionEventType, reference = Base HASPROPERTY,
             browse_name = (ns, v_name spec), type_definition = Some (Base PROPERTYTYPE),
             display_name = (''en-US'', v_name spec)\<rparr>
            \<lparr>data_type = v_type spec, read_only = None, scalar_rank = True\<rparr>
      in if \<not> ok then (False, s)
         else add_reference srv s field (Base HASMODELLINGRULE) (Base MODELLINGRULE_MANDATORY) True)"

definition event_fields :: "VariableSpec list" where
  "event_fields =
     [\<lparr>v_number = kEventTransitionMonotonicNs, v_name = ''TransitionMonotonicNanoseconds'', v_type = T_INT64\<rparr>,
      \<lparr>v_number = kEventSafetySequence, v_name = ''SafetySequence'', v_type = T_UINT64\<rparr>,
      \<lparr>v_number = kEventMissedTransitions, v_name = ''MissedTransitions'', v_type = T_UINT64\<rparr>,
      \<lparr>v_number = kEventSafetyState, v_name = ''SafetyState'', v_type = T_UINT32\<rparr>,
      \<lparr>v_number = kEventTorquePermitted, v_name = ''TorquePermitted'', v_type = T_BOOLEAN\<rparr>]"

definition buildEventType :: "'s ua_server \<Rightarrow> u16 \<Rightarrow> 's option \<Rightarrow> bool \<times> 's option" where
  "buildEventType srv ns server =
     (case server of
        None \<Rightarrow> (False, None)
      | Some s \<Rightarrow>
          if ns = 0 then (False, Some s)
          else
            let (ok, s) = add_object_type_node srv s
                  \<lparr>requested = nodeIdOf ns kSafetyTransitionEventType, parent = Base BASEEVENTTYPE,
                   reference = Base HASSUBTYPE, browse_name = (ns, kSafetyEventTypeName), type_definition = None,
                   display_name = (''en-US'', kSafetyEventTypeName)\<rparr> in
            if \<not> ok then (False, Some s)
            else let (ok, s) = add_all (addField srv ns) event_fields s in (ok, Some s))"

definition describeTransition :: "RuntimeSnapshot \<Rightarrow> u64 \<Rightarrow> SafetyTransitionEvent" where
  "describeTransition snapshot previous_sequence =
     (let advanced = s_safety_sequence snapshot - previous_sequence
      in \<lparr>transition_monotonic_ns = sint (s_safety_transition_monotonic_ns snapshot),
          ev_safety_sequence = s_safety_sequence snapshot,
          missed_transitions = (if 1 < advanced then advanced - 1 else 0),
          ev_safety_state = s_safety_state snapshot, ev_torque_permitted = (s_torque_permitted snapshot \<noteq> 0)\<rparr>)"

text \<open>The fields an event writes in the namespace of the server, in order.\<close>

definition own_fields :: "u16 \<Rightarrow> SafetyTransitionEvent \<Rightarrow> (qualified_name \<times> ua_scalar \<times> ua_type) list" where
  "own_fields own event =
     [((own, ''TransitionMonotonicNanoseconds''), Int64 (transition_monotonic_ns event), T_INT64),
      ((own, ''SafetySequence''), UInt64 (ev_safety_sequence event), T_UINT64),
      ((own, ''MissedTransitions''), UInt64 (missed_transitions event), T_UINT64),
      ((own, ''SafetyState''), UInt32 (ev_safety_state event), T_UINT32),
      ((own, ''TorquePermitted''), Boolean (ev_torque_permitted event), T_BOOLEAN)]"

definition event_severity :: "SafetyTransitionEvent \<Rightarrow> u16" where
  "event_severity event = (if ev_torque_permitted event then 100 else 500)"

definition event_message :: "SafetyTransitionEvent \<Rightarrow> string" where
  "event_message event =
     ''safety transition: torque '' @ (if ev_torque_permitted event then ''permitted'' else ''not permitted'')
     @ '', sequence '' @ decimal (unat (ev_safety_sequence event))
     @ (if 0 < missed_transitions event
        then '', '' @ decimal (unat (missed_transitions event)) @ '' transition(s) coalesced'' else [])"

definition fireSafetyTransition ::
  "'s ua_server \<Rightarrow> u16 \<Rightarrow> 's option \<Rightarrow> SafetyTransitionEvent \<Rightarrow> bool \<times> 's option" where
  "fireSafetyTransition srv ns server event =
     (case server of
        None \<Rightarrow> (False, None)
      | Some s \<Rightarrow>
          if ns = 0 then (False, Some s)
          else
            case create_event srv s (nodeIdOf ns kSafetyTransitionEventType) of
              (None, s) \<Rightarrow> (False, Some s)
            | (Some inst, s) \<Rightarrow>
                let put = (\<lambda>(name, v, ty) s. write_property srv s inst name v ty);
                    (ok, s) = add_all put (own_fields ns event) s;
                    (severity_ok, s) = put ((0, ''Severity''), UInt16 (event_severity event), T_UINT16) s;
                    ok = (severity_ok \<and> ok);
                    (message_ok, s) = put ((0, ''Message''), LocalizedText ''en-US'' (event_message event), T_LOCALIZEDTEXT) s;
                    ok = (message_ok \<and> ok);
                    (triggered, s) = trigger_event srv s inst (Base SERVER) True
                in (ok \<and> triggered, Some s))"

subsection \<open>The publishing thread\<close>

record publisher =
  have_sequence :: bool
  last_sequence :: u64

definition new_publisher :: publisher where
  "new_publisher = \<lparr>have_sequence = False, last_sequence = 0\<rparr>"

text \<open>
  One pass, given what \<open>tryLoad\<close> found in the slot: the event it describes, if any, with
  whether it could be fired, and the thread's variables and the server afterwards.
\<close>

definition publisher_pass ::
  "'s ua_server \<Rightarrow> u16 \<Rightarrow> RuntimeSnapshot option \<Rightarrow> publisher \<times> 's option \<Rightarrow>
   (SafetyTransitionEvent \<times> bool) list \<times> publisher \<times> 's option" where
  "publisher_pass srv ns found ps =
     (let (p, s) = ps;
          (snapshot, fresh) = (case found of Some x \<Rightarrow> (x, True) | None \<Rightarrow> (new_RuntimeSnapshot, False));
          s = publishSnapshot srv ns s snapshot fresh
      in if fresh then
           if \<not> have_sequence p then
             ([], \<lparr>have_sequence = True, last_sequence = s_safety_sequence snapshot\<rparr>, s)
           else if s_safety_sequence snapshot \<noteq> last_sequence p then
             let event = describeTransition snapshot (last_sequence p);
                 p = p\<lparr>last_sequence := s_safety_sequence snapshot\<rparr>;
                 (fired, s) = fireSafetyTransition srv ns s event
             in ([(event, fired)], p, s)
           else ([], p, s)
         else ([], p, s))"

text \<open>The passes while the thread is running.\<close>

fun publisher_loop ::
  "'s ua_server \<Rightarrow> u16 \<Rightarrow> RuntimeSnapshot option list \<Rightarrow> publisher \<times> 's option \<Rightarrow>
   (SafetyTransitionEvent \<times> bool) list \<times> publisher \<times> 's option" where
  "publisher_loop srv ns [] ps = ([], ps)"
| "publisher_loop srv ns (found # rest) ps =
     (let (events, ps) = publisher_pass srv ns found ps;
          (more_events, ps) = publisher_loop srv ns rest ps
      in (events @ more_events, ps))"

subsection \<open>The program\<close>

definition opcua_log :: "string \<Rightarrow> string \<Rightarrow> string option \<Rightarrow> string" where
  "opcua_log level msg detail =
     ''{'' @ quoted ''level'' @ '':'' @ quoted level @ '','' @ quoted ''msg'' @ '':'' @ quoted msg
     @ (case detail of Some d \<Rightarrow> '','' @ quoted ''detail'' @ '':'' @ quoted d | None \<Rightarrow> []) @ ''}'' @ nl"

definition opcua_port :: "(string \<Rightarrow> string option) \<Rightarrow> u16" where
  "opcua_port getenv = word_of_int (environmentLong getenv ''SAFEEDGE_OPCUA_PORT'' 4840)"

definition opcua_security :: "(string \<Rightarrow> string option) \<Rightarrow> SecurityOptions" where
  "opcua_security getenv =
     (let trust = environmentString getenv ''SAFEEDGE_OPCUA_TRUSTLIST'' []
      in \<lparr>so_port = opcua_port getenv,
          certificate_path = environmentString getenv ''SAFEEDGE_OPCUA_CERT'' [],
          key_path = environmentString getenv ''SAFEEDGE_OPCUA_KEY'' [],
          trust_list_directory = trust,
          allow_unencrypted = (environmentLong getenv ''SAFEEDGE_OPCUA_INSECURE'' 0 \<noteq> 0),
          so_authentication = (if trust = [] then kAcceptAnyCertificate else kTrustList)\<rparr>)"

text \<open>What the log says of the posture.\<close>

definition posture_log :: "SecurityPosture \<Rightarrow> string list" where
  "posture_log posture =
     [case origin posture of
        kLoadedFromFiles \<Rightarrow> opcua_log ''info'' ''encrypted, stable identity'' (Some (sp_detail posture))
      | kGeneratedSelfSigned \<Rightarrow> opcua_log ''warn'' ''encrypted with a throwaway identity'' (Some (sp_detail posture))
      | kNone \<Rightarrow> opcua_log ''warn'' ''running without encryption'' (Some (sp_detail posture))]
     @ (if allows_unencrypted posture
        then [opcua_log ''warn'' (''SecurityPolicy#None is offered: traffic can be read and forged by ''
          @ ''anyone on this network'') None] else [])
     @ [case authentication posture of
          kTrustList \<Rightarrow> opcua_log ''info'' ''client certificates are checked against the trust list'' None
        | kAcceptAnyCertificate \<Rightarrow> opcua_log ''warn'' (''any client certificate is accepted: set SAFEEDGE_OPCUA_TRUSTLIST ''
            @ ''to restrict who may connect'') None]
     @ (if allows_anonymous posture
        then [opcua_log ''info'' ''anonymous access permitted (the address space is read-only)'' None] else [])"

record ('s, 'v) opcua_process =
  op_region :: SharedMemoryRegion
  op_config :: "'v server_config"
  op_posture :: SecurityPosture
  op_namespace :: u16
  op_server :: 's
  op_publish_ms :: int
  publishing_min :: double
  sampling_min :: double

text \<open>
  Up to the publishing thread: the exit code, with whether the server it had made was
  deleted, or the process; and the log.  \<open>fresh_server\<close> is what \<open>UA_Server_new\<close> gives,
  with its configuration.
\<close>

definition opcua_start ::
  "bool \<Rightarrow> 'v ua_library \<Rightarrow> 's ua_server \<Rightarrow> file_system \<Rightarrow> shm_answers \<Rightarrow> ('s \<times> 'v server_config) option \<Rightarrow>
   (string \<Rightarrow> string option) \<Rightarrow> ((int \<times> bool) + ('s, 'v) opcua_process) \<times> string list" where
  "opcua_start encryption lib srv fs shm fresh_server getenv =
     (let region_name = environmentString getenv ''SAFEEDGE_SNAPSHOT_SHM'' ''/safeedge-runtime'';
          (region, _) = openExisting shm (Some region_name) snapshot_slot_bytes
      in if \<not> valid region then
           (Inl (1, False), [opcua_log ''fatal'' (''snapshot region not available; is safeedged running with ''
              @ ''SAFEEDGE_SNAPSHOT_SHM set?'') (Some region_name)])
         else
           let out = [opcua_log ''info'' ''reading snapshot from shared memory'' (Some region_name)] in
           case fresh_server of
             None \<Rightarrow> (Inl (2, False), out @ [opcua_log ''fatal'' ''could not create the OPC UA server'' None])
           | Some (s, cfg) \<Rightarrow>
               let (posture, cfg) = configureSecurity encryption lib fs (Some cfg) (opcua_security getenv) in
               if policy_count posture = 0 then
                 (Inl (2, True), out @ [opcua_log ''fatal'' ''could not configure security'' (Some (sp_detail posture))])
               else
                 let out = out @ posture_log posture;
                     (ok, ns, server) = buildAddressSpace srv 0 (Some s) in
                 if \<not> ok then (Inl (3, True), out @ [opcua_log ''fatal'' ''could not build the address space'' None])
                 else
                   let (ok, server) = buildEventType srv ns server in
                   if \<not> ok then
                     (Inl (3, True), out @ [opcua_log ''fatal'' ''could not build the safety event type'' None])
                   else
                     (Inr \<lparr>op_region = region, op_config = the cfg, op_posture = posture, op_namespace = ns,
                           op_server = the server,
                           op_publish_ms = environmentLong getenv ''SAFEEDGE_OPCUA_PUBLISH_MS'' 100,
                           publishing_min = Fin 10, sampling_min = Fin 10\<rparr>,
                      out @ [opcua_log ''info'' ''address space ready'' None,
                             opcua_log ''info'' ''listening'' (Some (''opc.tcp://0.0.0.0:'' @ decimal (unat (opcua_port getenv))))]))"

text \<open>
  The two threads from there on.  The main thread runs the server until a signal clears
  its flag, clears the flag of the publishing thread, joins it and deletes the server;
  the publishing thread looks at the flag, makes a pass over the server and sleeps.
\<close>

datatype main_pc = M_Run | M_Store | M_Join | M_Delete | M_Done

datatype pub_pc = P_Check | P_Pass | P_Sleep | P_Done

record view_threads =
  main_at :: main_pc
  pub_at :: pub_pc
  running_flag :: bool
  server_alive :: bool

definition new_view_threads :: view_threads where
  "new_view_threads = \<lparr>main_at = M_Run, pub_at = P_Check, running_flag = True, server_alive = True\<rparr>"

inductive view_step :: "view_threads \<Rightarrow> view_threads \<Rightarrow> bool" where
  run: "main_at t = M_Run \<Longrightarrow> view_step t (t\<lparr>main_at := M_Store\<rparr>)"
| store_flag: "main_at t = M_Store \<Longrightarrow> view_step t (t\<lparr>main_at := M_Join, running_flag := False\<rparr>)"
| join: "main_at t = M_Join \<Longrightarrow> pub_at t = P_Done \<Longrightarrow> view_step t (t\<lparr>main_at := M_Delete\<rparr>)"
| delete: "main_at t = M_Delete \<Longrightarrow> view_step t (t\<lparr>main_at := M_Done, server_alive := False\<rparr>)"
| check: "pub_at t = P_Check \<Longrightarrow> view_step t (t\<lparr>pub_at := (if running_flag t then P_Pass else P_Done)\<rparr>)"
| pass: "pub_at t = P_Pass \<Longrightarrow> view_step t (t\<lparr>pub_at := P_Sleep\<rparr>)"
| sleep: "pub_at t = P_Sleep \<Longrightarrow> view_step t (t\<lparr>pub_at := P_Check\<rparr>)"

code_pred view_step .

inductive_cases view_stepE: "view_step t t'"

section \<open>What a client reads\<close>

fun scalar_type :: "ua_scalar \<Rightarrow> ua_type" where
  "scalar_type (UInt16 _) = T_UINT16"
| "scalar_type (UInt32 _) = T_UINT32"
| "scalar_type (UInt64 _) = T_UINT64"
| "scalar_type (Int64 _) = T_INT64"
| "scalar_type (Double _) = T_DOUBLE"
| "scalar_type (Boolean _) = T_BOOLEAN"
| "scalar_type (LocalizedText _ _) = T_LOCALIZEDTEXT"

text \<open>
  What the program relies on of the server.  \<open>decl\<close> is the type a variable was added
  with and \<open>rd\<close> what a client reads.  Outside of the base namespace only the node of an
  added variable changes, and a value put into a variable is what is read from then on if the
  value has the type it claims and that is the type of the variable.
\<close>

definition keeps :: "('s \<Rightarrow> node_id \<Rightarrow> ua_type option) \<Rightarrow> ('s \<Rightarrow> node_id \<Rightarrow> data_value option) \<Rightarrow> 's \<Rightarrow> 's \<Rightarrow> bool" where
  "keeps decl rd s s' \<longleftrightarrow>
     (\<forall>k m. k \<noteq> 0 \<longrightarrow> decl s' (Numeric k m) = decl s (Numeric k m) \<and> rd s' (Numeric k m) = rd s (Numeric k m))"

definition serves ::
  "'s ua_server \<Rightarrow> ('s \<Rightarrow> node_id \<Rightarrow> ua_type option) \<Rightarrow> ('s \<Rightarrow> node_id \<Rightarrow> data_value option) \<Rightarrow> bool" where
  "serves srv decl rd \<longleftrightarrow>
     (\<forall>s. keeps decl rd s (snd (date_time_now srv s))) \<and>
     (\<forall>s n. keeps decl rd s (snd (add_object_type_node srv s n))) \<and>
     (\<forall>s a r b f. keeps decl rd s (snd (add_reference srv s a r b f))) \<and>
     (\<forall>s n. keeps decl rd s (snd (create_event srv s n))) \<and>
     (\<forall>s i q v ty. keeps decl rd s (snd (write_property srv s i q v ty))) \<and>
     (\<forall>s i n d. keeps decl rd s (snd (trigger_event srv s i n d))) \<and>
     (\<forall>s n a. fst (add_variable_node srv s n a) \<longrightarrow>
        decl (snd (add_variable_node srv s n a)) = (decl s)(requested n \<mapsto> data_type a)) \<and>
     (\<forall>s n d. decl (snd (write_data_value srv s n d)) = decl s) \<and>
     (\<forall>s n d. decl s n = Some (dv_type d) \<and> scalar_type (dv_value d) = dv_type d \<longrightarrow>
        rd (snd (write_data_value srv s n d)) = (rd s)(n \<mapsto> d))"

lemma keeps_refl [simp]: "keeps decl rd s s"
  by (simp add: keeps_def)

lemma keeps_trans: "keeps decl rd s s' \<Longrightarrow> keeps decl rd s' s'' \<Longrightarrow> keeps decl rd s s''"
  by (simp add: keeps_def)

lemma serves_keeps:
  assumes "serves srv decl rd"
  shows "keeps decl rd s (snd (date_time_now srv s))" "keeps decl rd s (snd (add_object_type_node srv s n))"
    "keeps decl rd s (snd (add_reference srv s a r b f))" "keeps decl rd s (snd (create_event srv s x))"
    "keeps decl rd s (snd (write_property srv s i q v ty))" "keeps decl rd s (snd (trigger_event srv s i x d))"
  using assms by (simp_all add: serves_def del: split_paired_All)

lemma serves_variables:
  assumes "serves srv decl rd"
  shows "fst (add_variable_node srv s n a) \<Longrightarrow>
      decl (snd (add_variable_node srv s n a)) = (decl s)(requested n \<mapsto> data_type a)"
    "decl (snd (write_data_value srv s x d)) = decl s"
    "decl s x = Some (dv_type d) \<Longrightarrow> scalar_type (dv_value d) = dv_type d \<Longrightarrow>
      rd (snd (write_data_value srv s x d)) = (rd s)(x \<mapsto> d)"
  using assms by (simp_all add: serves_def del: split_paired_All)

lemma node_number_inject: "node_number a = node_number b \<longleftrightarrow> a = b"
  by (cases a; cases b; simp)

lemma nodeIdOf_inject [simp]: "nodeIdOf ns a = nodeIdOf ns b \<longleftrightarrow> a = b"
  by (simp add: nodeIdOf_def node_number_inject)

text \<open>What a client sees of a node.\<close>

definition client_view :: "('s \<Rightarrow> node_id \<Rightarrow> data_value option) \<Rightarrow> 's \<Rightarrow> u16 \<Rightarrow> NodeNumber \<Rightarrow> (ua_type \<times> ua_scalar \<times> status_code) option" where
  "client_view rd s ns number =
     (case rd s (nodeIdOf ns number) of
        None \<Rightarrow> None
      | Some d \<Rightarrow> if has_value d \<and> has_status d then Some (dv_type d, dv_value d, dv_status d) else None)"

text \<open>The variables of the address space are there, with their types.\<close>

definition declared :: "('s \<Rightarrow> node_id \<Rightarrow> ua_type option) \<Rightarrow> 's \<Rightarrow> u16 \<Rightarrow> bool" where
  "declared decl s ns \<longleftrightarrow> list_all (\<lambda>spec. decl s (nodeIdOf ns (v_number spec)) = Some (v_type spec)) specs"

lemma keeps_declared: "keeps decl rd s s' \<Longrightarrow> ns \<noteq> 0 \<Longrightarrow> declared decl s ns \<Longrightarrow> declared decl s' ns"
  by (simp add: keeps_def declared_def nodeIdOf_def list_all_iff)

lemma keeps_view: "keeps decl rd s s' \<Longrightarrow> ns \<noteq> 0 \<Longrightarrow> client_view rd s' ns n = client_view rd s ns n"
  by (simp add: keeps_def client_view_def nodeIdOf_def)

lemma add_variables_declared:
  assumes "serves srv decl rd" and "add_all (addVariable srv ns) sp s = (True, s')" and "distinct (map v_number sp)"
  shows "(\<forall>spec\<in>set sp. decl s' (nodeIdOf ns (v_number spec)) = Some (v_type spec)) \<and>
    (\<forall>n. n \<notin> (\<lambda>spec. nodeIdOf ns (v_number spec)) ` set sp \<longrightarrow> decl s' n = decl s n)"
  using assms(2,3)
proof (induction sp arbitrary: s)
  case (Cons spec sp)
  let ?s = "snd (addVariable srv ns spec s)"
  have ok: "fst (addVariable srv ns spec s)" and rest: "add_all (addVariable srv ns) sp ?s = (True, s')"
    using Cons.prems(1) by (auto simp: Let_def split: prod.splits if_splits)
  have "decl ?s = (decl s)(nodeIdOf ns (v_number spec) \<mapsto> v_type spec)"
    using ok serves_variables(1) [OF assms(1)] by (simp add: addVariable_def)
  then show ?case using Cons.IH [OF rest] Cons.prems(2) by (auto simp: image_iff)
qed simp

lemma specs_distinct: "distinct (map v_number specs)"
  by (simp add: specs_def)

lemma buildAddressSpace_declared:
  assumes "serves srv decl rd" and "buildAddressSpace srv n0 (Some s) = (True, ns, Some s')"
  shows "ns \<noteq> 0 \<and> declared decl s' ns"
proof -
  obtain s1 where "ns \<noteq> 0" and "add_all (addVariable srv ns) specs s1 = (True, s')"
    using assms(2) by (auto simp: buildAddressSpace_def Let_def split: prod.splits if_splits)
  then show ?thesis
    using add_variables_declared [OF assms(1) _ specs_distinct] by (fastforce simp: declared_def list_all_iff)
qed

lemma writeValue_reads:
  assumes "serves srv decl rd" and "ns \<noteq> 0" and "decl s (nodeIdOf ns number) = Some ty" and "scalar_type v = ty"
  shows "(\<forall>m. decl (writeValue srv ns number ty v fresh s) (nodeIdOf ns m) = decl s (nodeIdOf ns m)) \<and>
    client_view rd (writeValue srv ns number ty v fresh s) ns number = Some (ty, v, if fresh then GOOD else BADNODATA) \<and>
    (\<forall>m. m \<noteq> number \<longrightarrow> client_view rd (writeValue srv ns number ty v fresh s) ns m = client_view rd s ns m)"
proof -
  obtain now s1 where now: "date_time_now srv s = (now, s1)" by fastforce
  have kept: "decl s1 (nodeIdOf ns m) = decl s (nodeIdOf ns m)" "rd s1 (nodeIdOf ns m) = rd s (nodeIdOf ns m)" for m
    using serves_keeps(1) [OF assms(1), of s] assms(2) by (simp_all add: now keeps_def nodeIdOf_def)
  define d where "d = \<lparr>dv_value = v, dv_type = ty, has_value = True, dv_status = (if fresh then GOOD else BADNODATA),
    has_status = True, source_timestamp = now, has_source_timestamp = True\<rparr>"
  have w: "writeValue srv ns number ty v fresh s = snd (write_data_value srv s1 (nodeIdOf ns number) d)"
    by (simp add: writeValue_def now d_def Let_def)
  have "rd (snd (write_data_value srv s1 (nodeIdOf ns number) d)) = (rd s1)(nodeIdOf ns number \<mapsto> d)"
    using assms(3,4) kept by (intro serves_variables(3) [OF assms(1)]) (simp_all add: d_def)
  then show ?thesis
    unfolding w client_view_def by (simp add: serves_variables(2) [OF assms(1)] kept) (simp add: d_def)
qed

lemma writes_read:
  assumes "serves srv decl rd" and "ns \<noteq> 0"
    and "\<forall>(n, ty, v)\<in>set ws. decl s (nodeIdOf ns n) = Some ty \<and> scalar_type v = ty" and "distinct (map fst ws)"
  shows "let s' = fold (\<lambda>(n, ty, v). writeValue srv ns n ty v fresh) ws s in
    (\<forall>m. decl s' (nodeIdOf ns m) = decl s (nodeIdOf ns m)) \<and>
    (\<forall>(n, ty, v)\<in>set ws. client_view rd s' ns n = Some (ty, v, if fresh then GOOD else BADNODATA)) \<and>
    (\<forall>m. m \<notin> fst ` set ws \<longrightarrow> client_view rd s' ns m = client_view rd s ns m)"
  using assms(3,4)
proof (induction ws arbitrary: s)
  case (Cons w ws)
  obtain n ty v where w: "w = (n, ty, v)" by (cases w) auto
  let ?s = "writeValue srv ns n ty v fresh s"
  have one: "\<forall>m. decl ?s (nodeIdOf ns m) = decl s (nodeIdOf ns m)"
    "client_view rd ?s ns n = Some (ty, v, if fresh then GOOD else BADNODATA)"
    "\<forall>m. m \<noteq> n \<longrightarrow> client_view rd ?s ns m = client_view rd s ns m"
    using writeValue_reads [OF assms(1,2), of s n ty v fresh] Cons.prems(1) w by auto
  have pre: "\<forall>(n, ty, v)\<in>set ws. decl ?s (nodeIdOf ns n) = Some ty \<and> scalar_type v = ty" "distinct (map fst ws)"
    using Cons.prems one(1) by auto
  have "n \<notin> fst ` set ws" using Cons.prems(2) w by simp
  then show ?case using Cons.IH [OF pre] one unfolding w by (auto simp: Let_def)
qed (simp add: Let_def)

text \<open>The writes of a publication are the variables of the address space, in its order and types.\<close>

lemma snapshot_values_typed:
  "map (\<lambda>(n, ty, v). (n, ty)) (snapshot_values x) = map (\<lambda>spec. (v_number spec, v_type spec)) specs"
  "list_all (\<lambda>(n, ty, v). scalar_type v = ty) (snapshot_values x)"
  "distinct (map fst (snapshot_values x))"
  by (simp_all add: snapshot_values_def specs_def)

lemma declared_values:
  "declared decl s ns \<Longrightarrow> \<forall>(n, ty, v)\<in>set (snapshot_values x). decl s (nodeIdOf ns n) = Some ty \<and> scalar_type v = ty"
  by (simp add: declared_def snapshot_values_def specs_def)

definition shows_snapshot :: "('s \<Rightarrow> node_id \<Rightarrow> data_value option) \<Rightarrow> 's \<Rightarrow> u16 \<Rightarrow> RuntimeSnapshot \<Rightarrow> status_code \<Rightarrow> bool" where
  "shows_snapshot rd s ns x st \<longleftrightarrow>
     map (client_view rd s ns \<circ> v_number) specs = map (\<lambda>(n, ty, v). Some (ty, v, st)) (snapshot_values x)"

lemma numbers_of_values: "map v_number specs = map fst (snapshot_values x)"
  by (simp add: snapshot_values_def specs_def)

lemma publishSnapshot_shows:
  assumes "serves srv decl rd" and "ns \<noteq> 0" and "declared decl s ns"
  obtains s' where "publishSnapshot srv ns (Some s) x fresh = Some s'" and "declared decl s' ns"
    and "shows_snapshot rd s' ns x (if fresh then GOOD else BADNODATA)"
proof -
  define s' where "s' = fold (\<lambda>(n, ty, v). writeValue srv ns n ty v fresh) (snapshot_values x) s"
  have w: "\<forall>m. decl s' (nodeIdOf ns m) = decl s (nodeIdOf ns m)"
    "\<forall>(n, ty, v)\<in>set (snapshot_values x). client_view rd s' ns n = Some (ty, v, if fresh then GOOD else BADNODATA)"
    using writes_read [OF assms(1,2) declared_values [OF assms(3)] snapshot_values_typed(3), of fresh x]
    unfolding s'_def Let_def by blast+
  have "map (client_view rd s' ns \<circ> v_number) specs = map (client_view rd s' ns) (map fst (snapshot_values x))"
    by (simp add: numbers_of_values [symmetric])
  also have "\<dots> = map (\<lambda>(n, ty, v). Some (ty, v, if fresh then GOOD else BADNODATA)) (snapshot_values x)"
    using w(2) by (auto simp del: fst_conv simp: case_prod_beta)
  finally show thesis
    using that [of s'] w(1) assms(3) by (simp add: shows_snapshot_def publishSnapshot_def s'_def [symmetric] declared_def)
qed

lemma add_all_keeps:
  assumes "\<And>x s. keeps decl rd s (snd (add x s))"
  shows "keeps decl rd s (snd (add_all add xs s))"
proof (induction xs arbitrary: s)
  case (Cons x xs)
  then show ?case using assms [of s x] by (auto simp: Let_def split: prod.splits intro: keeps_trans)
qed simp

lemma fire_keeps:
  assumes "serves srv decl rd"
  obtains s' where "snd (fireSafetyTransition srv ns (Some s) event) = Some s'" and "keeps decl rd s s'"
proof -
  let ?r = "create_event srv s (nodeIdOf ns kSafetyTransitionEventType)"
  note keeps = serves_keeps [OF assms]
  have c: "keeps decl rd s (snd ?r)" by (rule keeps(4))
  show thesis
  proof (cases "ns = 0 \<or> fst ?r = None")
    case True
    then have "snd (fireSafetyTransition srv ns (Some s) event) = Some (if ns = 0 then s else snd ?r)"
      by (cases ?r) (auto simp: fireSafetyTransition_def)
    then show thesis using that [OF _ keeps_refl] that [OF _ c] by (cases "ns = 0") simp_all
  next
    case False
    then obtain inst where inst: "fst ?r = Some inst" and ns: "ns \<noteq> 0" by auto
    let ?put = "\<lambda>(name, v, ty) s. write_property srv s inst name v ty"
    define s1 where "s1 = snd (add_all ?put (own_fields ns event) (snd ?r))"
    define s2 where "s2 = snd (write_property srv s1 inst (0, ''Severity'') (UInt16 (event_severity event)) T_UINT16)"
    define s3 where "s3 = snd (write_property srv s2 inst (0, ''Message'') (LocalizedText ''en-US'' (event_message event)) T_LOCALIZEDTEXT)"
    have "keeps decl rd (snd ?r) s1" unfolding s1_def by (rule add_all_keeps) (simp add: case_prod_beta keeps(5))
    moreover have "keeps decl rd s1 s2" "keeps decl rd s2 s3" unfolding s2_def s3_def by (rule keeps(5))+
    moreover have "keeps decl rd s3 (snd (trigger_event srv s3 inst (Base SERVER) True))" by (rule keeps(6))
    ultimately have "keeps decl rd s (snd (trigger_event srv s3 inst (Base SERVER) True))"
      using c keeps_trans by metis
    moreover have "snd (fireSafetyTransition srv ns (Some s) event) = Some (snd (trigger_event srv s3 inst (Base SERVER) True))"
      using inst ns
      by (cases ?r) (simp add: fireSafetyTransition_def Let_def s1_def s2_def s3_def split_beta)
    ultimately show thesis using that by blast
  qed
qed

text \<open>What a pass shows: the snapshot it found, or the default one marked as no data.\<close>

definition shows_found :: "('s \<Rightarrow> node_id \<Rightarrow> data_value option) \<Rightarrow> 's \<Rightarrow> u16 \<Rightarrow> RuntimeSnapshot option \<Rightarrow> bool" where
  "shows_found rd s ns found =
     (case found of Some x \<Rightarrow> shows_snapshot rd s ns x GOOD | None \<Rightarrow> shows_snapshot rd s ns new_RuntimeSnapshot BADNODATA)"

lemma publisher_pass_shows:
  assumes "serves srv decl rd" and "ns \<noteq> 0" and "declared decl s ns"
  shows "\<exists>s'. snd (snd (publisher_pass srv ns found (p, Some s))) = Some s' \<and> declared decl s' ns \<and> shows_found rd s' ns found"
proof (cases found)
  case None
  obtain s1 where "publishSnapshot srv ns (Some s) new_RuntimeSnapshot False = Some s1" "declared decl s1 ns"
    "shows_snapshot rd s1 ns new_RuntimeSnapshot BADNODATA"
    using publishSnapshot_shows [OF assms, of new_RuntimeSnapshot False] by auto
  then show ?thesis using None by (simp add: publisher_pass_def shows_found_def)
next
  case (Some x)
  obtain s1 where s1: "publishSnapshot srv ns (Some s) x True = Some s1" "declared decl s1 ns" "shows_snapshot rd s1 ns x GOOD"
    using publishSnapshot_shows [OF assms, of x True] by auto
  obtain s2 where s2: "snd (fireSafetyTransition srv ns (Some s1) (describeTransition x (last_sequence p))) = Some s2"
    "keeps decl rd s1 s2"
    by (rule fire_keeps [OF assms(1)])
  have "declared decl s2 ns" "shows_snapshot rd s2 ns x GOOD"
    using s1 keeps_declared [OF s2(2) assms(2)] keeps_view [OF s2(2) assms(2)] by (simp_all add: shows_snapshot_def comp_def)
  then show ?thesis using Some s1 s2(1) by (auto simp: publisher_pass_def shows_found_def Let_def split_beta)
qed

lemma publisher_loop_snoc:
  "publisher_loop srv ns (xs @ [x]) ps =
     (let (events, ps) = publisher_loop srv ns xs ps; (ev, ps) = publisher_pass srv ns x ps in (events @ ev, ps))"
  by (induction xs arbitrary: ps) (simp_all add: Let_def split_beta)

lemma publisher_loop_declared:
  assumes "serves srv decl rd" and "ns \<noteq> 0" and "declared decl s ns"
  shows "\<exists>s'. snd (snd (publisher_loop srv ns found (p, Some s))) = Some s' \<and> declared decl s' ns"
  using assms(3)
proof (induction found arbitrary: p s)
  case (Cons x xs)
  obtain s1 where s1: "snd (snd (publisher_pass srv ns x (p, Some s))) = Some s1" "declared decl s1 ns"
    using publisher_pass_shows [OF assms(1,2) Cons.prems] by blast
  obtain ev p1 where "publisher_pass srv ns x (p, Some s) = (ev, p1, Some s1)"
    using s1(1) by (metis prod.collapse)
  then show ?case using Cons.IH [OF s1(2), of p1] by (simp add: Let_def split_beta)
qed simp

lemma addField_declared:
  assumes "serves srv decl rd" and "fst (addField srv ns spec s)" and "v_number spec \<notin> v_number ` set specs"
    and "ns \<noteq> 0" and "declared decl s ns"
  shows "declared decl (snd (addField srv ns spec s)) ns"
proof -
  let ?n = "\<lparr>requested = nodeIdOf ns (v_number spec), parent = nodeIdOf ns kSafetyTransitionEventType,
    reference = Base HASPROPERTY, browse_name = (ns, v_name spec), type_definition = Some (Base PROPERTYTYPE),
    display_name = (''en-US'', v_name spec)\<rparr>"
  let ?a = "\<lparr>data_type = v_type spec, read_only = None, scalar_rank = True\<rparr>"
  define s1 where "s1 = snd (add_variable_node srv s ?n ?a)"
  have v: "decl s1 = (decl s)(nodeIdOf ns (v_number spec) \<mapsto> v_type spec)"
    and r: "snd (addField srv ns spec s) =
      snd (add_reference srv s1 (nodeIdOf ns (v_number spec)) (Base HASMODELLINGRULE) (Base MODELLINGRULE_MANDATORY) True)"
    using assms(2) serves_variables(1) [OF assms(1), of s ?n ?a]
    by (auto simp: addField_def Let_def split_beta s1_def split: if_splits)
  have "declared decl s1 ns"
    using assms(3,5) by (fastforce simp: declared_def v list_all_iff image_iff)
  then show ?thesis unfolding r using keeps_declared [OF serves_keeps(3) [OF assms(1)] assms(4)] by blast
qed

lemma addFields_declared:
  assumes "serves srv decl rd" and "ns \<noteq> 0"
  shows "add_all (addField srv ns) fs s = (True, s') \<Longrightarrow> v_number ` set fs \<inter> v_number ` set specs = {} \<Longrightarrow>
    declared decl s ns \<Longrightarrow> declared decl s' ns"
proof (induction fs arbitrary: s)
  case (Cons f fs)
  have "fst (addField srv ns f s)" "add_all (addField srv ns) fs (snd (addField srv ns f s)) = (True, s')"
    using Cons.prems(1) by (auto simp: Let_def split: prod.splits if_splits)
  then show ?case
    using Cons.IH Cons.prems(2,3) addField_declared [OF assms(1) _ _ assms(2)] by auto
qed simp

lemma buildEventType_declared:
  assumes "serves srv decl rd" and "buildEventType srv ns (Some s) = (True, Some s')" and "declared decl s ns"
  shows "declared decl s' ns"
proof -
  let ?n = "\<lparr>requested = nodeIdOf ns kSafetyTransitionEventType, parent = Base BASEEVENTTYPE,
    reference = Base HASSUBTYPE, browse_name = (ns, kSafetyEventTypeName), type_definition = None,
    display_name = (''en-US'', kSafetyEventTypeName)\<rparr>"
  have ns: "ns \<noteq> 0" and "add_all (addField srv ns) event_fields (snd (add_object_type_node srv s ?n)) = (True, s')"
    using assms(2) by (auto simp: buildEventType_def Let_def split: prod.splits if_splits)
  moreover have "declared decl (snd (add_object_type_node srv s ?n)) ns"
    using keeps_declared [OF serves_keeps(2) [OF assms(1)] ns assms(3)] by blast
  moreover have "v_number ` set event_fields \<inter> v_number ` set specs = {}" by (simp add: event_fields_def specs_def)
  ultimately show ?thesis using addFields_declared [OF assms(1)] by blast
qed

section \<open>Accounting for transitions\<close>

text \<open>How many transitions an event stands for.\<close>

definition stands_for :: "SafetyTransitionEvent \<Rightarrow> u64" where
  "stands_for e = 1 + missed_transitions e"

lemma describeTransition_stands_for:
  "s_safety_sequence x \<noteq> prev \<Longrightarrow> stands_for (describeTransition x prev) = s_safety_sequence x - prev"
proof -
  assume "s_safety_sequence x \<noteq> prev"
  then have "s_safety_sequence x - prev \<noteq> 0" by simp
  then have "\<not> 1 < s_safety_sequence x - prev \<Longrightarrow> s_safety_sequence x - prev = 1"
    by (simp add: word_less_nat_alt word_unat_eq_iff)
  then show ?thesis by (auto simp: stands_for_def describeTransition_def Let_def)
qed

definition told :: "(SafetyTransitionEvent \<times> bool) list \<Rightarrow> u64" where
  "told events = sum_list (map (stands_for \<circ> fst) events)"

lemma told_simps [simp]: "told [] = 0" "told (e # es) = stands_for (fst e) + told es" "told (es @ fs) = told es + told fs"
  by (simp_all add: told_def)

text \<open>Once the thread has a number, the events bring it to the last one it saw.\<close>

lemma publisher_pass_told:
  assumes "have_sequence p"
  shows "let (events, p', s') = publisher_pass srv ns found (p, s) in
    have_sequence p' \<and> told events = last_sequence p' - last_sequence p \<and>
    last_sequence p' = (case found of Some x \<Rightarrow> s_safety_sequence x | None \<Rightarrow> last_sequence p)"
  using assms describeTransition_stands_for
  by (auto simp: publisher_pass_def Let_def split_beta split: option.splits)

text \<open>The snapshots that were found; a pass may find none.\<close>

definition readings :: "'a option list \<Rightarrow> 'a list" where
  "readings found = map the (filter (\<lambda>f. f \<noteq> None) found)"

lemma readings_simps [simp]:
  "readings [] = []" "readings (None # fs) = readings fs" "readings (Some x # fs) = x # readings fs"
  by (simp_all add: readings_def)

lemma publisher_loop_told:
  assumes "have_sequence p"
  shows "told (fst (publisher_loop srv ns found (p, s))) =
    last (last_sequence p # map s_safety_sequence (readings found)) - last_sequence p"
  using assms
proof (induction found arbitrary: p s)
  case (Cons x xs)
  obtain ev p1 s1 where one: "publisher_pass srv ns x (p, s) = (ev, p1, s1)" using prod_cases3 by blast
  then have "have_sequence p1" "told ev = last_sequence p1 - last_sequence p"
    "last_sequence p1 = (case x of Some x \<Rightarrow> s_safety_sequence x | None \<Rightarrow> last_sequence p)"
    using publisher_pass_told [OF Cons.prems, of srv ns x s] by (simp_all add: Let_def)
  then show ?case
    using Cons.IH [of p1 s1] one by (cases x) (simp_all add: Let_def split_beta)
qed simp

lemma told_from_first:
  "readings found \<noteq> [] \<Longrightarrow> told (fst (publisher_loop srv ns found (new_publisher, s))) =
     s_safety_sequence (last (readings found)) - s_safety_sequence (hd (readings found))"
proof (induction found arbitrary: s)
  case (Cons f fs)
  show ?case
  proof (cases f)
    case None
    have "publisher_pass srv ns None (new_publisher, s) = ([], new_publisher, publishSnapshot srv ns s new_RuntimeSnapshot False)"
      by (simp add: publisher_pass_def)
    then show ?thesis using Cons None by (simp add: Let_def split_beta)
  next
    case (Some x)
    let ?p = "\<lparr>have_sequence = True, last_sequence = s_safety_sequence x\<rparr>"
    have "publisher_pass srv ns (Some x) (new_publisher, s) = ([], ?p, publishSnapshot srv ns s x True)"
      by (simp add: publisher_pass_def new_publisher_def)
    then show ?thesis
      using publisher_loop_told [of ?p srv ns fs "publishSnapshot srv ns s x True"] Some
      by (simp add: Let_def split_beta last_map)
  qed
qed simp

text \<open>The control loop's numbers, in terms of its modes.\<close>

definition mode_shown :: "mode \<Rightarrow> SafetyState \<times> bool" where
  "mode_shown m = (mode_state m, m = Moving)"

lemma control_after_last:
  assumes "0 < p" and "p \<le> 50000000" and "snapshot_slot_ok q" and "0 < n"
  shows "let c = control_after granted ws p obs (new_control_loop now q) n in
    (last_safety_state c, last_torque_permitted c) = mode_shown (mode_after ws n) \<and>
    (\<exists>x. read_snapshot (published c) = Some x \<and> s_safety_sequence x = safety_sequence c)"
proof -
  obtain k where k: "n = Suc k" using assms(4) gr0_implies_Suc by blast
  let ?c = "control_after granted ws p obs (new_control_loop now q) n"
  have "published_now ?c"
    using cycle_published_now [OF control_after_slot_ok] assms(3) by (simp add: k new_control_loop_def)
  moreover have "shows_mode n (mode_after ws n) (published ?c)" using control_after_shows [OF assms(1-3)] k by blast
  ultimately show ?thesis
    by (auto simp: Let_def published_now_def shows_mode_def mode_shown_def state_word_inject
        split: option.splits if_splits)
qed

definition mode_changes :: "(nat \<Rightarrow> cycle_world) \<Rightarrow> nat \<Rightarrow> nat \<Rightarrow> nat" where
  "mode_changes ws a b =
     length (filter (\<lambda>k. mode_shown (mode_after ws (Suc k)) \<noteq> mode_shown (mode_after ws k)) [a..<b])"

lemma control_after_sequence:
  assumes "0 < p" and "p \<le> 50000000" and "snapshot_slot_ok q" and "0 < a" and "a \<le> b"
  shows "safety_sequence (control_after granted ws p obs (new_control_loop now q) b) =
    safety_sequence (control_after granted ws p obs (new_control_loop now q) a) + of_nat (mode_changes ws a b)"
  using assms(5)
proof (induction b rule: dec_induct)
  case (step n)
  let ?c = "control_after granted ws p obs (new_control_loop now q)"
  let ?ctx = "\<lparr>ctx_index = of_nat n, ctx_wakeup_jitter_ns = fst (obs n), ctx_period_ns = p\<rparr>"
  have "0 < n" using assms(4) step.hyps by simp
  then have l: "(last_safety_state (?c n), last_torque_permitted (?c n)) = mode_shown (mode_after ws n)"
    "(last_safety_state (?c (Suc n)), last_torque_permitted (?c (Suc n))) = mode_shown (mode_after ws (Suc n))"
    using control_after_last [OF assms(1-3)] by (simp_all add: Let_def del: control_after.simps mode_after.simps)
  have "safety_sequence (?c (Suc n)) = safety_sequence (?c n) +
      (if mode_shown (mode_after ws (Suc n)) = mode_shown (mode_after ws n) then 0 else 1)"
    using cycle_transition [of granted ws ?ctx "snd (obs n)" "?c n"] unfolding l [symmetric] by (auto simp: Let_def)
  then show ?case using step.IH step.hyps by (simp add: mode_changes_def del: control_after.simps mode_after.simps)
qed (simp add: mode_changes_def)

section \<open>Stopping\<close>

definition view_inv :: "view_threads \<Rightarrow> bool" where
  "view_inv t \<longleftrightarrow> (running_flag t \<longleftrightarrow> main_at t = M_Run \<or> main_at t = M_Store) \<and>
     (server_alive t \<longleftrightarrow> main_at t \<noteq> M_Done) \<and> (main_at t = M_Delete \<or> main_at t = M_Done \<longrightarrow> pub_at t = P_Done)"

lemma view_inv_reachable: "view_step\<^sup>*\<^sup>* new_view_threads t \<Longrightarrow> view_inv t"
proof (induction rule: rtranclp_induct)
  case (step t t')
  from step.hyps(2) step.IH show ?case by (elim view_stepE) (auto simp: view_inv_def)
qed (simp add: view_inv_def new_view_threads_def)

text \<open>What is left to do once the flag is cleared.\<close>

definition work_left :: "view_threads \<Rightarrow> nat" where
  "work_left t = (case main_at t of M_Run \<Rightarrow> 4 | M_Store \<Rightarrow> 3 | M_Join \<Rightarrow> 2 | M_Delete \<Rightarrow> 1 | M_Done \<Rightarrow> 0)
     + (case pub_at t of P_Pass \<Rightarrow> 3 | P_Sleep \<Rightarrow> 2 | P_Check \<Rightarrow> 1 | P_Done \<Rightarrow> 0)"

lemma view_step_work: "view_step t t' \<Longrightarrow> \<not> running_flag t \<Longrightarrow> work_left t' < work_left t"
  by (elim view_stepE) (simp_all add: work_left_def)

lemma view_step_possible: "main_at t \<noteq> M_Done \<Longrightarrow> \<exists>t'. view_step t t'"
  by (cases "main_at t"; cases "pub_at t") (blast intro: view_step.intros)+

section \<open>Starting\<close>

lemma configureSecurity_config: "\<exists>cfg'. snd (configureSecurity encryption lib fs (Some cfg) options) = Some cfg'"
  by (auto simp: configureSecurity_def Let_def split: option.splits prod.splits)

lemma buildAddressSpace_namespace: "buildAddressSpace srv n (Some s) = (True, ns, s') \<Longrightarrow> ns \<noteq> 0"
  by (auto simp: buildAddressSpace_def Let_def split: prod.splits if_splits)

lemma opcua_started:
  assumes "fst (opcua_start encryption lib srv fs shm fresh_server getenv) = Inr pr"
  obtains cfg where "configureSecurity encryption lib fs (Some cfg) (opcua_security getenv) = (op_posture pr, Some (op_config pr))"
    and "valid (op_region pr)" and "op_namespace pr \<noteq> 0" and "policy_count (op_posture pr) \<noteq> 0"
proof -
  obtain s cfg where server: "fresh_server = Some (s, cfg)"
    using assms by (auto simp: opcua_start_def Let_def split: prod.splits if_splits option.splits)
  obtain posture cfg' where sec: "configureSecurity encryption lib fs (Some cfg) (opcua_security getenv) = (posture, Some cfg')"
    using configureSecurity_config by (metis prod.collapse)
  obtain ok ns server' where build: "buildAddressSpace srv 0 (Some s) = (ok, ns, server')" using prod_cases3 by blast
  show thesis
    using assms that [of cfg] sec buildAddressSpace_namespace [of srv 0 s ns server'] build
    by (auto simp: opcua_start_def Let_def server split: prod.splits if_splits)
qed

lemma opcua_refused:
  assumes "fst (opcua_start encryption lib srv fs shm fresh_server getenv) = Inl (code, deleted)"
  shows "(code = 1 \<longleftrightarrow> \<not> valid (fst (openExisting shm
      (Some (environmentString getenv ''SAFEEDGE_SNAPSHOT_SHM'' ''/safeedge-runtime'')) snapshot_slot_bytes))) \<and>
    (code = 1 \<or> code = 2 \<or> code = 3) \<and> (deleted \<longleftrightarrow> code \<noteq> 1 \<and> fresh_server \<noteq> None)"
  using assms by (auto simp: opcua_start_def Let_def split: prod.splits if_splits option.splits)

lemma opcua_started_closed:
  assumes "library_ok lib" and "fst (opcua_start encryption lib srv fs shm fresh_server getenv) = Inr pr"
    and "environmentLong getenv ''SAFEEDGE_OPCUA_INSECURE'' 0 = 0"
  obtains cfg cert key tl cfg1 where "encryption" and "list_all encrypted (live_endpoints (op_config pr))"
    and "set_default_with_security lib cfg (opcua_port getenv) cert key tl = (True, cfg1)"
    and "environmentString getenv ''SAFEEDGE_OPCUA_TRUSTLIST'' [] \<noteq> [] \<Longrightarrow>
      tl = readTrustList fs (environmentString getenv ''SAFEEDGE_OPCUA_TRUSTLIST'' []) \<and> tl \<noteq> [] \<and>
      secure_channel_pki (op_config pr) = secure_channel_pki cfg1 \<and> session_pki (op_config pr) = session_pki cfg1"
proof -
  obtain cfg where run: "configureSecurity encryption lib fs (Some cfg) (opcua_security getenv) = (op_posture pr, Some (op_config pr))"
    "policy_count (op_posture pr) \<noteq> 0"
    using opcua_started [OF assms(2)] by blast
  have opt: "\<not> allow_unencrypted (opcua_security getenv)" "so_port (opcua_security getenv) = opcua_port getenv"
    "so_authentication (opcua_security getenv) =
      (if environmentString getenv ''SAFEEDGE_OPCUA_TRUSTLIST'' [] = [] then kAcceptAnyCertificate else kTrustList)"
    "trust_list_directory (opcua_security getenv) = environmentString getenv ''SAFEEDGE_OPCUA_TRUSTLIST'' []"
    using assms(3) by (simp_all add: opcua_security_def Let_def)
  show thesis
  proof (rule accepted_result [OF run opt(1) assms(1)])
    fix cert key tl cfg1
    assume enc: "encryption" and set: "set_default_with_security lib cfg (so_port (opcua_security getenv)) cert key tl = (True, cfg1)"
      and live: "live_endpoints (op_config pr) = map (\<lambda>e. e\<lparr>server_uri := kApplicationUri\<rparr>) (filter encrypted (live_endpoints cfg1))"
      and trust: "so_authentication (opcua_security getenv) = kTrustList \<Longrightarrow>
        tl = readTrustList fs (trust_list_directory (opcua_security getenv)) \<and> tl \<noteq> [] \<and>
        trusted_certificate_count (op_posture pr) = length tl \<and>
        secure_channel_pki (op_config pr) = secure_channel_pki cfg1 \<and> session_pki (op_config pr) = session_pki cfg1"
    have "list_all encrypted (live_endpoints (op_config pr))"
      by (simp add: live list_all_iff encrypted_def)
    moreover have "so_authentication (opcua_security getenv) = kTrustList"
      if "environmentString getenv ''SAFEEDGE_OPCUA_TRUSTLIST'' [] \<noteq> []"
      using that opt(3) by simp
    ultimately show thesis using that [OF enc _ set [unfolded opt(2)]] trust [unfolded opt(4)] by blast
  qed
qed

lemma opcua_trust_list_secure:
  assumes "fst (opcua_start encryption lib srv fs shm fresh_server getenv) = Inr pr"
    and "environmentString getenv ''SAFEEDGE_OPCUA_TRUSTLIST'' [] \<noteq> []"
  shows "environmentLong getenv ''SAFEEDGE_OPCUA_INSECURE'' 0 = 0"
proof -
  obtain cfg where run: "configureSecurity encryption lib fs (Some cfg) (opcua_security getenv) = (op_posture pr, Some (op_config pr))"
    "policy_count (op_posture pr) \<noteq> 0"
    using opcua_started [OF assms(1)] by blast
  then have "\<not> allow_unencrypted (opcua_security getenv)"
    using assms(2) by (intro trust_list_excludes_plaintext [OF run]) (simp add: opcua_security_def Let_def)
  then show ?thesis by (simp add: opcua_security_def Let_def)
qed

text \<open>After a pass the server shows what the pass found.\<close>

lemma view_reads_found:
  assumes "serves srv decl rd"
    and "buildAddressSpace srv 0 (Some s0) = (True, ns, Some s1)"
    and "buildEventType srv ns (Some s1) = (True, Some s2)"
    and "publisher_loop srv ns (before @ [found]) (new_publisher, Some s2) = (events, p, server)"
  shows "\<exists>s. server = Some s \<and> shows_found rd s ns found"
proof -
  have ns: "ns \<noteq> 0" and "declared decl s1 ns" using buildAddressSpace_declared [OF assms(1,2)] by blast+
  then have "declared decl s2 ns" using buildEventType_declared [OF assms(1,3)] by blast
  then obtain s3 where s3: "snd (snd (publisher_loop srv ns before (new_publisher, Some s2))) = Some s3" "declared decl s3 ns"
    using publisher_loop_declared [OF assms(1) ns] by blast
  define p3 where "p3 = fst (snd (publisher_loop srv ns before (new_publisher, Some s2)))"
  obtain s where s: "snd (snd (publisher_pass srv ns found (p3, Some s3))) = Some s" "shows_found rd s ns found"
    using publisher_pass_shows [OF assms(1) ns s3(2)] by blast
  have "snd (publisher_loop srv ns before (new_publisher, Some s2)) = (p3, Some s3)"
    using s3(1) by (simp add: p3_def prod_eq_iff)
  then have "server = Some s"
    using assms(4) s(1) by (auto simp: publisher_loop_snoc Let_def split_beta)
  then show ?thesis using s(2) by blast
qed

lemma shows_found_safety:
  assumes "shows_found rd s ns (Some x)"
  shows "client_view rd s ns kTorquePermitted = Some (T_BOOLEAN, Boolean (s_torque_permitted x \<noteq> 0), GOOD)"
    and "client_view rd s ns kFaultLatched = Some (T_BOOLEAN, Boolean (s_fault_latched x \<noteq> 0), GOOD)"
    and "client_view rd s ns kFaultReason = Some (T_UINT32, UInt32 (s_fault_reason x), GOOD)"
    and "client_view rd s ns kSafetyState = Some (T_UINT32, UInt32 (s_safety_state x), GOOD)"
  using assms by (simp_all add: shows_found_def shows_snapshot_def specs_def snapshot_values_def)

section \<open>Properties\<close>


text \<open>
  The events account for every transition of the control loop.  Let the passes that
  find a snapshot find those of the cycles \<open>ks\<close>, in order, with any number of passes that
  find none in between.  Then the events fired, each counted with the transitions it says
  it missed, are as many as the changes of state or torque the loop made from the first of
  these cycles to the last, as 64-bit numbers.
\<close>

theorem transitions_accounted:
  assumes "20 \<le> f" and "f \<le> 100000" and "ks \<noteq> []" and "sorted ks" and "0 < hd ks"
    and "readings found = map (\<lambda>k. the (read_snapshot (published (control_after granted ws
      (period (daemon_executor_config f prio)) obs (new_control_loop now (initial_slot gaps)) k)))) ks"
  shows "told (fst (publisher_loop srv ns found (new_publisher, server))) = of_nat (mode_changes ws (hd ks) (last ks))"
proof -
  let ?c = "control_after granted ws (period (daemon_executor_config f prio)) obs (new_control_loop now (initial_slot gaps))"
  note dp = daemon_period_range [OF assms(1,2)]
  have le: "hd ks \<le> last ks" using assms(3,4) by (cases ks) auto
  have sq: "s_safety_sequence (the (read_snapshot (published (?c k)))) = safety_sequence (?c k)" if "0 < k" for k
    using control_after_last [OF dp initial_slot_ok that, of granted ws prio obs now gaps] by (auto simp: Let_def)
  have "told (fst (publisher_loop srv ns found (new_publisher, server))) =
      safety_sequence (?c (last ks)) - safety_sequence (?c (hd ks))"
    using told_from_first [of found srv ns server] assms(3,5,6) le by (simp add: last_map hd_map sq)
  then show ?thesis using control_after_sequence [OF dp initial_slot_ok assms(5) le] by simp
qed

text \<open>
  Stopping is safe and ends.  In every interleaving of the two threads the server is
  alive as long as the publishing thread has not ended, and is deleted only after it has;
  the program is never stuck before it is done; and once the flag is cleared every step
  leaves less to do.
\<close>

theorem view_stops_safely:
  assumes "view_step\<^sup>*\<^sup>* new_view_threads t"
  shows "(pub_at t \<noteq> P_Done \<longrightarrow> server_alive t) \<and> (main_at t \<noteq> M_Done \<longrightarrow> (\<exists>t'. view_step t t')) \<and>
    (\<not> running_flag t \<longrightarrow> (\<forall>t'. view_step t t' \<longrightarrow> work_left t' < work_left t))"
  using view_inv_reachable [OF assms] view_step_work view_step_possible by (auto simp: view_inv_def)


section \<open>Concrete cases\<close>

text \<open>A server that keeps the types and the values of its variables, and no events.\<close>

type_synonym variables = "(node_id \<Rightarrow> ua_type option) \<times> (node_id \<Rightarrow> data_value option)"

definition variable_server :: "variables ua_server" where
  "variable_server =
     \<lparr>date_time_now = (\<lambda>s. (0, s)), add_namespace = (\<lambda>s _. (2, s)), add_object_node = (\<lambda>s _. (True, s)),
      add_object_type_node = (\<lambda>s _. (True, s)),
      add_variable_node = (\<lambda>s n a. (True, ((fst s)(requested n \<mapsto> data_type a), snd s))),
      add_reference = (\<lambda>s _ _ _ _. (True, s)),
      write_data_value = (\<lambda>s n d. if fst s n = Some (dv_type d) then (True, (fst s, (snd s)(n \<mapsto> d))) else (False, s)),
      create_event = (\<lambda>s _. (Some (Generated ''event''), s)), write_property = (\<lambda>s _ _ _ _. (True, s)),
      trigger_event = (\<lambda>s _ _ _. (True, s))\<rparr>"

definition no_variables :: variables where
  "no_variables = (\<lambda>_. None, \<lambda>_. None)"

definition view_variables :: variables where
  "view_variables = the (snd (snd (buildAddressSpace variable_server 0 (Some no_variables))))"

definition event_variables :: variables where
  "event_variables = the (snd (buildEventType variable_server 2 (Some view_variables)))"

lemma variable_server_serves: "serves variable_server fst snd"
  by (simp add: serves_def keeps_def variable_server_def)

lemma view_variables_built: "buildAddressSpace variable_server 0 (Some no_variables) = (True, 2, Some view_variables)"
  by (simp add: view_variables_def buildAddressSpace_def variable_server_def specs_def addVariable_def)

lemma event_variables_built: "buildEventType variable_server 2 (Some view_variables) = (True, Some event_variables)"
  by (simp add: event_variables_def buildEventType_def variable_server_def event_fields_def addField_def)


theorem transitions_accounted_witness:
  "told (fst (publisher_loop variable_server 2
     (map (\<lambda>k. Some (the (read_snapshot (published (control_after True (\<lambda>_. quiet_world) (period (daemon_executor_config 1000 80))
        (\<lambda>_. (0, new_ExecutorStats)) (new_control_loop \<lparr>tv_sec = 0, tv_nsec = 0\<rparr> (initial_slot (0, 0))) k))))) [1, 3])
     (new_publisher, Some event_variables))) = 1"
proof -
  let ?read = "\<lambda>k. the (read_snapshot (published (control_after True (\<lambda>_. quiet_world) (period (daemon_executor_config 1000 80))
    (\<lambda>_. (0, new_ExecutorStats)) (new_control_loop \<lparr>tv_sec = 0, tv_nsec = 0\<rparr> (initial_slot (0, 0))) k)))"
  have found: "readings (map (\<lambda>k. Some (?read k)) [1, 3]) = map ?read [1, 3]" by simp
  have "mode_changes (\<lambda>_. quiet_world) 1 3 = 1" by code_simp
  then show ?thesis using transitions_accounted [OF _ _ _ _ _ found, of variable_server 2 "Some event_variables"] by simp
qed

theorem view_stops_safely_witness:
  "\<exists>t. view_step\<^sup>*\<^sup>* new_view_threads t \<and> pub_at t = P_Pass \<and> server_alive t \<and> \<not> running_flag t"
proof -
  have "view_step new_view_threads (new_view_threads\<lparr>pub_at := P_Pass\<rparr>)"
    using view_step.check [of new_view_threads] by (simp add: new_view_threads_def)
  moreover have "view_step (new_view_threads\<lparr>pub_at := P_Pass\<rparr>) (new_view_threads\<lparr>pub_at := P_Pass, main_at := M_Store\<rparr>)"
    using view_step.run [of "new_view_threads\<lparr>pub_at := P_Pass\<rparr>"] by (simp add: new_view_threads_def)
  moreover have "view_step (new_view_threads\<lparr>pub_at := P_Pass, main_at := M_Store\<rparr>)
      (new_view_threads\<lparr>pub_at := P_Pass, main_at := M_Join, running_flag := False\<rparr>)"
    using view_step.store_flag [of "new_view_threads\<lparr>pub_at := P_Pass, main_at := M_Store\<rparr>"] by (simp add: new_view_threads_def)
  ultimately have "view_step\<^sup>*\<^sup>* new_view_threads (new_view_threads\<lparr>pub_at := P_Pass, main_at := M_Join, running_flag := False\<rparr>)"
    by (intro rtranclp.rtrancl_into_rtrancl [OF rtranclp.rtrancl_into_rtrancl [OF r_into_rtranclp]])
  with view_stops_safely [OF this] show ?thesis
    by (intro exI [of _ "new_view_threads\<lparr>pub_at := P_Pass, main_at := M_Join, running_flag := False\<rparr>"])
       (simp add: new_view_threads_def)
qed

definition trusting_environment :: "string \<Rightarrow> string option" where
  "trusting_environment name = (if name = ''SAFEEDGE_OPCUA_TRUSTLIST'' then Some ''t'' else None)"

definition trusted_view :: "(int \<times> bool) + (variables, byte_string list option) opcua_process" where
  "trusted_view = fst (opcua_start True listed_library variable_server one_certificate
     \<lparr>ans_shm_open = Inr 3, ans_ftruncate = None, ans_fstat = Inr 256, ans_mmap = Inr 4096\<rparr>
     (Some (no_variables, empty_config)) trusting_environment)"

lemma trusting_options: "opcua_security trusting_environment = trusted_options"
  by code_simp

lemma trusted_view_runs: "\<exists>pr. trusted_view = Inr pr"
proof -
  obtain posture cfg where sec: "trusted_server = (posture, cfg)" by fastforce
  have "policy_count (fst trusted_server) \<noteq> 0" by code_simp
  moreover have "valid (fst (openExisting \<lparr>ans_shm_open = Inr 3, ans_ftruncate = None, ans_fstat = Inr 256, ans_mmap = Inr 4096\<rparr>
      (Some (environmentString trusting_environment ''SAFEEDGE_SNAPSHOT_SHM'' ''/safeedge-runtime'')) snapshot_slot_bytes))"
    by code_simp
  ultimately show ?thesis
    by (simp add: trusted_view_def opcua_start_def Let_def split_beta trusting_options sec trusted_server_def [symmetric]
        view_variables_built event_variables_built)
qed


end
