(* ===== verification/Text_Format.thy ===== *)
theory Text_Format
  imports Safeedged
begin

text \<open>
  The rest of the C library's conversions that the programs beside the daemon use:
  \<open>%.nf\<close> and field widths of \<open>printf\<close>, \<open>std::atoi\<close> and \<open>std::atof\<close>.  The theory shows
  that a printed number is within half a unit of its last digit and has its digits.
\<close>

section \<open>Printing\<close>

definition pad_left :: "nat \<Rightarrow> string \<Rightarrow> string" where
  "pad_left n s = replicate (n - length s) (CHR '' '') @ s"

definition pad_right :: "nat \<Rightarrow> string \<Rightarrow> string" where
  "pad_right n s = s @ replicate (n - length s) (CHR '' '')"

definition zero_pad :: "nat \<Rightarrow> string \<Rightarrow> string" where
  "zero_pad n s = replicate (n - length s) (CHR 0x30) @ s"

text \<open>\<open>%.pf\<close>: the value in units of the last place, rounded to nearest with ties to even.\<close>

fun format_f :: "nat \<Rightarrow> double \<Rightarrow> string" where
  "format_f p NaN = ''nan''"
| "format_f p PInf = ''inf''"
| "format_f p NInf = ''-inf''"
| "format_f p (Fin q) =
     (let n = nat (round_half_even (\<bar>q\<bar> * 10 ^ p))
      in (if q < 0 then ''-'' else []) @ decimal (n div 10 ^ p)
         @ (if p = 0 then [] else CHR ''.'' # zero_pad p (decimal (n mod 10 ^ p))))"

section \<open>Reading\<close>

text \<open>A value of 32 bits read from a \<open>long\<close>.\<close>

definition atoi :: "string \<Rightarrow> int" where
  "atoi s = sint (word_of_int (fst (strtol s)) :: u32)"

definition to_lower :: "char \<Rightarrow> char" where
  "to_lower c = (let n = (of_char c :: nat) in if 65 \<le> n \<and> n \<le> 90 then char_of (n + 32) else c)"

definition isxdigit :: "char \<Rightarrow> bool" where
  "isxdigit c \<longleftrightarrow> isdigit c \<or> (97 \<le> (of_char (to_lower c) :: nat) \<and> (of_char (to_lower c) :: nat) \<le> 102)"

definition hex_digit :: "char \<Rightarrow> nat" where
  "hex_digit c = (if isdigit c then of_char c - 48 else of_char (to_lower c) - 87)"

definition unhex :: "string \<Rightarrow> nat" where
  "unhex s = foldl (\<lambda>a c. 16 * a + hex_digit c) 0 s"

text \<open>Digits with an optional point: those before, those after, and the rest.\<close>

definition mantissa :: "(char \<Rightarrow> bool) \<Rightarrow> string \<Rightarrow> string \<times> string \<times> string" where
  "mantissa dig t =
     (let whole = takeWhile dig t; r = dropWhile dig t
      in if r \<noteq> [] \<and> hd r = CHR ''.'' then (whole, takeWhile dig (tl r), dropWhile dig (tl r))
         else (whole, [], r))"

text \<open>An exponent after the given letter, zero if there is none.\<close>

definition exponent :: "char \<Rightarrow> string \<Rightarrow> int" where
  "exponent letter r =
     (if r \<noteq> [] \<and> to_lower (hd r) = letter then
        let u = tl r;
            neg = (u \<noteq> [] \<and> hd u = CHR ''-'');
            u = (if u \<noteq> [] \<and> (hd u = CHR ''-'' \<or> hd u = CHR ''+'') then tl u else u);
            e = int (undecimal (takeWhile isdigit u))
        in if neg then - e else e
      else 0)"

definition unsigned_number :: "string \<Rightarrow> double" where
  "unsigned_number t =
     (let low = map to_lower t in
      if take 3 low = ''inf'' then PInf
      else if take 3 low = ''nan'' then NaN
      else
        let (hex_whole, hex_rest, hex_r) = mantissa isxdigit (drop 2 t) in
        if take 2 low = ''0x'' \<and> (hex_whole \<noteq> [] \<or> hex_rest \<noteq> []) then
          fl (of_nat (unhex (hex_whole @ hex_rest)) * 2 powi (exponent (CHR ''p'') hex_r - 4 * int (length hex_rest)))
        else
          let (whole, rest, r) = mantissa isdigit t in
          fl (of_nat (undecimal (whole @ rest)) * 10 powi (exponent (CHR ''e'') r - int (length rest))))"

definition atof :: "string \<Rightarrow> double" where
  "atof s =
     (let t = dropWhile isspace s
      in if t \<noteq> [] \<and> hd t = CHR ''-'' then dneg (unsigned_number (tl t))
         else if t \<noteq> [] \<and> hd t = CHR ''+'' then unsigned_number (tl t)
         else unsigned_number t)"

section \<open>Facts\<close>

lemma pad_left_length [simp]: "length (pad_left n s) = max n (length s)"
  by (simp add: pad_left_def)

lemma pad_right_length [simp]: "length (pad_right n s) = max n (length s)"
  by (simp add: pad_right_def)

text \<open>A setting written as a number is read as that number.\<close>

lemma atoi_decimal:
  assumes "- (2 ^ 31) \<le> v" and "v < 2 ^ 31"
  shows "atoi (decimal_int v) = v"
proof -
  have "i64 v" using assms by (simp add: i64_def)
  then show ?thesis
    using assms by (simp add: atoi_def strtol_decimal_int signed_of_int signed_take_bit_int_eq_self)
qed

text \<open>The digits of \<open>%.pf\<close> read back as the value in units of the last place.\<close>

lemma zero_pad_undecimal [simp]: "undecimal (zero_pad n (decimal k)) = k"
proof -
  have "undecimal (replicate m (CHR 0x30) @ s) = undecimal s" for m s
    by (induction m) (simp_all add: undecimal_def)
  then show ?thesis by (simp add: zero_pad_def)
qed

lemma format_f_error:
  assumes "0 \<le> q"
  shows "\<bar>of_nat (nat (round_half_even (q * 10 ^ p))) / 10 ^ p - q\<bar> \<le> 1 / 2 / 10 ^ p"
proof -
  have "0 \<le> round_half_even (q * 10 ^ p)"
    using round_half_even_mono [of 0 "q * 10 ^ p"] round_half_even_of_int [of 0] assms by simp
  then have n: "of_nat (nat (round_half_even (q * 10 ^ p))) = (of_int (round_half_even (q * 10 ^ p)) :: rat)"
    by (simp add: of_nat_nat)
  have "\<bar>of_int (round_half_even (q * 10 ^ p)) - q * 10 ^ p\<bar> / 10 ^ p \<le> 1 / 2 / 10 ^ p"
    by (intro divide_right_mono round_half_even_error) simp
  moreover have "x / 10 ^ p - q = (x - q * 10 ^ p) / 10 ^ p" for x
    by (simp add: diff_divide_distrib)
  ultimately show ?thesis unfolding n by (simp add: abs_divide)
qed

end
