(* ===== verification/Opcua_Probe.thy ===== *)
theory Opcua_Probe
  imports Opcua_View Text_Format
begin

text \<open>
  The measuring client (\<open>src/apps/safeedge_opcua_probe.cpp\<close>): its arguments, its identity,
  the two notification callbacks, the session with every early exit, and the report.  What
  the client library answers is a record; notifications arrive with the reading of the
  clock the callback takes.  The theory shows that the client connects only encrypted and
  releases what it acquired on every path, what it measures, and that its counts of events
  account for every transition of the control loop.
\<close>

section \<open>Model\<close>

definition kProbeApplicationUri :: string where
  "kProbeApplicationUri = ''urn:safeedge:opcua:probe''"

text \<open>The variables of the process; \<open>printed\<close> is what went to the standard output, piece by piece.\<close>

record probe =
  g_latencies :: "u64 list"
  g_last_transition :: u64
  g_saw_bad_status :: bool
  g_had_initial :: bool
  g_event_latencies :: "u64 list"
  g_events_received :: u64
  g_events_coalesced_by_server :: u64
  printed :: "string list"

definition new_probe :: probe where
  "new_probe =
     \<lparr>g_latencies = [], g_last_transition = 0, g_saw_bad_status = False, g_had_initial = False,
      g_event_latencies = [], g_events_received = 0, g_events_coalesced_by_server = 0, printed = []\<rparr>"

definition say :: "string \<Rightarrow> probe \<Rightarrow> probe" where
  "say line p = p\<lparr>printed := printed p @ [line]\<rparr>"

text \<open>Nanoseconds in milliseconds.\<close>

definition ms :: "u64 \<Rightarrow> double" where
  "ms ns = ddiv (double_of_int (uint ns)) (Fin 1000000)"

subsection \<open>Notifications\<close>

definition onTransitionChanged :: "u64 \<Rightarrow> data_value option \<Rightarrow> probe \<Rightarrow> probe" where
  "onTransitionChanged now v p =
     (case v of
        None \<Rightarrow> p
      | Some d \<Rightarrow>
          if has_status d \<and> dv_status d \<noteq> GOOD then p\<lparr>g_saw_bad_status := True\<rparr>
          else if \<not> has_value d \<or> dv_type d \<noteq> T_INT64 then p
          else case dv_value d of
            Int64 x \<Rightarrow>
              let transition = (word_of_int x :: u64) in
              if transition = 0 \<or> transition = g_last_transition p then p
              else
                let p = p\<lparr>g_last_transition := transition\<rparr> in
                if \<not> g_had_initial p then
                  say (''  (initial value discarded: it reports state, not a change)'' @ nl) (p\<lparr>g_had_initial := True\<rparr>)
                else if transition < now then
                  let p = p\<lparr>g_latencies := g_latencies p @ [now - transition]\<rparr> in
                  say (''  notification '' @ pad_left 2 (decimal (length (g_latencies p))) @ '': ''
                    @ pad_left 8 (format_f 3 (ms (now - transition))) @ '' ms after the runtime decided'' @ nl) p
                else p
          | _ \<Rightarrow> p)"

text \<open>The fields of an event as the client library hands them over; a field may be empty.\<close>

type_synonym event_field = "(ua_type \<times> ua_scalar) option"

datatype EventField = kFieldTransitionNs | kFieldSequence | kFieldMissed | kFieldSeverity

fun field_index :: "EventField \<Rightarrow> nat" where
  "field_index kFieldTransitionNs = 0"
| "field_index kFieldSequence = 1"
| "field_index kFieldMissed = 2"
| "field_index kFieldSeverity = 3"

definition kFieldCount :: nat where
  "kFieldCount = 4"

fun scalar_u64 :: "event_field \<Rightarrow> u64 option" where
  "scalar_u64 (Some (T_UINT64, UInt64 x)) = Some x"
| "scalar_u64 _ = None"

fun scalar_i64 :: "event_field \<Rightarrow> int option" where
  "scalar_i64 (Some (T_INT64, Int64 x)) = Some x"
| "scalar_i64 _ = None"

definition onSafetyEvent :: "u64 \<Rightarrow> event_field list \<Rightarrow> probe \<Rightarrow> probe" where
  "onSafetyEvent now flds p =
     (if length flds < kFieldCount then p
      else
        let p = p\<lparr>g_events_received := g_events_received p + 1\<rparr>;
            p = (case scalar_u64 (flds ! field_index kFieldMissed) of
                   Some n \<Rightarrow> p\<lparr>g_events_coalesced_by_server := g_events_coalesced_by_server p + n\<rparr>
                 | None \<Rightarrow> p)
        in case scalar_i64 (flds ! field_index kFieldTransitionNs) of
             None \<Rightarrow> p
           | Some x \<Rightarrow>
               let transition = (word_of_int x :: u64);
                   sq = (case scalar_u64 (flds ! field_index kFieldSequence) of Some n \<Rightarrow> n | None \<Rightarrow> 0)
               in if 0 < transition \<and> transition < now then
                    let p = p\<lparr>g_event_latencies := g_event_latencies p @ [now - transition]\<rparr> in
                    say (''  event '' @ pad_left 2 (decimal (length (g_event_latencies p))) @ '': seq '' @ decimal (unat sq)
                      @ '', '' @ pad_left 8 (format_f 3 (ms (now - transition))) @ '' ms after the runtime decided''
                      @ (if 0 < g_events_coalesced_by_server p then '' (server coalesced some)'' else []) @ nl) p
                  else p)"

record select_clause =
  clause_type :: node_id
  browse_path :: "qualified_name list"

definition makeSelectClause :: "u16 \<Rightarrow> string \<Rightarrow> select_clause" where
  "makeSelectClause ns field = \<lparr>clause_type = Base BASEEVENTTYPE, browse_path = [(ns, field)]\<rparr>"

definition event_clauses :: "u16 \<Rightarrow> select_clause list" where
  "event_clauses ns =
     [makeSelectClause ns ''TransitionMonotonicNanoseconds'', makeSelectClause ns ''SafetySequence'',
      makeSelectClause ns ''MissedTransitions'', makeSelectClause 0 ''Severity'']"

subsection \<open>Files and identity\<close>

definition probe_readFile :: "file_system \<Rightarrow> string \<Rightarrow> byte_string" where
  "probe_readFile fs path =
     (let f = file_at fs path in
      if \<not> opened f then []
      else if file_size f \<le> 0 \<or> \<not> allocated f then []
      else if length (content f) \<noteq> nat (file_size f) then []
      else content f)"

text \<open>Of a file to be written: whether it opens, and how many bytes are written.\<close>

type_synonym write_answer = "nat option"

definition writeFile :: "(string \<Rightarrow> write_answer) \<Rightarrow> string \<Rightarrow> byte_string \<Rightarrow> bool" where
  "writeFile answer path bs =
     (case answer path of None \<Rightarrow> False | Some written \<Rightarrow> written = length bs)"

text \<open>The key and the certificate.\<close>

definition createIdentity :: "'v ua_library \<Rightarrow> (byte_string \<times> byte_string) option" where
  "createIdentity lib =
     create_certificate lib [''C=DE'', ''O=safeedge'', ''CN=safeedge-opcua-probe'']
       [''DNS:localhost'', ''URI:'' @ kProbeApplicationUri]"

subsection \<open>Arguments\<close>

record probe_options =
  po_endpoint :: string
  sampling_ms :: double
  po_seconds :: int
  cert_path :: string
  po_key_path :: string
  write_identity :: string
  verification_options :: ServerVerificationOptions
  subscribe_events :: bool

definition default_probe_options :: probe_options where
  "default_probe_options =
     \<lparr>po_endpoint = ''opc.tcp://127.0.0.1:4840'', sampling_ms = Fin 50, po_seconds = 30, cert_path = [], po_key_path = [],
      write_identity = [], verification_options = \<lparr>sv_trust_list_directory = [], insecure_accept_any_certificate = False\<rparr>,
      subscribe_events = False\<rparr>"

definition probe_usage :: string where
  "probe_usage =
     ''usage: safeedge-opcua-probe [--endpoint URL] [--sampling-ms MS] [--seconds N]'' @ nl
     @ ''       [--cert CLIENT.der --key CLIENT-KEY.der] [--events]'' @ nl
     @ ''       --trust-list DIR | --insecure-accept-any-server-cert'' @ nl
     @ ''       safeedge-opcua-probe --write-identity DIR'' @ nl
     @ ''--trust-list loads trusted server certificates from DIR/*.der.'' @ nl"

text \<open>The loop over the arguments: an exit code with what was printed, or the options.\<close>

fun parse_arguments :: "probe_options \<Rightarrow> string list \<Rightarrow> (int \<times> string) + probe_options" where
  "parse_arguments opt [] = Inr opt"
| "parse_arguments opt (a # args) =
     (if a = ''--events'' then parse_arguments (opt\<lparr>subscribe_events := True\<rparr>) args
      else if a = ''--insecure-accept-any-server-cert'' then
        parse_arguments (opt\<lparr>verification_options := (verification_options opt)\<lparr>insecure_accept_any_certificate := True\<rparr>\<rparr>) args
      else if a = ''--help'' then Inl (0, probe_usage)
      else case args of
        [] \<Rightarrow> Inl (1, ''missing value for '' @ a @ '' (see --help)'' @ nl)
      | v # rest \<Rightarrow>
          if a = ''--endpoint'' then parse_arguments (opt\<lparr>po_endpoint := v\<rparr>) rest
          else if a = ''--sampling-ms'' then parse_arguments (opt\<lparr>sampling_ms := atof v\<rparr>) rest
          else if a = ''--seconds'' then parse_arguments (opt\<lparr>po_seconds := atoi v\<rparr>) rest
          else if a = ''--cert'' then parse_arguments (opt\<lparr>cert_path := v\<rparr>) rest
          else if a = ''--key'' then parse_arguments (opt\<lparr>po_key_path := v\<rparr>) rest
          else if a = ''--write-identity'' then parse_arguments (opt\<lparr>write_identity := v\<rparr>) rest
          else if a = ''--trust-list'' then
            parse_arguments (opt\<lparr>verification_options := (verification_options opt)\<lparr>sv_trust_list_directory := v\<rparr>\<rparr>) rest
          else Inl (1, ''unknown option '' @ a @ '' (see --help)'' @ nl))"

text \<open>What comes before the client: the end of the program, or the options to run with.\<close>

definition write_identity_files :: "'v ua_library \<Rightarrow> (string \<Rightarrow> write_answer) \<Rightarrow> string \<Rightarrow> int \<times> string" where
  "write_identity_files lib answer dir =
     (case createIdentity lib of
        None \<Rightarrow> (1, ''could not create a client certificate'' @ nl)
      | Some (key, cert) \<Rightarrow>
          if writeFile answer (dir @ ''/client.der'') cert \<and> writeFile answer (dir @ ''/client-key.der'') key
          then (0, ''wrote '' @ dir @ ''/client.der and '' @ dir @ ''/client-key.der'' @ nl)
          else (1, ''could not write the identity to '' @ dir @ nl))"

definition probe_prepare ::
  "bool \<Rightarrow> 'v ua_library \<Rightarrow> (string \<Rightarrow> write_answer) \<Rightarrow> string list \<Rightarrow> (int \<times> string) + probe_options" where
  "probe_prepare encryption lib answer args =
     (case parse_arguments default_probe_options args of
        Inl r \<Rightarrow> Inl r
      | Inr opt \<Rightarrow>
          if (cert_path opt = []) \<noteq> (po_key_path opt = []) then Inl (1, ''--cert and --key must be provided together'' @ nl)
          else if encryption \<and> write_identity opt \<noteq> [] then Inl (write_identity_files lib answer (write_identity opt))
          else Inr opt)"

subsection \<open>The session\<close>

text \<open>
  The client library: a client with its configuration, and the answers of a session.  The
  name of a status stands for one that is not good.
\<close>

record 'v client_library =
  client_new :: "'v client_config option"
  set_default_encryption :: "'v client_config \<Rightarrow> byte_string \<Rightarrow> byte_string \<Rightarrow> string option \<times> 'v client_config"
  connect_to :: "'v client_config \<Rightarrow> string \<Rightarrow> string option"
  policy_attribute :: "string option"
  mode_attribute :: "security_mode option"
  namespace_index_of :: "string \<Rightarrow> u16 option"
  create_subscription :: "double \<Rightarrow> double option"
  monitor_data :: "node_id \<Rightarrow> double \<Rightarrow> double option"
  monitor_events :: "select_clause list \<Rightarrow> nat \<Rightarrow> bool \<Rightarrow> string option"

text \<open>The calls that acquire and release, and those a server acts on.\<close>

datatype 'v client_call = NewClient | SetApplicationUri string | ConnectWith "'v client_config" string
  | Subscribe double | MonitorData node_id double | MonitorEvents "select_clause list" | Disconnect | DeleteClient

definition client_identity ::
  "'v ua_library \<Rightarrow> file_system \<Rightarrow> probe_options \<Rightarrow> string + string list \<times> byte_string \<times> byte_string" where
  "client_identity lib fs opt =
     (if cert_path opt \<noteq> [] \<and> po_key_path opt \<noteq> [] then
        let cert = probe_readFile fs (cert_path opt); key = probe_readFile fs (po_key_path opt) in
        if length cert = 0 \<or> length key = 0 then
          Inl (''could not read the identity from '' @ cert_path opt @ '' / '' @ po_key_path opt @ nl)
        else Inr ([''using the provisioned identity in '' @ cert_path opt @ nl], cert, key)
      else
        case createIdentity lib of
          None \<Rightarrow> Inl (''could not create a client certificate'' @ nl)
        | Some (key, cert) \<Rightarrow> Inr ([], cert, key))"

text \<open>Up to the connection: a message to end with, or the configuration to connect with.\<close>

definition probe_configure ::
  "bool \<Rightarrow> 'v ua_library \<Rightarrow> 'v client_library \<Rightarrow> file_system \<Rightarrow> probe_options \<Rightarrow> 'v client_config \<Rightarrow>
   (string + 'v client_config \<times> ServerVerificationPosture) \<times> 'v client_call list \<times> string list" where
  "probe_configure encryption lib cl fs opt cfg =
     (if \<not> encryption then (Inl (''this probe requires a build with encryption enabled'' @ nl), [], [])
      else case client_identity lib fs opt of
        Inl m \<Rightarrow> (Inl m, [], [])
      | Inr (out, cert, key) \<Rightarrow>
          let (bad, cfg) = set_default_encryption cl cfg cert key;
              calls = [SetApplicationUri kProbeApplicationUri]
          in case bad of
               Some name \<Rightarrow> (Inl (''could not configure the client identity: '' @ name @ nl), calls, out)
             | None \<Rightarrow>
                 let (posture, cfg) = configureServerVerification encryption lib fs (Some cfg) (verification_options opt) in
                 if \<not> configured posture then
                   (Inl (''could not configure server verification: '' @ sv_detail posture @ nl), calls, out)
                 else
                   (Inr (the cfg, posture), calls,
                    out @ (if \<not> verifies_server_certificate posture
                           then [''WARNING: this probe accepts any server certificate. Encryption without'' @ nl
                             @ ''         verification does not protect against server impersonation.'' @ nl]
                           else [])))"

definition dneq :: "double \<Rightarrow> double \<Rightarrow> bool" where
  "dneq a b \<longleftrightarrow> a \<noteq> b \<or> a = NaN"

text \<open>The intervals, when the server granted others than those asked for.\<close>

definition revised_note :: "string \<Rightarrow> double \<Rightarrow> double \<Rightarrow> string list" where
  "revised_note label asked revised =
     (if dneq revised asked
      then [label @ ''asked '' @ format_f 0 asked @ '' ms, server revised to '' @ format_f 0 revised @ '' ms'' @ nl]
      else [])"

text \<open>From the connection to the measurement: an exit code, or the revised intervals.\<close>

definition probe_subscribe ::
  "'v client_library \<Rightarrow> probe_options \<Rightarrow> ServerVerificationPosture \<Rightarrow>
   (int + double \<times> double) \<times> 'v client_call list \<times> string list" where
  "probe_subscribe cl opt verification =
     (case (policy_attribute cl, mode_attribute cl) of
        (Some policy_uri, Some Mode_SignAndEncrypt) \<Rightarrow>
          let out = [''negotiated SecurityPolicy: '' @ policy_uri @ ''; SecurityMode: SignAndEncrypt'' @ nl,
                     ''server certificate verification: '' @ sv_detail verification @ nl] in
          (case namespace_index_of cl kNamespaceUri of
             None \<Rightarrow> (Inl 2, [], out @ [''server does not publish '' @ kNamespaceUri @ nl])
           | Some ns \<Rightarrow>
               let out = out @ [''namespace '' @ kNamespaceUri @ '' resolved to index '' @ decimal (unat ns) @ nl];
                   asked = sampling_ms opt
               in case create_subscription cl asked of
                    None \<Rightarrow> (Inl 3, [Subscribe asked], out @ [''could not create a subscription'' @ nl])
                  | Some revised_publishing \<Rightarrow>
                      let out = out @ revised_note ''publishing interval: '' asked revised_publishing;
                          node = nodeIdOf ns kSafetyTransitionMonotonicNs;
                          calls = [Subscribe asked, MonitorData node asked]
                      in case monitor_data cl node asked of
                           None \<Rightarrow> (Inl 4, calls, out @ [''could not monitor the transition node'' @ nl])
                         | Some revised_sampling \<Rightarrow>
                             let out = out @ revised_note ''sampling interval:   '' asked revised_sampling in
                             if subscribe_events opt then
                               let calls = calls @ [MonitorEvents (event_clauses ns)]
                               in case monitor_events cl (event_clauses ns) 64 False of
                                    Some name \<Rightarrow>
                                      (Inl 5, calls, out @ [''could not subscribe to safety events: '' @ name @ nl])
                                  | None \<Rightarrow>
                                      (Inr (revised_publishing, revised_sampling), calls,
                                       out @ [''also subscribed to '' @ kSafetyEventTypeName @ '' events (queue 64)'' @ nl])
                             else (Inr (revised_publishing, revised_sampling), calls, out))
      | _ \<Rightarrow> (Inl 1, [], [''could not confirm the encrypted SecureChannel security attributes'' @ nl]))"

subsection \<open>Measurement and report\<close>

text \<open>A notification, with the reading of the monotonic clock that its callback takes.\<close>

datatype notification = DataChange u64 "data_value option" | SafetyEvent u64 "event_field list"

fun notified :: "notification \<Rightarrow> probe \<Rightarrow> probe" where
  "notified (DataChange now v) p = onTransitionChanged now v p"
| "notified (SafetyEvent now flds) p = onSafetyEvent now flds p"

text \<open>
  The loop until the deadline: for each reading of the clock, the notifications that the
  client library then delivers.  \<open>None\<close> is a loop that has not ended with the readings.
\<close>

fun measure_until :: "int \<Rightarrow> (int \<times> notification list) list \<Rightarrow> probe \<Rightarrow> probe option" where
  "measure_until deadline [] p = None"
| "measure_until deadline ((now, ns) # rest) p =
     (if now < deadline then measure_until deadline rest (fold notified ns p) else Some p)"

definition spread_text :: "u64 list \<Rightarrow> string" where
  "spread_text xs =
     (let sorted_xs = sort xs
      in ''n='' @ decimal (length sorted_xs) @ ''   min '' @ format_f 1 (ms (hd sorted_xs))
         @ '' ms   median '' @ format_f 1 (ms (sorted_xs ! (length sorted_xs div 2)))
         @ '' ms   max '' @ format_f 1 (ms (last sorted_xs)) @ '' ms'' @ nl)"

definition lesson :: string where
  "lesson =
     nl @ ''The binding constraint is the REVISED publishing interval above, not'' @ nl
     @ ''the one this client requested. Measured on this server:'' @ nl @ nl
     @ ''  asked 10/10, revised to 100/50 (stock limits)  ->  median 74.9 ms'' @ nl
     @ ''  asked 10/10, granted 10/10 (limits lowered)    ->  median 12.1 ms'' @ nl @ nl
     @ ''Same client, same request, six times the difference -- decided entirely'' @ nl
     @ ''by the server'' @ [CHR 0x27] @ ''s publishingIntervalLimits. A client cannot subscribe'' @ nl
     @ ''faster than the server permits, and one that reports the interval it'' @ nl
     @ ''asked for rather than the one it was given is reporting a wish.'' @ nl @ nl
     @ ''So a subscription is not inherently faster than a poll. What it removes'' @ nl
     @ ''is the *client'' @ [CHR 0x27] @ ''s* poll; the server-side intervals remain, and they are'' @ nl
     @ ''somebody'' @ [CHR 0x27] @ ''s configuration rather than a property of the protocol.'' @ nl"

definition probe_report :: "probe_options \<Rightarrow> probe \<Rightarrow> string list" where
  "probe_report opt p =
     [nl]
     @ (if g_latencies p = []
        then [''no transitions observed in '' @ decimal_int (po_seconds opt) @ '' s -- nothing tripped the runtime'' @ nl]
        else [spread_text (g_latencies p), lesson])
     @ (if subscribe_events opt
        then [nl]
          @ [if g_event_latencies p = [] then ''no safety events received'' @ nl
             else ''events: '' @ spread_text (g_event_latencies p)]
          @ [''counts: '' @ decimal (length (g_latencies p)) @ '' data-change notification(s), ''
               @ decimal (unat (g_events_received p)) @ '' event(s)'' @ nl
             @ ''        '' @ decimal (unat (g_events_coalesced_by_server p))
               @ '' transition(s) the SERVER itself coalesced between snapshot'' @ nl
             @ ''        reads, which no subscription of either kind could recover.'' @ nl]
        else [])
     @ (if g_saw_bad_status p
        then [nl @ ''At least one notification carried a bad status: the server could not'' @ nl
          @ ''read the runtime snapshot at that moment.'' @ nl]
        else [])"

definition subscribed_text :: "double \<Rightarrow> double \<Rightarrow> string" where
  "subscribed_text publishing sampling =
     ''subscribed: publishing '' @ format_f 0 publishing @ '' ms, sampling '' @ format_f 0 sampling
     @ '' ms -- as revised by the'' @ nl
     @ ''server, not as requested. Trip the runtime to produce notifications:'' @ nl
     @ ''  touch /tmp/safeedge-estop   then   touch /tmp/safeedge-ack'' @ nl @ nl"

text \<open>
  The program: its exit code, the calls of the client library, and its variables at the
  end.  \<open>begun\<close> is the reading of the steady clock before the loop.
\<close>

definition probe_main ::
  "bool \<Rightarrow> 'v ua_library \<Rightarrow> 'v client_library \<Rightarrow> file_system \<Rightarrow> (string \<Rightarrow> write_answer) \<Rightarrow> int \<Rightarrow>
   (int \<times> notification list) list \<Rightarrow> string list \<Rightarrow> (int \<times> 'v client_call list \<times> probe) option" where
  "probe_main encryption lib cl fs answer begun ticks args =
     (let finish = (\<lambda>code calls out p. Some (code, calls, p\<lparr>printed := printed p @ out\<rparr>)) in
      case probe_prepare encryption lib answer args of
        Inl (code, out) \<Rightarrow> finish code [] [out] new_probe
      | Inr opt \<Rightarrow>
          (case client_new cl of
             None \<Rightarrow> finish 1 [] [''could not create a client'' @ nl] new_probe
           | Some cfg \<Rightarrow>
               (case probe_configure encryption lib cl fs opt cfg of
                  (Inl m, calls, out) \<Rightarrow> finish 1 (NewClient # calls @ [DeleteClient]) (out @ [m]) new_probe
                | (Inr (cfg, posture), calls, out) \<Rightarrow>
                    let calls = NewClient # calls @ [ConnectWith cfg (po_endpoint opt)] in
                    (case connect_to cl cfg (po_endpoint opt) of
                       Some name \<Rightarrow>
                         finish 1 (calls @ [DeleteClient])
                           (out @ [''could not connect to '' @ po_endpoint opt @ '': '' @ name @ nl]) new_probe
                     | None \<Rightarrow>
                         let out = out @ [''connected to '' @ po_endpoint opt @ nl];
                             (result, more_calls, more_out) = probe_subscribe cl opt posture;
                             out = out @ more_out; calls = calls @ more_calls
                         in (case result of
                               Inl code \<Rightarrow> finish code (calls @ [Disconnect, DeleteClient]) out new_probe
                             | Inr (publishing, sampling) \<Rightarrow>
                                 let p = new_probe\<lparr>printed := out @ [subscribed_text publishing sampling]\<rparr> in
                                 (case measure_until (begun + po_seconds opt * 1000000000) ticks p of
                                    None \<Rightarrow> None
                                  | Some p \<Rightarrow> finish 0 (calls @ [Disconnect, DeleteClient]) (probe_report opt p) p))))))"

section \<open>The session\<close>

lemma probe_readFile_readFile: "path \<noteq> [] \<Longrightarrow> probe_readFile fs path = readFile fs path"
  by (simp add: probe_readFile_def readFile_def Let_def)

text \<open>What a client that is about to connect was configured with.\<close>

definition fit_to_connect :: "'v ua_library \<Rightarrow> file_system \<Rightarrow> ServerVerificationOptions \<Rightarrow> 'v client_config \<Rightarrow> bool" where
  "fit_to_connect lib fs vo cfg \<longleftrightarrow>
     client_mode cfg = Mode_SignAndEncrypt \<and>
     (insecure_accept_any_certificate vo \<or>
      (\<exists>v. readTrustList fs (sv_trust_list_directory vo) \<noteq> [] \<and>
        verification_trustlist lib v (readTrustList fs (sv_trust_list_directory vo)) = (None, certificate_verification cfg)))"

lemma configured_fit:
  "configureServerVerification encryption lib fs (Some c) vo = (posture, Some c') \<Longrightarrow> configured posture \<Longrightarrow>
   encryption \<and> fit_to_connect lib fs vo c'"
  by (auto simp: configureServerVerification_def new_ServerVerificationPosture_def fit_to_connect_def Let_def
      split: if_splits prod.splits option.splits)

lemma configureServerVerification_config:
  "\<exists>c'. snd (configureServerVerification encryption lib fs (Some c) vo) = Some c'"
  by (auto simp: configureServerVerification_def Let_def split: option.splits prod.splits)

lemma probe_configure_fit:
  assumes "probe_configure encryption lib cl fs opt cfg = (Inr (cfg', posture), calls, out)"
  shows "encryption \<and> fit_to_connect lib fs (verification_options opt) cfg'"
proof -
  obtain cfg1 where run: "configureServerVerification encryption lib fs (Some cfg1) (verification_options opt) = (posture, Some cfg')"
    and "configured posture"
    using assms
    by (auto simp: probe_configure_def Let_def split: if_splits sum.splits prod.splits option.splits)
      (metis configureServerVerification_config option.sel snd_conv)+
  then show ?thesis by (rule configured_fit)
qed

lemma probe_configure_calls:
  "fst (snd (probe_configure encryption lib cl fs opt cfg)) \<in> {[], [SetApplicationUri kProbeApplicationUri]}"
  by (auto simp: probe_configure_def Let_def split: sum.splits prod.splits option.splits)

text \<open>The calls of a session: some of these, in this order, and only on an encrypted channel.\<close>

definition subscription_calls :: "'v client_call list \<Rightarrow> bool" where
  "subscription_calls calls \<longleftrightarrow>
     list_all (\<lambda>c. case c of Subscribe _ \<Rightarrow> True | MonitorData _ _ \<Rightarrow> True | MonitorEvents _ \<Rightarrow> True | _ \<Rightarrow> False) calls"

lemma probe_subscribe_calls:
  assumes "probe_subscribe cl opt posture = (result, calls, out)"
  shows "subscription_calls calls \<and> (calls \<noteq> [] \<or> isl result = False \<longrightarrow> mode_attribute cl = Some Mode_SignAndEncrypt) \<and>
    (\<forall>code. result = Inl code \<longrightarrow> 1 \<le> code \<and> code \<le> 5)"
  using assms
  by (auto simp: probe_subscribe_def subscription_calls_def Let_def
      split: option.splits security_mode.splits if_splits)

lemma write_identity_files_code: "fst (write_identity_files lib answer dir) \<in> {0, 1}"
  by (simp add: write_identity_files_def split: option.splits prod.splits)

lemma parse_arguments_code: "parse_arguments opt args = Inl (code, out) \<Longrightarrow> code \<in> {0, 1}"
  by (induction opt args rule: parse_arguments.induct) (auto split: if_splits list.splits)

lemma probe_prepare_result:
  "probe_prepare encryption lib answer args = Inl (code, out) \<Longrightarrow> code \<in> {0, 1}"
  "probe_prepare encryption lib answer args = Inr opt \<Longrightarrow> parse_arguments default_probe_options args = Inr opt"
  using write_identity_files_code [of lib answer] parse_arguments_code [of default_probe_options args]
  by (auto simp: probe_prepare_def split: sum.splits if_splits) (metis fst_conv insertE singletonD)+

text \<open>The four ways a run can go.\<close>

lemma probe_main_runs:
  assumes "probe_main encryption lib cl fs answer begun ticks args = Some (code, calls, p)"
  obtains (early) "calls = []" and "code \<in> {0, 1}"
  | (unfit) pre where "calls = NewClient # pre @ [DeleteClient]" and "pre \<in> {[], [SetApplicationUri kProbeApplicationUri]}" and "code = 1"
  | (refused) pre opt cfg where "parse_arguments default_probe_options args = Inr opt"
      and "calls = NewClient # pre @ [ConnectWith cfg (po_endpoint opt), DeleteClient]"
      and "pre \<in> {[], [SetApplicationUri kProbeApplicationUri]}" and "code = 1"
      and "encryption" and "fit_to_connect lib fs (verification_options opt) cfg" and "connect_to cl cfg (po_endpoint opt) \<noteq> None"
  | (session) pre opt cfg sub where "parse_arguments default_probe_options args = Inr opt"
      and "calls = NewClient # pre @ ConnectWith cfg (po_endpoint opt) # sub @ [Disconnect, DeleteClient]"
      and "pre \<in> {[], [SetApplicationUri kProbeApplicationUri]}" and "subscription_calls sub" and "0 \<le> code" and "code \<le> 5"
      and "encryption" and "fit_to_connect lib fs (verification_options opt) cfg" and "connect_to cl cfg (po_endpoint opt) = None"
      and "sub \<noteq> [] \<or> code = 0 \<Longrightarrow> mode_attribute cl = Some Mode_SignAndEncrypt"
proof (cases "probe_prepare encryption lib answer args")
  case (Inl r)
  then show thesis
    using assms probe_prepare_result(1) [of encryption lib answer args "fst r" "snd r"]
    by (intro early) (auto simp: probe_main_def Let_def split: prod.splits)
next
  case (Inr opt)
  note prep = Inr
  note parsed = probe_prepare_result(2) [OF prep]
  show thesis
  proof (cases "client_new cl")
    case None
    then show thesis using assms prep by (intro early) (auto simp: probe_main_def Let_def)
  next
    case (Some cfg0)
    obtain result pre out where conf: "probe_configure encryption lib cl fs opt cfg0 = (result, pre, out)"
      using prod_cases3 by blast
    have pre: "pre \<in> {[], [SetApplicationUri kProbeApplicationUri]}"
      using probe_configure_calls [of encryption lib cl fs opt cfg0] by (simp add: conf)
    show thesis
    proof (cases result)
      case (Inl m)
      then show thesis using assms prep Some conf pre by (intro unfit [of pre]) (auto simp: probe_main_def Let_def)
    next
      case (Inr r)
      obtain cfg posture where r: "r = (cfg, posture)" by fastforce
      have fit: "encryption" "fit_to_connect lib fs (verification_options opt) cfg"
        using probe_configure_fit conf Inr r by blast+
      obtain res sub out2 where sub: "probe_subscribe cl opt posture = (res, sub, out2)" using prod_cases3 by blast
      note subs = probe_subscribe_calls [OF sub]
      show thesis
      proof (cases "connect_to cl cfg (po_endpoint opt)")
        case None
        have "calls = NewClient # pre @ ConnectWith cfg (po_endpoint opt) # sub @ [Disconnect, DeleteClient]"
          "(\<exists>c. res = Inl c \<and> code = c) \<or> \<not> isl res \<and> code = 0"
          using assms prep Some conf Inr r None sub
          by (auto simp: probe_main_def Let_def split: sum.splits option.splits)
        then show thesis using parsed pre fit None subs by (intro session [of opt pre cfg sub]) auto
      next
        case (Some name)
        then show thesis
          using assms prep \<open>client_new cl = Some cfg0\<close> conf Inr r parsed pre fit
          by (intro refused [of opt pre cfg]) (auto simp: probe_main_def Let_def)
      qed
    qed
  qed
qed

lemma subscription_calls_counts:
  "subscription_calls sub \<Longrightarrow> count_list sub DeleteClient = 0 \<and> count_list sub NewClient = 0 \<and> count_list sub Disconnect = 0 \<and>
     (\<forall>cfg ep. ConnectWith cfg ep \<notin> set sub)"
  by (induction sub) (auto simp: subscription_calls_def split: client_call.splits)

section \<open>Arguments\<close>

text \<open>The arguments that ask for given options.\<close>

definition arguments_of :: "probe_options \<Rightarrow> nat \<Rightarrow> string list" where
  "arguments_of opt sampling =
     [''--endpoint'', po_endpoint opt, ''--sampling-ms'', decimal sampling, ''--seconds'', decimal_int (po_seconds opt),
      ''--cert'', cert_path opt, ''--key'', po_key_path opt, ''--write-identity'', write_identity opt,
      ''--trust-list'', sv_trust_list_directory (verification_options opt)]
     @ (if insecure_accept_any_certificate (verification_options opt) then [''--insecure-accept-any-server-cert''] else [])
     @ (if subscribe_events opt then [''--events''] else [])"

lemma decimal_chars: "c \<in> set (decimal n) \<Longrightarrow> isdigit c \<and> \<not> isspace c \<and> to_lower c = c \<and> c \<noteq> CHR ''x'' \<and> c \<noteq> CHR ''.''"
  using decimal_isdigit [of c n] by (auto simp: isdigit_def isspace_def to_lower_def)

lemma decimal_not: "t \<noteq> [] \<Longrightarrow> \<not> isdigit (last t) \<Longrightarrow> take k (decimal n) \<noteq> t"
  by (metis decimal_isdigit in_set_takeD last_in_set)

lemma atof_decimal:
  assumes "n < 2 ^ 53"
  shows "atof (decimal n) = Fin (of_nat n)"
proof -
  have head: "decimal n \<noteq> []" "\<not> isspace (hd (decimal n))" "hd (decimal n) \<noteq> CHR ''-''" "hd (decimal n) \<noteq> CHR ''+''"
    using decimal_head [of n] by (auto simp: isdigit_def isspace_def)
  have space: "dropWhile isspace (decimal n) = decimal n"
    using head by (cases "decimal n") auto
  have low: "map to_lower (decimal n) = decimal n"
    using decimal_chars by (simp add: map_idI)
  have "mantissa isdigit (decimal n) = (decimal n, [], [])" by (simp add: mantissa_def)
  moreover have "take 3 (decimal n) \<noteq> ''inf''" "take 3 (decimal n) \<noteq> ''nan''" "take 2 (decimal n) \<noteq> ''0x''"
    by (rule decimal_not; simp add: isdigit_def)+
  ultimately have "unsigned_number (decimal n) = fl (of_nat n)"
    by (simp add: unsigned_number_def low Let_def exponent_def split: prod.splits)
  moreover have "fl (of_nat n) = Fin (of_nat n)"
  proof (rule fl_representable)
    have "(of_nat n :: rat) < 2 ^ 53" using assms by (metis of_nat_less_iff of_nat_numeral of_nat_power)
    also have "(2 :: rat) ^ 53 < 2 ^ 1024" by (rule power_strict_increasing) simp_all
    finally show "representable (of_nat n)"
      using rounded_small_int [of "int n"] assms by (simp add: representable_def)
  qed
  ultimately show ?thesis using head by (simp add: atof_def space)
qed

section \<open>Events\<close>

text \<open>What the select clauses of the client pick from the fields an event is fired with.\<close>

definition selected_fields :: "u16 \<Rightarrow> SafetyTransitionEvent \<Rightarrow> event_field list" where
  "selected_fields ns e =
     map (\<lambda>c. map_of (map (\<lambda>(name, v, ty). (name, (ty, v)))
                 (own_fields ns e @ [((0, ''Severity''), UInt16 (event_severity e), T_UINT16)])) (hd (browse_path c)))
       (event_clauses ns)"

lemma selected_fields_eq:
  "selected_fields ns e =
     [Some (T_INT64, Int64 (transition_monotonic_ns e)), Some (T_UINT64, UInt64 (ev_safety_sequence e)),
      Some (T_UINT64, UInt64 (missed_transitions e)), Some (T_UINT16, UInt16 (event_severity e))]"
  by (simp add: selected_fields_def event_clauses_def makeSelectClause_def own_fields_def)

definition counted :: "probe \<Rightarrow> u64" where
  "counted p = g_events_received p + g_events_coalesced_by_server p"

lemma say_simps [simp]:
  "g_events_received (say t p) = g_events_received p"
  "g_events_coalesced_by_server (say t p) = g_events_coalesced_by_server p"
  "g_latencies (say t p) = g_latencies p" "g_event_latencies (say t p) = g_event_latencies p"
  "g_last_transition (say t p) = g_last_transition p" "g_had_initial (say t p) = g_had_initial p"
  "g_saw_bad_status (say t p) = g_saw_bad_status p"
  by (simp_all add: say_def)

lemma onTransitionChanged_counted [simp]: "counted (onTransitionChanged now v p) = counted p"
  by (simp add: counted_def onTransitionChanged_def Let_def split: option.splits ua_scalar.splits)

lemma onSafetyEvent_counted: "counted (onSafetyEvent now (selected_fields ns e) p) = counted p + stands_for e"
  by (simp add: counted_def onSafetyEvent_def selected_fields_eq kFieldCount_def Let_def stands_for_def)

text \<open>The events among the notifications.\<close>

fun event_notifications :: "notification list \<Rightarrow> event_field list list" where
  "event_notifications [] = []"
| "event_notifications (SafetyEvent now flds # ns) = flds # event_notifications ns"
| "event_notifications (DataChange now v # ns) = event_notifications ns"

lemma notified_counted:
  "event_notifications heard = map (selected_fields ns \<circ> fst) events \<Longrightarrow>
   counted (fold notified heard p) = counted p + told events"
proof (induction heard arbitrary: p events rule: event_notifications.induct)
  case (2 now flds heard)
  then obtain e es where "events = e # es" "flds = selected_fields ns (fst e)"
    "event_notifications heard = map (selected_fields ns \<circ> fst) es" by (cases events) auto
  moreover from this have "counted (fold notified heard q) = counted q + told es" for q using 2(1) by blast
  ultimately show ?case by (simp add: onSafetyEvent_counted)
qed simp_all

section \<open>Properties\<close>



text \<open>
  Options survive the command line: the arguments that ask for options, in decimal
  and with the switches that are on, are parsed as exactly these options.
\<close>

theorem arguments_roundtrip:
  assumes "sampling_ms opt = Fin (of_nat sampling)" and "sampling < 2 ^ 53" and "- (2 ^ 31) \<le> po_seconds opt" and "po_seconds opt < 2 ^ 31"
  shows "parse_arguments default_probe_options (arguments_of opt sampling) = Inr opt"
  using assms by (simp add: arguments_of_def default_probe_options_def atof_decimal atoi_decimal)

section \<open>Concrete cases\<close>

definition answering_client :: "byte_string list option client_library" where
  "answering_client =
     \<lparr>client_new = Some \<lparr>client_mode = Mode_None, certificate_verification = None\<rparr>,
      set_default_encryption = (\<lambda>c _ _. (None, c)), connect_to = (\<lambda>_ _. None),
      policy_attribute = Some ''Basic256Sha256'', mode_attribute = Some Mode_SignAndEncrypt,
      namespace_index_of = (\<lambda>_. Some 2), create_subscription = (\<lambda>_. None),
      monitor_data = (\<lambda>_ _. None), monitor_events = (\<lambda>_ _ _. None)\<rparr>"

definition refused_run :: "(int \<times> byte_string list option client_call list \<times> probe) option" where
  "refused_run = probe_main True listed_library answering_client one_certificate (\<lambda>_. None) 0 [] [''--trust-list'', ''t'']"

fun is_connect :: "'v client_call \<Rightarrow> bool" where
  "is_connect (ConnectWith cfg ep) = True"
| "is_connect _ = False"



theorem arguments_roundtrip_witness:
  "parse_arguments default_probe_options (arguments_of (default_probe_options\<lparr>subscribe_events := True, cert_path := ''c''\<rparr>) 50) =
     Inr (default_probe_options\<lparr>subscribe_events := True, cert_path := ''c''\<rparr>)"
  by (rule arguments_roundtrip) (simp_all add: default_probe_options_def)

end
