(* ===== verification/Fuzz_Target.thy ===== *)
theory Fuzz_Target
  imports Black_Channel
begin

text \<open>
  The fuzz target of the telegram decoder (\<open>fuzz/fuzz_telegram_decode.cpp\<close>): two deliveries
  of an arbitrary frame to a fresh receiver, each followed by a check that traps, and a
  poll.  A trap is \<open>None\<close>.  The theory shows that no input of any length traps, and which
  of the receiver's verdicts the target can reach at all.
\<close>

section \<open>Model\<close>

definition fuzz_address :: SafetyAddress where
  "fuzz_address = \<lparr>source = 0x0011, destination = 0x2200, parameter_signature = 0xDEADBEEF\<rparr>"

definition checkReceiveOutput :: "ReceiveStatus \<Rightarrow> u8 list \<Rightarrow> nat \<Rightarrow> unit option" where
  "checkReceiveOutput result frm size_out =
     (if result = RS_Valid then
        if size_out + kOverheadBytes \<noteq> length frm then None else Some ()
      else if size_out \<noteq> 0 then None
      else Some ())"

text \<open>The two verdicts and that of the poll, unless a check traps.\<close>

definition fuzz_run :: "u8 list \<Rightarrow> (ReceiveStatus \<times> ReceiveStatus \<times> ReceiveStatus) option" where
  "fuzz_run data =
     (let r = new_SafetyReceiver fuzz_address 10000000;
          d = \<lparr>payload_out = replicate kMaxPayloadBytes 0, payload_size = 0, status_out = 0\<rparr>;
          (now_ns, frm) = (if 0 < length data then (int (unat (data ! 0)) * 1000000, drop 1 data) else (0, data));
          (first, r, d) = receive r frm now_ns d
      in case checkReceiveOutput first frm (payload_size d) of
           None \<Rightarrow> None
         | Some _ \<Rightarrow>
             let (second, r, d) = receive r frm (now_ns + 1000000) d
             in case checkReceiveOutput second frm (payload_size d) of
                  None \<Rightarrow> None
                | Some _ \<Rightarrow> let (polled, r) = poll r (now_ns + 20000000) in Some (first, second, polled))"

definition LLVMFuzzerTestOneInput :: "u8 list \<Rightarrow> int option" where
  "LLVMFuzzerTestOneInput data = map_option (\<lambda>_. 0) (fuzz_run data)"

section \<open>No trap\<close>

lemma receive_checked:
  assumes "receive r raw now d = (v, r', d')"
  shows "checkReceiveOutput v raw (payload_size d') = Some ()"
proof (cases "v = RS_Valid")
  case True
  obtain p s cn where "raw = wire (r_address r) p s cn" "d' = deliver d p s"
    using assms [unfolded True] by (rule receive_valid)
  then show ?thesis by (simp add: checkReceiveOutput_def True deliver_def size_defs)
next
  case False
  then show ?thesis using receive_not_valid [OF assms] by (simp add: checkReceiveOutput_def reset_delivery_def)
qed

lemma next_cn_other: "next_cn cn \<noteq> cn"
  by (auto simp: next_cn_def)

text \<open>The same frame again, within the watchdog: a repetition if it was accepted.\<close>

lemma received_again:
  assumes "receive r raw now d = (v, r', d')" and "t \<le> watchdog_ns r" and "\<not> safe_state r"
  shows "\<exists>r''. receive r' raw (now + t) d' = (if v = RS_Valid then RS_Repetition else RS_InSafeState, r'', reset_delivery d') \<and>
    safe_state r''"
proof (cases "v = RS_Valid")
  case True
  obtain p s cn where raw: "raw = wire (r_address r) p s cn" and r': "r' = accept r now cn" and d': "d' = deliver d p s"
    and len: "length p \<le> 64" "length p \<le> length (payload_out d)"
    using assms(1) [unfolded True] by (rule receive_valid)
  have "verdict r' (length (payload_out d')) (now + t) p s cn (computeTelegramCrc (r_address r) p s cn) = RS_Repetition"
    using assms(2,3) len next_cn_other [of cn]
    by (simp add: verdict_def r' d' deliver_def late_def in_sequence_def copy_to_def)
  then show ?thesis
    using True rejected_latched [of RS_Repetition] by (simp add: raw wire_def receive_frame)
next
  case False
  then show ?thesis using receive_not_valid [OF assms(1)] receive_latched by auto
qed

section \<open>Properties\<close>

text \<open>
  C39.  No input makes the fuzz target trap: whatever the bytes and however many, both checks on
  the receiver's outputs pass and the target returns zero.  The second delivery of the
  frame is a repetition if the first was accepted and refused in the safe state if not, and
  the poll always finds the safe state.
\<close>

theorem fuzz_never_traps:
  "LLVMFuzzerTestOneInput data = Some 0 \<and>
   (\<exists>first. fuzz_run data = Some (first, if first = RS_Valid then RS_Repetition else RS_InSafeState, RS_InSafeState))"
proof -
  let ?r = "new_SafetyReceiver fuzz_address 10000000"
  let ?d = "\<lparr>payload_out = replicate kMaxPayloadBytes 0, payload_size = 0, status_out = 0\<rparr>"
  obtain now frm where nf: "(if 0 < length data then (int (unat (data ! 0)) * 1000000, drop 1 data) else (0, data)) = (now, frm)"
    by fastforce
  obtain v r' d' where one: "receive ?r frm now ?d = (v, r', d')" using prod_cases3 by blast
  obtain r'' where two: "receive r' frm (now + 1000000) d' =
      (if v = RS_Valid then RS_Repetition else RS_InSafeState, r'', reset_delivery d')" "safe_state r''"
    using received_again [OF one, of 1000000] by (auto simp: new_SafetyReceiver_def)
  have "fuzz_run data = Some (v, if v = RS_Valid then RS_Repetition else RS_InSafeState, RS_InSafeState)"
    unfolding fuzz_run_def Let_def nf
    using receive_checked [OF one] receive_checked [OF two(1)] two(2) by (simp add: one two(1) poll_def)
  then show ?thesis by (simp add: LLVMFuzzerTestOneInput_def)
qed

end
