(* ===== verification/Cycle_Report.thy ===== *)
theory Cycle_Report
  imports Text_Format
begin

text \<open>
  The report on the cyclic executor (\<open>examples/rt_cycle_report.cpp\<close>): the arguments, the
  configuration, the run and everything printed.  The first line of \<open>/proc/version\<close> and the
  answers of the scheduler are arguments, and the run is that of the executor's model.  The
  theory shows that the report describes a complete run, and when it says that its figures
  are not to be quoted.
\<close>

section \<open>Model\<close>

definition contains :: "string \<Rightarrow> string \<Rightarrow> bool" where
  "contains line pat \<longleftrightarrow> str_find pat line \<noteq> None"

text \<open>The first line of \<open>/proc/version\<close>, if the file opens.\<close>

definition isVirtualised :: "string option \<Rightarrow> bool" where
  "isVirtualised version =
     (case version of
        None \<Rightarrow> False
      | Some line \<Rightarrow> contains line ''microsoft'' \<or> contains line ''Microsoft'' \<or> contains line ''WSL'')"

definition policyName :: "int \<Rightarrow> string" where
  "policyName pol =
     (if pol = 0 then ''SCHED_OTHER'' else if pol = 1 then ''SCHED_FIFO'' else if pol = 2 then ''SCHED_RR'' else ''unknown'')"

text \<open>A row; \<open>None\<close> where a percentile is undefined.\<close>

definition printHistogram :: "string \<Rightarrow> LatencyHistogram \<Rightarrow> string option" where
  "printHistogram label h =
     (case (p50 h, p99 h, p999 h) of
        (Some a, Some b, Some c) \<Rightarrow>
          Some (''| '' @ pad_right 22 label @ '' | '' @ pad_left 7 (decimal_int (hist_min h)) @ '' | ''
            @ pad_left 7 (decimal_int a) @ '' | '' @ pad_left 8 (decimal_int b) @ '' | ''
            @ pad_left 9 (decimal_int c) @ '' | '' @ pad_left 10 (decimal_int (hmax h)) @ '' |'' @ nl)
      | _ \<Rightarrow> None)"

definition long_argument :: "string list \<Rightarrow> nat \<Rightarrow> int \<Rightarrow> int" where
  "long_argument argv i fallback = (if i < length argv then fst (strtol (argv ! i)) else fallback)"

definition report_config :: "int \<Rightarrow> ExecutorConfig" where
  "report_config hz =
     default_ExecutorConfig
       \<lparr>period := 1000000000 sdiv hz, overrun_policy := kSkipMissed, guard_allocations := True,
        thread := (thread default_ExecutorConfig)
          \<lparr>policy := kFifo, priority := 80, cpu := 2, lock_memory := True, prefault_stack := True\<rparr>\<rparr>"

definition conditions ::
  "int \<Rightarrow> int \<Rightarrow> u64 \<Rightarrow> ThreadConfigReport \<Rightarrow> bool \<Rightarrow> string option \<Rightarrow> string list" where
  "conditions hz secs cycles report installed version =
     [''# safeedge cyclic executor report'' @ nl @ nl, ''## Measurement conditions'' @ nl @ nl,
      ''- Requested: '' @ decimal_int hz @ '' Hz for '' @ decimal_int secs @ '' s ('' @ decimal (unat cycles)
        @ '' cycles, '' @ decimal_int (period (report_config hz)) @ '' ns period)'' @ nl,
      ''- Scheduling requested: SCHED_FIFO priority 80'' @ nl,
      ''- Scheduling obtained:  '' @ policyName (effective_policy report) @ '' priority ''
        @ decimal_int (effective_priority report) @ ''  -> ''
        @ (if scheduling_applied report then ''GRANTED'' else ''DENIED'') @ nl,
      ''- CPU pinning:          '' @ (if affinity_applied report then ''verified'' else ''NOT APPLIED'') @ nl,
      ''- Memory locked:        '' @ (if memory_locked report then ''yes (mlockall)'' else ''NO'') @ nl,
      ''- Stack prefaulted:     '' @ (if stack_prefaulted report then ''yes'' else ''no'') @ nl,
      ''- Allocation guard:     '' @ (if installed then ''installed'' else ''NOT LINKED'') @ nl,
      ''- Virtualised host:     '' @ (if isVirtualised version then ''YES'' else ''no'') @ nl]
     @ (if \<not> fullyApplied report then [''- Diagnostics:          '' @ what report @ nl] else [])"

definition disclaimer :: string where
  "disclaimer = ''> The figures below are NOT a characterisation of this code.'' @ nl"

definition trust_note :: "ThreadConfigReport \<Rightarrow> string option \<Rightarrow> string list" where
  "trust_note report version =
     (let trustworthy = scheduling_applied report \<and> affinity_applied report \<and> \<not> isVirtualised version in
      (if \<not> trustworthy then
         [nl, disclaimer,
          ''> Without real-time scheduling on a non-virtualised host, the tail is'' @ nl,
          ''> dominated by other threads and by the hypervisor. Treat the median as'' @ nl,
          ''> indicative and everything above p99 as a measurement of the platform.'' @ nl,
          ''> Run this on tuned bare-metal Linux before quoting any number from it.'' @ nl]
       else [])
      @ [nl])"

definition control_step :: "u64 callback" where
  "control_step ctx st accumulator =
     (accumulator + (ctx_index ctx XOR word_of_int (ctx_wakeup_jitter_ns ctx)), [], False)"

definition results :: "ExecutorStats \<Rightarrow> string list option" where
  "results st =
     (case (printHistogram ''wakeup jitter'' (wakeup_jitter st), printHistogram ''callback execution'' (execution_time st),
            printHistogram ''deadline to complete'' (cycle_total st)) of
        (Some a, Some b, Some c) \<Rightarrow>
          Some
            [''## Results'' @ nl @ nl,
             ''| Measurement (ns)       |     min |     p50 |      p99 |     p99.9 |        max |'' @ nl,
             ''|------------------------|---------|---------|----------|-----------|------------|'' @ nl,
             a, b, c, nl,
             ''- Cycles executed:       '' @ decimal (unat (cycles_executed st)) @ nl,
             ''- Overruns:              '' @ decimal (unat (overruns st)) @ '' (''
               @ format_f 4 (ddiv (dmul (Fin 100) (double_of_int (uint (overruns st))))
                   (double_of_int (if cycles_executed st = 0 then 1 else uint (cycles_executed st)))) @ ''%)'' @ nl,
             ''- Deadlines skipped:     '' @ decimal (unat (skipped_cycles st)) @ nl,
             ''- Allocation violations: '' @ decimal (unat (allocation_violations st))
               @ (if allocation_violations st = 0 then [] else ''  <-- DEFECT ON THE RT PATH'') @ nl,
             ''- Mean wakeup jitter:    '' @ format_f 0 (mean (wakeup_jitter st)) @ '' ns'' @ nl]
      | _ \<Rightarrow> None)"

text \<open>
  The program: its exit code and what it printed, in pieces.  \<open>None\<close> is a run that does not
  return, or a product of the two arguments that does not fit its type.
\<close>

definition cycle_report ::
  "string option \<Rightarrow> system \<Rightarrow> timespec \<Rightarrow> (nat \<Rightarrow> cycle_env) \<Rightarrow> alloc_guard \<Rightarrow> string list \<Rightarrow> (int \<times> string list) option" where
  "cycle_report version sys started envs g argv =
     (let hz = long_argument argv 1 1000; secs = long_argument argv 2 5 in
      if hz \<le> 0 \<or> secs \<le> 0 then
        Some (2, [''usage: '' @ argv ! 0 @ '' [frequency_hz] [seconds]'' @ nl])
      else if \<not> i64 (hz * secs) then None
      else
        let cycles = word_of_int (hz * secs);
            e = new_CyclicExecutor (report_config hz);
            thread_report = configureCallingThread sys e;
            g = resetAllocationReport (setAllocationPolicy kCount g)
        in case run control_step cycles started envs (e, 0, g) of
             None \<Rightarrow> None
           | Some (e, accumulator, g') \<Rightarrow>
               map_option (\<lambda>rows. (0, conditions hz secs cycles thread_report (guardIsInstalled g) version
                   @ trust_note thread_report version @ rows))
                 (results (exec_stats e)))"

section \<open>The run\<close>

lemma percentile_some:
  assumes "hcount h = of_nat n" and "n < 2 ^ 63" and "q \<noteq> NaN"
  shows "\<exists>p. percentile h q = Some p"
proof -
  have u: "uint (hcount h) = int n"
    using assms(1,2) by (simp add: uint_nat unat_of_nat_small)
  have b: "dmul (dclamp q (Fin 0) (Fin 1)) (double_of_int (int n)) = Fin (rank_product n q)"
    "0 \<le> rank_product n q" "rank_product n q \<le> 2 ^ 63"
    using rank_product_bounds [of n q] assms(2,3) by simp_all
  then have "0 \<le> \<lceil>rank_product n q\<rceil>" "\<lceil>rank_product n q\<rceil> \<le> 2 ^ 63" by (simp_all add: ceiling_le_iff)
  then have "\<exists>t. target_rank h q = Some t" unfolding target_rank_def Let_def u b(1) by simp
  then show ?thesis by (auto simp: percentile_def)
qed

lemma quantile_numbers: "fl (1 / 2) \<noteq> NaN" "fl (99 / 100) \<noteq> NaN" "fl (999 / 1000) \<noteq> NaN"
  by (simp_all add: fl_def Let_def)

lemma printHistogram_some:
  assumes "hcount h = of_nat n" and "n < 2 ^ 63"
  shows "\<exists>row. printHistogram label h = Some row"
  using percentile_some [OF assms quantile_numbers(1)] percentile_some [OF assms quantile_numbers(2)]
    percentile_some [OF assms quantile_numbers(3)]
  by (auto simp: printHistogram_def p50_def p99_def p999_def)

lemma foldl_hrecord_count: "hcount (foldl hrecord h xs) = hcount h + of_nat (length xs)"
  by (induction xs arbitrary: h) (simp_all add: hrecord_def recordMany_def Let_def algebra_simps)

lemma control_step_quiet: "fst (snd (control_step ctx st a)) = []" "snd (snd (control_step ctx st a)) = False"
  by (simp_all add: control_step_def)

text \<open>Nothing stops the run and nothing it does allocates.\<close>

lemma undisturbed_run:
  assumes ret: "run_loop control_step mc envs 0 s = Some r" and "0 < period (exec_config (executor s))"
    and "\<And>k. \<not> stop_seen (envs k)" and "\<not> stop_requested (executor s)"
  shows "\<not> stop_requested (executor r) \<and> g_violations (guard r) = g_violations (guard s)"
proof -
  let ?I = "\<lambda>k t. exec_config (executor t) = exec_config (executor s) \<and> \<not> stop_requested (executor t) \<and>
    g_violations (guard t) = g_violations (guard s)"
  have "\<exists>n t. ?I n t \<and> (r = t \<and> mc \<noteq> 0 \<and> mc \<le> loop_index t \<or> r = observe_stop (envs n) t \<and> stopRequested (executor r))"
  proof (rule run_loop_rule [OF ret, where I = ?I])
    fix k t t'
    assume I: "?I k t" and cyc: "run_cycle control_step (envs k) (observe_stop (envs k) t) = Some t'"
    have same: "observe_stop (envs k) t = t" using assms(3) by (simp add: observe_stop_def)
    have p: "0 < period (exec_config (executor (observe_stop (envs k) t)))" using I assms(2) by simp
    show "?I (Suc k) (t'\<lparr>loop_index := loop_index t' + 1\<rparr>)"
      using run_cycle_result [OF cyc p] run_cycle_callback [OF cyc p] I
      by (auto simp: same control_step_quiet noted_def Let_def)
  qed (use assms(4) in simp)
  then show ?thesis using assms(3) by (auto simp: observe_stop_def stopRequested_def)
qed

text \<open>A run of the report executes every cycle it was asked for.\<close>

lemma report_run:
  assumes "mc \<noteq> 0" and "0 < period (exec_config e)" and "\<And>k. \<not> stop_seen (envs k)"
    and "\<And>k d. \<exists>j. nanosleep (envs k) d j \<noteq> EINTR" and "exec_stats e = new_ExecutorStats"
  shows "\<exists>e' a g'. run control_step mc started envs (e, 0, g) = Some (e', a, g') \<and>
    cycles_executed (exec_stats e') = mc \<and> allocation_violations (exec_stats e') = 0 \<and>
    hcount (wakeup_jitter (exec_stats e')) = mc \<and> hcount (execution_time (exec_stats e')) = mc \<and>
    hcount (cycle_total (exec_stats e')) = mc"
proof -
  let ?s = "start_state started e 0 g"
  obtain r where r: "run_loop control_step mc envs 0 ?s = Some r"
    using run_loop_returns [of mc envs ?s control_step 0] assms(1,2,4)
    by (auto simp: start_state_def tolerated_def control_step_quiet)
  obtain n where n: "on_schedule envs ?s n r" "n = unat mc \<or> stopRequested (executor r)"
    using run_loop_schedule [OF r] assms(2) by (auto simp: start_state_def)
  have u: "\<not> stop_requested (executor r) \<and> g_violations (guard r) = g_violations g"
    using undisturbed_run [OF r] assms(2,3) by (simp add: start_state_def)
  then have mc: "of_nat n = mc" using n(2) by (simp add: stopRequested_def)
  have "run control_step mc started envs (e, 0, g) = Some
      ((executor r)\<lparr>exec_stats := (exec_stats (executor r))\<lparr>allocation_violations := 0\<rparr>\<rparr>, user r, guard r)"
    using r u assms(2) by (simp add: run_def Let_def on_stats_def allocationReport_def)
  then show ?thesis
    using n(1) mc assms(5)
    by (simp add: on_schedule_def cycle_log_def start_state_def Let_def new_ExecutorStats_def foldl_hrecord_count
        new_LatencyHistogram_def)
qed

lemma report_config_fields [simp]:
  "exec_config (new_CyclicExecutor (report_config hz)) = report_config hz"
  "exec_stats (new_CyclicExecutor (report_config hz)) = new_ExecutorStats"
  by (simp_all add: new_CyclicExecutor_def)

lemma report_period: "0 < hz \<Longrightarrow> 0 < period (report_config hz) \<longleftrightarrow> hz \<le> 1000000000"
  by (simp add: report_config_def signed_divide_int_def pos_imp_zdiv_pos_iff)

lemma results_some:
  assumes "hcount (wakeup_jitter st) = of_nat n" and "hcount (execution_time st) = of_nat n"
    and "hcount (cycle_total st) = of_nat n" and "n < 2 ^ 63"
  shows "\<exists>rows. results st = Some rows"
  using printHistogram_some [OF assms(1,4), of "''wakeup jitter''"]
    printHistogram_some [OF assms(2,4), of "''callback execution''"]
    printHistogram_some [OF assms(3,4), of "''deadline to complete''"]
  by (auto simp: results_def)

lemma results_lines:
  assumes "results st = Some rows"
  shows "''- Cycles executed:       '' @ decimal (unat (cycles_executed st)) @ nl \<in> set rows"
    and "allocation_violations st = 0 \<Longrightarrow> ''- Allocation violations: '' @ decimal 0 @ nl \<in> set rows"
    and "disclaimer \<notin> set rows"
  using assms
  by (auto simp: results_def disclaimer_def printHistogram_def nl_def split: option.splits)

lemma disclaimer_conditions: "disclaimer \<notin> set (conditions hz secs cycles report installed version)"
  by (simp add: conditions_def disclaimer_def nl_def)

lemma disclaimer_trust_note:
  "disclaimer \<in> set (trust_note report version) \<longleftrightarrow>
   \<not> (scheduling_applied report \<and> affinity_applied report \<and> \<not> isVirtualised version)"
  by (simp add: trust_note_def disclaimer_def nl_def Let_def)

lemma arguments_read:
  assumes "0 < hz" and "0 < secs" and "hz * secs < 2 ^ 63"
  shows "long_argument [prog, decimal_int hz, decimal_int secs] 1 d = hz"
    and "long_argument [prog, decimal_int hz, decimal_int secs] 2 d = secs"
proof -
  have "hz \<le> hz * secs" "secs \<le> hz * secs" using assms(1,2) by simp_all
  then have "hz < 2 ^ 63" "secs < 2 ^ 63" using assms(3) by linarith+
  then have "i64 hz" "i64 secs" using assms(1,2) by (simp_all add: i64_def)
  then show "long_argument [prog, decimal_int hz, decimal_int secs] 1 d = hz"
    "long_argument [prog, decimal_int hz, decimal_int secs] 2 d = secs"
    by (simp_all add: long_argument_def strtol_decimal_int)
qed

section \<open>Properties\<close>

text \<open>
  The report describes a complete run: for a frequency of at most one cycle per nanosecond
  and a product that fits its type, if nothing else asks the executor to stop and no sleep is
  interrupted for ever, the program exits with zero, has executed exactly the cycles it
  announces without an allocation, and carries the disclaimer exactly if
  real-time scheduling or the pinning was not obtained or the host looks virtualised.
\<close>

theorem report_complete:
  assumes "0 < hz" and "hz \<le> 1000000000" and "0 < secs" and "hz * secs < 2 ^ 63"
    and "\<And>k. \<not> stop_seen (envs k)" and "\<And>k d. \<exists>j. nanosleep (envs k) d j \<noteq> EINTR"
  shows "\<exists>out. cycle_report version sys started envs g [prog, decimal_int hz, decimal_int secs] = Some (0, out) \<and>
    ''- Cycles executed:       '' @ decimal (nat (hz * secs)) @ nl \<in> set out \<and>
    ''- Allocation violations: '' @ decimal 0 @ nl \<in> set out \<and>
    (let r = fst (applyThreadConfig sys (thread (report_config hz)))
     in disclaimer \<in> set out \<longleftrightarrow> \<not> (scheduling_applied r \<and> affinity_applied r \<and> \<not> isVirtualised version))"
proof -
  let ?e = "new_CyclicExecutor (report_config hz)" 
  let ?g = "resetAllocationReport (setAllocationPolicy kCount g)"
  have pos: "0 < hz * secs" using assms(1,3) by simp
  have bounds: "\<not> hz \<le> 0" "\<not> secs \<le> 0" "i64 (hz * secs)" using assms(1,3,4) pos unfolding i64_def by linarith+
  note args = arguments_read [OF assms(1,3,4)]
  obtain n where n: "hz * secs = int n" using pos nonneg_int_cases [of "hz * secs"] by fastforce
  then have small: "0 < n" "n < 2 ^ 63" using pos assms(4) by simp_all
  define mc :: u64 where "mc = of_nat n"
  have mc: "word_of_int (hz * secs) = mc" "unat mc = n" using small by (simp_all add: mc_def n unat_of_nat_small)
  then have "mc \<noteq> 0" using small by auto
  then obtain e' a g' where run: "run control_step mc started envs (?e, 0, ?g) = Some (e', a, g')"
    and st: "cycles_executed (exec_stats e') = mc" "allocation_violations (exec_stats e') = 0"
      "hcount (wakeup_jitter (exec_stats e')) = mc" "hcount (execution_time (exec_stats e')) = mc"
      "hcount (cycle_total (exec_stats e')) = mc"
    using report_run [of mc ?e envs started ?g] report_period [OF assms(1)] assms(2,5,6) by auto
  obtain rows where rows: "results (exec_stats e') = Some rows"
    using results_some [of "exec_stats e'" n] st small(2) by (auto simp: mc_def)
  define r where "r = fst (applyThreadConfig sys (thread (report_config hz)))"
  have "cycle_report version sys started envs g [prog, decimal_int hz, decimal_int secs] =
      Some (0, conditions hz secs mc r (guardIsInstalled ?g) version @ trust_note r version @ rows)"
    unfolding cycle_report_def args Let_def mc(1) run
    using bounds by (simp add: rows configureCallingThread_def r_def)
  then show ?thesis
    using results_lines [OF rows] st(1,2) mc(2) n disclaimer_conditions disclaimer_trust_note [of r version]
    by (auto simp: Let_def simp flip: r_def)
qed

text \<open>An undisturbed second at a kilohertz on a machine that grants the scheduling but not the pinning.\<close>

definition quiet_env :: cycle_env where
  "quiet_env =
     \<lparr>stop_seen = False, nanosleep = \<lambda>d n. if n = 0 then EINTR else 0, woke_at = \<lparr>tv_sec = 1, tv_nsec = 0\<rparr>,
      finished_at = \<lparr>tv_sec = 1, tv_nsec = 10\<rparr>\<rparr>"

theorem report_complete_witness:
  "\<exists>out. cycle_report (Some ''Linux version 6.1'') ignoring_system \<lparr>tv_sec = 0, tv_nsec = 0\<rparr> (\<lambda>_. quiet_env) new_guard
      [''rt_cycle_report'', decimal_int 1000, decimal_int 1] = Some (0, out) \<and>
    ''- Cycles executed:       '' @ decimal 1000 @ nl \<in> set out"
proof -
  have "\<exists>j. nanosleep quiet_env d j \<noteq> EINTR" for d
    by (rule exI [of _ 1]) (simp add: quiet_env_def EINTR_def)
  then show ?thesis
    using report_complete [of 1000 1 "\<lambda>_. quiet_env" "Some ''Linux version 6.1''" ignoring_system
        "\<lparr>tv_sec = 0, tv_nsec = 0\<rparr>" new_guard "''rt_cycle_report''"]
    by (auto simp: quiet_env_def)
qed

text \<open>
  A frequency above one cycle per nanosecond is accepted and announced, but its period is
  zero and nothing is run: the report shows no executed cycle.
\<close>

lemma report_beyond_nanoseconds:
  assumes "1000000000 < hz" and "0 < secs" and "hz * secs < 2 ^ 63"
  shows "\<exists>out. cycle_report version sys started envs g [prog, decimal_int hz, decimal_int secs] = Some (0, out) \<and>
    ''- Cycles executed:       '' @ decimal 0 @ nl \<in> set out"
proof -
  let ?e = "new_CyclicExecutor (report_config hz)" and ?g = "resetAllocationReport (setAllocationPolicy kCount g)"
  have "0 < hz" using assms(1) by simp
  note args = arguments_read [OF this assms(2,3)]
  have pos: "0 < hz * secs" using assms(1,2) by simp
  have run: "run control_step mc started envs (?e, 0, ?g) = Some (?e, 0, ?g)" for mc
    using report_period [of hz] assms(1) by (simp add: run_def not_less)
  obtain rows where rows: "results new_ExecutorStats = Some rows"
    using results_some [of new_ExecutorStats 0] by (auto simp: new_ExecutorStats_def new_LatencyHistogram_def)
  have bounds: "\<not> hz \<le> 0" "\<not> secs \<le> 0" "i64 (hz * secs)" using assms pos unfolding i64_def by linarith+
  have "\<exists>front. cycle_report version sys started envs g [prog, decimal_int hz, decimal_int secs] = Some (0, front @ rows)"
    unfolding cycle_report_def args Let_def run using bounds by (auto simp: rows)
  moreover have "unat (cycles_executed new_ExecutorStats) = 0" by (simp add: new_ExecutorStats_def)
  ultimately show ?thesis using results_lines(1) [OF rows] by fastforce
qed

end
