(* ===== verification/Bench_Ring.thy ===== *)
theory Bench_Ring
  imports Spsc_Ring Cycle_Report
begin

text \<open>
  The benchmark of the ring (\<open>benchmarks/bench_spsc_ring.cpp\<close>): the plain ring it compares
  with, its statistics, its measurements and its report.  Elapsed times and what the system
  answers are arguments; the two threads of a measurement are interleaved call by call.
  The theory shows that both rings are the same bounded queue, so that the comparison is of
  the layout and the caching alone, that every measurement ends with every item delivered, and
  what the percentiles are.
\<close>

section \<open>Model\<close>

definition kRepetitions :: nat where
  "kRepetitions = 7"

definition kThroughputItems :: nat where
  "kThroughputItems = 3000000"

definition kLatencyItems :: nat where
  "kLatencyItems = 300000"

definition kProducerCpu :: nat where
  "kProducerCpu = 4"

subsection \<open>The plain ring\<close>

record 'a naive_ring =
  naive_write_pos :: u64
  naive_read_pos :: u64
  naive_slots :: "'a list"

definition new_naive_ring :: "nat \<Rightarrow> 'a \<Rightarrow> 'a naive_ring" where
  "new_naive_ring cap x = \<lparr>naive_write_pos = 0, naive_read_pos = 0, naive_slots = replicate cap x\<rparr>"

definition naive_tryPush :: "'a \<Rightarrow> 'a naive_ring \<Rightarrow> bool \<times> 'a naive_ring" where
  "naive_tryPush v q =
     (let cap = length (naive_slots q); wr = naive_write_pos q in
      if wr - naive_read_pos q \<ge> of_nat cap then (False, q)
      else (True, q\<lparr>naive_slots := (naive_slots q)[unat (wr AND (of_nat cap - 1)) := v], naive_write_pos := wr + 1\<rparr>))"

definition naive_tryPop :: "'a naive_ring \<Rightarrow> 'a option \<times> 'a naive_ring" where
  "naive_tryPop q =
     (let cap = length (naive_slots q); rd = naive_read_pos q in
      if rd = naive_write_pos q then (None, q)
      else (Some (naive_slots q ! unat (rd AND (of_nat cap - 1))), q\<lparr>naive_read_pos := rd + 1\<rparr>))"

subsection \<open>Statistics\<close>

record Percentiles =
  pc_p50 :: int
  pc_p90 :: int
  pc_p99 :: int
  pc_p999 :: int
  pc_max :: int

text \<open>\<open>None\<close> is an index outside the samples.\<close>

definition pick :: "int list \<Rightarrow> double \<Rightarrow> int option" where
  "pick sorted_samples q =
     (case double_to_u64 (dmul q (double_of_int (int (length sorted_samples - 1)))) of
        None \<Rightarrow> None
      | Some i \<Rightarrow> if unat i < length sorted_samples then Some (sorted_samples ! unat i) else None)"

definition computePercentiles :: "int list \<Rightarrow> Percentiles option" where
  "computePercentiles xs =
     (if xs = [] then Some \<lparr>pc_p50 = 0, pc_p90 = 0, pc_p99 = 0, pc_p999 = 0, pc_max = 0\<rparr>
      else
        let s = sort xs in
        case (pick s (fl (1 / 2)), pick s (fl (9 / 10)), pick s (fl (99 / 100)), pick s (fl (999 / 1000))) of
          (Some a, Some b, Some c, Some d) \<Rightarrow>
            Some \<lparr>pc_p50 = a, pc_p90 = b, pc_p99 = c, pc_p999 = d, pc_max = last s\<rparr>
        | _ \<Rightarrow> None)"

record Spread =
  spread_median :: double
  spread_min :: double
  spread_max :: double

fun dinsert :: "double \<Rightarrow> double list \<Rightarrow> double list" where
  "dinsert x [] = [x]"
| "dinsert x (y # ys) = (if dless y x then y # dinsert x ys else x # y # ys)"

definition dsort :: "double list \<Rightarrow> double list" where
  "dsort xs = foldr dinsert xs []"

definition summarize :: "double list \<Rightarrow> Spread option" where
  "summarize values =
     (if values = [] then None
      else
        let s = dsort values
        in Some \<lparr>spread_median = s ! (length s div 2), spread_min = hd s, spread_max = last s\<rparr>)"

subsection \<open>The platform\<close>

definition pinToCpu :: "system \<Rightarrow> nat \<Rightarrow> bool" where
  "pinToCpu sys c =
     (if setaffinity sys (CPU_SET c) \<noteq> 0 then False
      else case getaffinity sys of
        None \<Rightarrow> False
      | Some check \<Rightarrow> c < CPU_SETSIZE \<and> c \<in> set check \<and> length (remdups check) = 1)"

definition bench_isVirtualised :: "string option \<Rightarrow> bool" where
  "bench_isVirtualised version =
     (case version of
        None \<Rightarrow> False
      | Some line \<Rightarrow> let low = map to_lower line in contains low ''microsoft'' \<or> contains low ''wsl'')"

text \<open>The two readings of the clock of every iteration.\<close>

definition measureClockOverhead :: "nat \<Rightarrow> (nat \<Rightarrow> int \<times> int) \<Rightarrow> int option" where
  "measureClockOverhead iterations readings =
     map_option pc_p50 (computePercentiles (map (\<lambda>i. snd (readings i) - fst (readings i)) [0..<iterations]))"

subsection \<open>Measurements\<close>

definition throughput :: "nat \<Rightarrow> int \<Rightarrow> double" where
  "throughput items ns = ddiv (double_of_int (int items)) (ddiv (double_of_int ns) (Fin 1000000000))"

text \<open>The inner loops of one thread; \<open>None\<close> is a loop that never ends.\<close>

partial_function (option) push_until :: "'a \<Rightarrow> 'a ring \<Rightarrow> 'a ring option" where
  "push_until v q = (let (ok, q') = emplaceFrom v q in if ok then Some q' else push_until v q')"

partial_function (option) pop_until :: "'a ring \<Rightarrow> ('a \<times> 'a ring) option" where
  "pop_until q = (let (x, q') = tryPop id q in case x of Some v \<Rightarrow> Some (v, q') | None \<Rightarrow> pop_until q')"

fun push_pop_all :: "'a list \<Rightarrow> 'a \<times> 'a ring \<Rightarrow> ('a \<times> 'a ring) option" where
  "push_pop_all [] s = Some s"
| "push_pop_all (v # vs) (sink, q) = Option.bind (push_until v q) (\<lambda>q. Option.bind (pop_until q) (push_pop_all vs))"

definition benchSingleThreadedThroughput :: "nat \<Rightarrow> int \<Rightarrow> double option" where
  "benchSingleThreadedThroughput items ns =
     map_option (\<lambda>_. throughput items ns) (push_pop_all (map of_nat [0..<items]) (0 :: u64, new_ring 1024 0))"

text \<open>The figure, from the time until both threads below have left their loops.\<close>

definition benchCrossThreadThroughput :: "nat \<Rightarrow> int \<Rightarrow> double" where
  "benchCrossThreadThroughput items ns = throughput items ns"

text \<open>
  Two threads, one call at a time: the producer raises \<open>go\<close> and then pushes what it has
  left, the consumer waits for \<open>go\<close> and pops until it has seen them all.
\<close>

record ('q, 'a) cross =
  cq :: 'q
  go :: bool
  to_push :: "'a list"
  seen :: "'a list"

inductive cross_step ::
  "('a \<Rightarrow> 'q \<Rightarrow> bool \<times> 'q) \<Rightarrow> ('q \<Rightarrow> 'a option \<times> 'q) \<Rightarrow> nat \<Rightarrow> ('q, 'a) cross \<Rightarrow> ('q, 'a) cross \<Rightarrow> bool"
  for push :: "'a \<Rightarrow> 'q \<Rightarrow> bool \<times> 'q" and pop :: "'q \<Rightarrow> 'a option \<times> 'q" and items :: nat where
  start_go: "\<not> go s \<Longrightarrow> cross_step push pop items s (s\<lparr>go := True\<rparr>)"
| push_ok: "go s \<Longrightarrow> to_push s = v # vs \<Longrightarrow> push v (cq s) = (True, q) \<Longrightarrow>
    cross_step push pop items s (s\<lparr>cq := q, to_push := vs\<rparr>)"
| push_again: "go s \<Longrightarrow> to_push s = v # vs \<Longrightarrow> push v (cq s) = (False, q) \<Longrightarrow>
    cross_step push pop items s (s\<lparr>cq := q\<rparr>)"
| pop_ok: "go s \<Longrightarrow> length (seen s) < items \<Longrightarrow> pop (cq s) = (Some v, q) \<Longrightarrow>
    cross_step push pop items s (s\<lparr>cq := q, seen := seen s @ [v]\<rparr>)"
| pop_again: "go s \<Longrightarrow> length (seen s) < items \<Longrightarrow> pop (cq s) = (None, q) \<Longrightarrow>
    cross_step push pop items s (s\<lparr>cq := q\<rparr>)"

definition cross_start :: "'q \<Rightarrow> 'a list \<Rightarrow> ('q, 'a) cross" where
  "cross_start q vs = \<lparr>cq = q, go = False, to_push = vs, seen = []\<rparr>"

text \<open>Both threads have left their loops.\<close>

definition cross_done :: "nat \<Rightarrow> ('q, 'a) cross \<Rightarrow> bool" where
  "cross_done items s \<longleftrightarrow> go s \<and> to_push s = [] \<and> items \<le> length (seen s)"

text \<open>A handoff measures, at each pop, the reading of the clock less the stamp in the item popped.\<close>

definition benchHandoffLatency :: "nat \<Rightarrow> (nat \<Rightarrow> int) \<Rightarrow> (nat \<Rightarrow> int) \<Rightarrow> Percentiles option" where
  "benchHandoffLatency items out_ns popped_at = computePercentiles (map (\<lambda>i. popped_at i - out_ns i) [0..<items])"

subsection \<open>The report\<close>

definition printSpread :: "string \<Rightarrow> Spread \<Rightarrow> string" where
  "printSpread label s =
     ''| '' @ pad_right 40 label @ '' | '' @ pad_left 8 (format_f 1 (spread_median s)) @ '' | ''
     @ pad_left 8 (format_f 1 (spread_min s)) @ '' | '' @ pad_left 8 (format_f 1 (spread_max s)) @ '' |'' @ nl"

definition bench_conditions :: "nat \<Rightarrow> int \<Rightarrow> bool \<Rightarrow> bool \<Rightarrow> string list" where
  "bench_conditions concurrency clock_overhead pinned virtualised =
     [''# SpscRing benchmark'' @ nl @ nl, ''## Measurement conditions'' @ nl @ nl,
      ''- Hardware concurrency: '' @ decimal concurrency @ nl,
      ''- Repetitions per figure: '' @ decimal kRepetitions @ '' (median reported, min/max shown)'' @ nl,
      ''- steady_clock::now() median cost: '' @ decimal_int clock_overhead @ '' ns'' @ nl,
      ''- CPU pinning: '' @ (if pinned then ''verified'' else ''FAILED or not honoured'') @ nl,
      ''- Virtualised host detected: '' @ (if virtualised then ''YES'' else ''no'') @ nl]
     @ (if \<not> pinned then
          [nl @ ''> CPU pinning could not be verified, so the producer and consumer may'' @ nl,
           ''> have been migrated between cores mid-measurement. Cross-core figures'' @ nl,
           ''> below are not comparable across runs.'' @ nl]
        else [])
     @ (if virtualised then
          [nl @ ''> Taken on a virtualised host. Medians and low percentiles still'' @ nl,
           ''> characterise the queue, but everything above roughly p99 characterises'' @ nl,
           ''> the hypervisor scheduler, not this code, and must not be quoted as a'' @ nl,
           ''> property of it. A defensible tail figure needs bare-metal Linux with'' @ nl,
           ''> isolated cores -- which is what rt-latency-lab exists to provide.'' @ nl]
        else [])
     @ [nl]"

definition throughput_report :: "Spread \<Rightarrow> Spread \<Rightarrow> Spread \<Rightarrow> string list" where
  "throughput_report single padded naive =
     [''## Throughput, M items/s'' @ nl @ nl,
      ''| Configuration                            |   median |      min |      max |'' @ nl,
      ''|------------------------------------------|----------|----------|----------|'' @ nl,
      printSpread ''Single thread, push+pop (cache hot)'' single,
      printSpread ''Cross-thread, padded + cached positions'' padded,
      printSpread ''Cross-thread, shared line, no caching'' naive,
      nl @ ''Layout advantage at the median: '' @ format_f 2 (ddiv (spread_median padded) (spread_median naive)) @ ''x'',
      ''  (worst rep '' @ format_f 2 (ddiv (spread_min padded) (spread_max naive)) @ ''x, best rep ''
        @ format_f 2 (ddiv (spread_max padded) (spread_min naive)) @ ''x)'' @ nl,
      ''Both variants run the same algorithm and the same memory ordering;'' @ nl,
      ''the only difference is cache-line layout and position caching.'' @ nl @ nl]"

definition latency_report :: "Percentiles \<Rightarrow> string list" where
  "latency_report p =
     [''## Handoff latency, producer store to consumer load (ns)'' @ nl @ nl,
      ''|    p50 |    p90 |    p99 |    p99.9 |      max |'' @ nl,
      ''|--------|--------|--------|----------|----------|'' @ nl,
      ''| '' @ pad_left 6 (decimal_int (pc_p50 p)) @ '' | '' @ pad_left 6 (decimal_int (pc_p90 p)) @ '' | ''
        @ pad_left 6 (decimal_int (pc_p99 p)) @ '' | '' @ pad_left 8 (decimal_int (pc_p999 p)) @ '' | ''
        @ pad_left 8 (decimal_int (pc_max p)) @ '' |'' @ nl,
      nl @ ''Samples: '' @ decimal kLatencyItems @ ''. Producer paced to keep the ring unsaturated.'' @ nl]"

text \<open>What a run of the benchmark observes: the elapsed times of the repetitions among them.\<close>

record bench_run =
  br_version :: "string option"
  br_system :: system
  br_clock :: "nat \<Rightarrow> int \<times> int"
  br_concurrency :: nat
  br_single :: "nat \<Rightarrow> int"
  br_padded :: "nat \<Rightarrow> int"
  br_naive :: "nat \<Rightarrow> int"
  br_out :: "nat \<Rightarrow> int"
  br_popped :: "nat \<Rightarrow> int"

definition repetitions :: "(nat \<Rightarrow> double) \<Rightarrow> Spread option" where
  "repetitions f = summarize (map (\<lambda>rep. ddiv (f rep) (Fin 1000000)) [0..<kRepetitions])"

definition bench_spsc_ring :: "bench_run \<Rightarrow> (int \<times> string list) option" where
  "bench_spsc_ring b =
     Option.bind (measureClockOverhead 200000 (br_clock b)) (\<lambda>overhead.
     Option.bind (those (map (\<lambda>rep. benchSingleThreadedThroughput kThroughputItems (br_single b rep)) [0..<kRepetitions])) (\<lambda>single.
     Option.bind (repetitions ((!) single)) (\<lambda>s_single.
     Option.bind (repetitions (\<lambda>rep. benchCrossThreadThroughput kThroughputItems (br_padded b rep))) (\<lambda>s_padded.
     Option.bind (repetitions (\<lambda>rep. benchCrossThreadThroughput kThroughputItems (br_naive b rep))) (\<lambda>s_naive.
     map_option
       (\<lambda>handoff. (0, bench_conditions (br_concurrency b) overhead (pinToCpu (br_system b) kProducerCpu)
            (bench_isVirtualised (br_version b))
          @ throughput_report s_single s_padded s_naive @ latency_report handoff))
       (benchHandoffLatency kLatencyItems (br_out b) (br_popped b)))))))"

section \<open>The two rings\<close>

text \<open>The plain ring is a ring whose cached positions are always up to date.\<close>

definition ring_of :: "'a naive_ring \<Rightarrow> 'a ring" where
  "ring_of q =
     \<lparr>write_pos = naive_write_pos q, cached_read_pos = naive_read_pos q, read_pos = naive_read_pos q,
      cached_write_pos = naive_write_pos q, slots = naive_slots q\<rparr>"

definition naive_queue :: "nat \<Rightarrow> 'a naive_ring \<Rightarrow> 'a list \<Rightarrow> bool" where
  "naive_queue cap q xs \<longleftrightarrow> ring_queue cap (ring_of q) xs"

lemma ring_queue_refresh:
  assumes "ring_queue cap q xs"
  shows "ring_queue cap (refresh_write q) xs" and "ring_queue cap (refresh_read q) xs"
proof -
  obtain cr r cw where p: "positions cap cr r cw (r + length xs) q"
    and sl: "\<forall>i<length xs. slots q ! ((r + i) mod cap) = xs ! i"
    using assms by (auto simp: ring_queue_def)
  show "ring_queue cap (refresh_write q) xs" "ring_queue cap (refresh_read q) xs"
    using ring_queueI [OF positions_refresh_write [OF p]] ring_queueI [OF positions_refresh_read [OF p]] sl by simp_all
qed

lemma naive_push_ring:
  "fst (naive_tryPush v q) = fst (emplaceFrom v (ring_of q))"
  "ring_of (snd (naive_tryPush v q)) = refresh_write (snd (emplaceFrom v (ring_of q)))"
  by (simp_all add: naive_tryPush_def emplaceFrom_def ring_of_def ring_defs Let_def)

lemma naive_pop_ring:
  "fst (naive_tryPop q) = fst (tryPop id (ring_of q))"
  "ring_of (snd (naive_tryPop q)) = refresh_read (snd (tryPop id (ring_of q)))"
  by (simp_all add: naive_tryPop_def tryPop_def ring_of_def ring_defs Let_def)

interpretation naive: bounded_queue cap "naive_queue cap" naive_tryPush naive_tryPop for cap
proof unfold_locales
  fix q :: "'a naive_ring" and xs :: "'a list" and v x :: 'a
  show "fst (naive_tryPush v q) \<and> naive_queue cap (snd (naive_tryPush v q)) (xs @ [v])"
    if "naive_queue cap q xs" "length xs < cap"
    using spsc.push_room [of cap "ring_of q" xs v] that
    by (simp add: naive_queue_def naive_push_ring ring_queue_refresh)
  show "\<not> fst (naive_tryPush v q) \<and> naive_queue cap (snd (naive_tryPush v q)) xs"
    if "naive_queue cap q xs" "cap \<le> length xs"
    using spsc.push_full [of cap "ring_of q" xs v] that
    by (simp add: naive_queue_def naive_push_ring ring_queue_refresh)
  show "fst (naive_tryPop q) = Some x \<and> naive_queue cap (snd (naive_tryPop q)) xs"
    if "naive_queue cap q (x # xs)"
    using spsc.pop_some [of cap "ring_of q" x xs id] that
    by (simp add: naive_queue_def naive_pop_ring ring_queue_refresh)
  show "fst (naive_tryPop q) = None \<and> naive_queue cap (snd (naive_tryPop q)) []"
    if "naive_queue cap q []"
    using spsc.pop_none [of cap "ring_of q" id] that
    by (simp add: naive_queue_def naive_pop_ring ring_queue_refresh)
qed

lemma naive_queue_new: "good_capacity cap \<Longrightarrow> naive_queue cap (new_naive_ring cap x) []"
  using ring_queue_new [of cap x] by (simp add: naive_queue_def ring_of_def new_naive_ring_def new_ring_def)

section \<open>Two threads\<close>

context bounded_queue
begin

definition cross_inv :: "'a list \<Rightarrow> ('q, 'a) cross \<Rightarrow> bool" where
  "cross_inv vs s \<longleftrightarrow> (\<exists>xs. rep (cq s) xs \<and> seen s @ xs @ to_push s = vs \<and> length xs \<le> cap)"

lemma cross_inv_start: "rep q [] \<Longrightarrow> cross_inv vs (cross_start q vs)"
  by (simp add: cross_inv_def cross_start_def)

lemma cross_inv_step:
  assumes "cross_step push pop items s s'" and "cross_inv vs s"
  shows "cross_inv vs s'"
proof -
  obtain xs where xs: "rep (cq s) xs" "seen s @ xs @ to_push s = vs" "length xs \<le> cap"
    using assms(2) by (auto simp: cross_inv_def)
  from assms(1) show ?thesis
  proof cases
    case start_go
    then show ?thesis using assms(2) by (simp add: cross_inv_def)
  next
    case (push_ok v ws q)
    then have room: "length xs < cap" using push_full [OF xs(1), of v] by (cases "length xs < cap") simp_all
    then show ?thesis
      using push_ok push_room [OF xs(1) room, of v] xs by (auto simp: cross_inv_def intro!: exI [of _ "xs @ [v]"])
  next
    case (push_again v ws q)
    then have full: "cap \<le> length xs" using push_room [OF xs(1), of v] by (cases "length xs < cap") simp_all
    then show ?thesis
      unfolding cross_inv_def using push_again push_full [OF xs(1) full, of v] xs by (intro exI [of _ xs]) auto
  next
    case (pop_ok v q)
    then obtain ys where ys: "xs = v # ys" "rep q ys"
      using pop_none [of "cq s"] pop_some [of "cq s"] xs(1) by (cases xs) fastforce+
    then show ?thesis using pop_ok xs by (auto simp: cross_inv_def intro!: exI [of _ ys])
  next
    case (pop_again q)
    then have "xs = [] \<and> rep q []"
      using pop_none [of "cq s"] pop_some [of "cq s"] xs(1) by (cases xs) fastforce+
    then show ?thesis using pop_again xs by (auto simp: cross_inv_def intro!: exI [of _ "[]"])
  qed
qed

text \<open>While the threads are not done, one of them can get on with its work.\<close>

definition cross_left :: "nat \<Rightarrow> ('q, 'a) cross \<Rightarrow> nat" where
  "cross_left items s = (if go s then 0 else 1) + length (to_push s) + (items - length (seen s))"

lemma cross_progress:
  assumes "cross_inv vs s" and "0 < cap" and "\<not> cross_done (length vs) s"
  shows "\<exists>s'. cross_step push pop (length vs) s s' \<and> cross_left (length vs) s' < cross_left (length vs) s"
proof -
  obtain xs where xs: "rep (cq s) xs" "seen s @ xs @ to_push s = vs" "length xs \<le> cap"
    using assms(1) by (auto simp: cross_inv_def)
  consider (wait) "\<not> go s" | (some) x ys where "go s" "xs = x # ys" | (none) "go s" "xs = []" by (cases xs) auto
  then show ?thesis
  proof cases
    case wait
    then show ?thesis
      using start_go [of s push pop "length vs"] by (intro exI conjI) (assumption, simp add: cross_left_def)
  next
    case some
    have lt: "length (seen s) < length vs" using xs(2) some(2) by auto
    obtain q where "pop (cq s) = (Some x, q)" using pop_some [of "cq s" x ys] xs(1) some(2) by (cases "pop (cq s)") auto
    then show ?thesis
      using pop_ok [OF some(1) lt, of pop x q push] lt some(1)
      by (intro exI conjI) (assumption, simp add: cross_left_def)
  next
    case none
    then have "to_push s \<noteq> []" using assms(3) xs(2) by (auto simp: cross_done_def)
    then obtain v ws where ws: "to_push s = v # ws" by (cases "to_push s") auto
    obtain q where "push v (cq s) = (True, q)"
      using push_room [OF xs(1), of v] none(2) assms(2) by (cases "push v (cq s)") auto
    then show ?thesis
      using push_ok [OF none(1) ws, of push q pop "length vs"] ws none(1)
      by (intro exI conjI) (assumption, simp add: cross_left_def)
  qed
qed

lemma cross_can_finish:
  assumes "cross_inv vs s" and "0 < cap"
  shows "\<exists>s'. (cross_step push pop (length vs))\<^sup>*\<^sup>* s s' \<and> cross_done (length vs) s'"
  using assms(1)
proof (induction "cross_left (length vs) s" arbitrary: s rule: less_induct)
  case less
  show ?case
  proof (cases "cross_done (length vs) s")
    case False
    then obtain t where t: "cross_step push pop (length vs) s t" "cross_left (length vs) t < cross_left (length vs) s"
      using cross_progress [OF less.prems assms(2)] by blast
    then obtain s' where "(cross_step push pop (length vs))\<^sup>*\<^sup>* t s'" "cross_done (length vs) s'"
      using less.hyps [OF t(2) cross_inv_step [OF t(1) less.prems]] by blast
    then show ?thesis using t(1) by (intro exI [of _ s'] conjI) (rule converse_rtranclp_into_rtranclp)
  qed blast
qed

lemma cross_reachable:
  assumes "(cross_step push pop (length vs))\<^sup>*\<^sup>* (cross_start q vs) s" and "rep q []"
  shows "cross_inv vs s"
  using assms(1) by induction (auto intro: cross_inv_start [OF assms(2)] cross_inv_step)

lemma cross_delivers:
  assumes "(cross_step push pop (length vs))\<^sup>*\<^sup>* (cross_start q vs) s" and "rep q []" and "0 < cap"
  shows "prefix (seen s) vs \<and> (cross_done (length vs) s \<longrightarrow> seen s = vs) \<and>
    (\<exists>s'. (cross_step push pop (length vs))\<^sup>*\<^sup>* s s' \<and> cross_done (length vs) s')"
proof -
  note inv = cross_reachable [OF assms(1,2)]
  then obtain xs where xs: "seen s @ xs @ to_push s = vs" by (auto simp: cross_inv_def)
  then have "prefix (seen s) vs" by (metis prefixI)
  moreover have "seen s = vs" if "cross_done (length vs) s" using xs that by (auto simp: cross_done_def)
  ultimately show ?thesis using cross_can_finish [OF inv assms(3)] by blast
qed

end

section \<open>One thread\<close>

text \<open>Popping what was just pushed never waits.\<close>

lemma push_pop_all_result:
  assumes "ring_queue cap q []" and "0 < cap"
  shows "\<exists>q'. push_pop_all vs (sink, q) = Some (last (sink # vs), q') \<and> ring_queue cap q' []"
  using assms(1)
proof (induction vs arbitrary: sink q)
  case (Cons v vs)
  obtain q1 where q1: "emplaceFrom v q = (True, q1)" "ring_queue cap q1 [v]"
    using ring_push [OF Cons.prems, of v] assms(2) by (cases "emplaceFrom v q") simp
  obtain q2 where q2: "tryPop id q1 = (Some v, q2)" "ring_queue cap q2 []"
    using ring_pop_some [OF q1(2), of id] by (cases "tryPop id q1") simp
  have "push_until v q = Some q1" "pop_until q1 = Some (v, q2)"
    by (subst push_until.simps, simp add: q1(1)) (subst pop_until.simps, simp add: q2(1))
  then show ?case using Cons.IH [OF q2(2), of v] by simp
qed simp

lemma good_capacity_1024 [simp]: "good_capacity 1024"
  unfolding good_capacity_def by (auto intro: exI [of _ 10])

lemma benchSingleThreadedThroughput_value:
  "benchSingleThreadedThroughput items ns = Some (throughput items ns)"
  using push_pop_all_result [OF ring_queue_new [OF good_capacity_1024, of "0 :: u64"]]
  by (fastforce simp: benchSingleThreadedThroughput_def)

section \<open>Percentiles\<close>

definition pick_index :: "nat \<Rightarrow> rat \<Rightarrow> nat" where
  "pick_index n q = nat \<lfloor>rounded (rounded q * of_nat (n - 1))\<rfloor>"

lemma rounded_one: "rounded 1 = 1"
  using rounded_small_int [of 1] by simp

lemma pick_index_mono: "0 \<le> p \<Longrightarrow> p \<le> q \<Longrightarrow> pick_index n p \<le> pick_index n q"
  unfolding pick_index_def
  by (intro nat_mono floor_mono rounded_mono mult_right_mono) simp_all

lemma rounded_small_nat: "n < 2 ^ 53 \<Longrightarrow> rounded (of_nat n) = of_nat n"
  using rounded_small_int [of "int n"] by simp

lemma pick_index_bound:
  assumes "0 \<le> q" and "q \<le> 1" and "n \<le> 2 ^ 53"
  shows "rounded (rounded q * of_nat (n - 1)) \<le> of_nat (n - 1)" and "pick_index n q \<le> n - 1"
proof -
  have "rounded q * of_nat (n - 1) \<le> 1 * of_nat (n - 1)"
    using rounded_mono [OF assms(2)] by (intro mult_right_mono) (simp_all add: rounded_one)
  then have "rounded (rounded q * of_nat (n - 1)) \<le> rounded (of_nat (n - 1))" using rounded_mono by simp
  moreover have "n - 1 < 2 ^ 53" using assms(3) by simp
  ultimately show b: "rounded (rounded q * of_nat (n - 1)) \<le> of_nat (n - 1)" using rounded_small_nat by simp
  then have "\<lfloor>rounded (rounded q * of_nat (n - 1))\<rfloor> \<le> int (n - 1)" using floor_mono [OF b] by simp
  then show "pick_index n q \<le> n - 1" by (simp add: pick_index_def nat_le_iff)
qed

lemma double_to_u64_floor:
  "0 \<le> x \<Longrightarrow> \<lfloor>x\<rfloor> = int k \<Longrightarrow> k < 2 ^ 64 \<Longrightarrow> double_to_u64 (Fin x) = Some (of_nat k)"
  by simp

lemma pick_value:
  assumes "0 \<le> q" and "q \<le> 1" and "xs \<noteq> []" and "length xs \<le> 2 ^ 53"
  shows "pick xs (fl q) = Some (xs ! pick_index (length xs) q)"
proof -
  let ?n = "length xs - 1"
  have n: "?n < 2 ^ 53" using assms(4) by simp
  have "(of_nat ?n :: rat) < of_nat (2 ^ 53)" using n by (simp only: of_nat_less_iff)
  then have le: "(of_nat ?n :: rat) \<le> 2 ^ 63" by simp
  then have d: "double_of_int (int ?n) = Fin (of_nat ?n)"
    using fl_bounded [of "of_nat ?n"] rounded_small_nat [OF n] by (simp add: double_of_int_def)
  have q: "fl q = Fin (rounded q)" "0 \<le> rounded q" "rounded q \<le> 1"
    using fl_bounded [of q] assms(1,2) rounded_mono [OF assms(2)] by (simp_all add: rounded_one)
  let ?p = "rounded q * of_nat ?n"
  have "0 \<le> ?p" using q by simp
  note b = pick_index_bound [OF assms(1,2,4)] rounded_nonneg [OF this]
  have "?p \<le> 1 * of_nat ?n" using q by (intro mult_right_mono) simp_all
  also have "1 * (of_nat ?n :: rat) \<le> 2 ^ 63" using le by simp
  finally have f: "fl ?p = Fin (rounded ?p)" using fl_bounded [of ?p] \<open>0 \<le> ?p\<close> by simp
  have "int (pick_index (length xs) q) = \<lfloor>rounded ?p\<rfloor>" using b(3) by (simp add: pick_index_def)
  moreover have "pick_index (length xs) q < 2 ^ 64" using b(2) n by simp
  ultimately have "double_to_u64 (dmul (fl q) (double_of_int (int ?n))) = Some (of_nat (pick_index (length xs) q))"
    unfolding d q(1) dmul.simps f using b(3) by (intro double_to_u64_floor) simp_all
  moreover have "unat (of_nat (pick_index (length xs) q) :: u64) = pick_index (length xs) q"
    using b(2) n by (intro unat_of_nat_small) simp
  moreover have "pick_index (length xs) q < length xs" using b(2) assms(3) by (cases xs) simp_all
  ultimately show ?thesis by (simp add: pick_def)
qed

text \<open>Half an integer is represented exactly, so the median is not subject to rounding.\<close>

lemma rounded_half:
  assumes "m < 2 ^ 53"
  shows "rounded (of_nat m / 2) = of_nat m / 2"
proof (cases "m = 0")
  case False
  let ?x = "of_nat m / 2 :: rat" and ?e = "ilog2 (of_nat m / 2)"
  have x: "1 / 2 \<le> ?x" "0 < ?x" using False by simp_all
  have "(of_nat m :: rat) < of_nat (2 ^ 53)" using assms by (simp only: of_nat_less_iff)
  then have "?x < 2 powi 52" by simp
  then have "(2 :: rat) powi ?e < 2 powi 52" using ilog2_bounds(1) [OF x(2)] by linarith
  then have hi: "?e < 52" by (simp only: powi_two_less_iff)
  have "(2 :: rat) powi (- 1) < 2 powi (?e + 1)" using ilog2_bounds(2) [OF x(2)] x(1) by simp
  then have lo: "- 1 < ?e + 1" by (simp only: powi_two_less_iff)
  then have u: "ulp_of ?x = 2 powi (?e - 52)" using x(2) by (simp add: ulp_of_def max_def)
  define j where "j = nat (51 - ?e)"
  have "?x = of_int (int m * 2 ^ j) * ulp_of ?x"
  proof -
    have "(2 :: rat) ^ j * 2 powi (?e - 52) = 2 powi (int j + (?e - 52))"
      by (simp add: power_int_add)
    also have "int j + (?e - 52) = - 1" using hi by (simp add: j_def)
    finally show ?thesis by (simp add: u mult.assoc)
  qed
  then show ?thesis by (rule rounded_integer_multiple)
qed simp

lemma pick_index_median: "n \<le> 2 ^ 53 \<Longrightarrow> pick_index n (1 / 2) = (n - 1) div 2"
proof -
  assume "n \<le> 2 ^ 53"
  then have "rounded (of_nat (n - 1) / 2) = of_nat (n - 1) / 2" by (intro rounded_half) simp
  moreover have "rounded (1 / 2) * of_nat (n - 1) = (of_nat (n - 1) / 2 :: rat)" using rounded_half [of 1] by simp
  moreover have "\<lfloor>of_nat (n - 1) / 2 :: rat\<rfloor> = int ((n - 1) div 2)"
    using floor_divide_of_nat_eq [of "n - 1" 2, where ?'a = rat] by simp
  ultimately show ?thesis by (simp only: pick_index_def nat_int)
qed

lemma sorted_last: "xs \<noteq> [] \<Longrightarrow> last (sort xs) = Max (set xs)"
proof -
  assume "xs \<noteq> []"
  then have ne: "sort xs \<noteq> []" by (metis length_0_conv length_sort)
  have "\<forall>x\<in>set (sort xs). x \<le> last (sort xs)"
  proof
    fix x assume "x \<in> set (sort xs)"
    then obtain i where i: "i < length (sort xs)" "x = sort xs ! i" by (auto simp: in_set_conv_nth simp del: length_sort set_sort)
    then show "x \<le> last (sort xs)"
      using sorted_nth_mono [OF sorted_sort [of xs], of i "length (sort xs) - 1"] ne by (simp add: last_conv_nth)
  qed
  then show ?thesis using last_in_set [OF ne] by (intro Max_eqI [symmetric]) simp_all
qed

section \<open>Properties\<close>

text \<open>
  The benchmark compares like with like: whatever calls are made, the plain ring and the
  padded one return the same results, namely those of a bounded first-in first-out queue.
\<close>

theorem rings_equivalent:
  assumes "good_capacity cap"
  shows "queue_run naive_tryPush naive_tryPop (new_naive_ring cap x) ops =
      queue_run emplaceFrom (tryPop moved) (new_ring cap y) ops \<and>
    queue_run naive_tryPush naive_tryPop (new_naive_ring cap x) ops = fifo_spec cap [] ops"
  by (simp only: naive.run_refines [OF naive_queue_new [OF assms]] spsc.run_refines [OF ring_queue_new [OF assms]] simp_thms)

theorem rings_equivalent_witness:
  "queue_run naive_tryPush naive_tryPop (new_naive_ring 2 0) [Push 5, Push 6, Push (7 :: int), Pop, Pop, Pop] =
   [PushResult True, PushResult True, PushResult False, PopResult (Some 5), PopResult (Some 6), PopResult None]"
proof -
  have "good_capacity 2" unfolding good_capacity_def by (auto intro: exI [of _ 1])
  from rings_equivalent [OF this, of 0 "[Push 5, Push 6, Push (7 :: int), Pop, Pop, Pop]" id 0, THEN conjunct2]
  show ?thesis by (simp del: queue_run.simps)
qed

text \<open>
  A measurement across threads delivers: in every interleaving of the two threads, on
  either ring, the consumer has seen a prefix of what the producer was to push, both can
  always still finish, and when both have finished every item was seen in order.
\<close>

theorem measurement_delivers:
  assumes "good_capacity cap"
  shows "((cross_step emplaceFrom (tryPop moved) (length vs))\<^sup>*\<^sup>* (cross_start (new_ring cap x) vs) s \<longrightarrow>
      prefix (seen s) vs \<and> (cross_done (length vs) s \<longrightarrow> seen s = vs) \<and>
      (\<exists>s'. (cross_step emplaceFrom (tryPop moved) (length vs))\<^sup>*\<^sup>* s s' \<and> cross_done (length vs) s')) \<and>
    ((cross_step naive_tryPush naive_tryPop (length vs))\<^sup>*\<^sup>* (cross_start (new_naive_ring cap x) vs) t \<longrightarrow>
      prefix (seen t) vs \<and> (cross_done (length vs) t \<longrightarrow> seen t = vs) \<and>
      (\<exists>t'. (cross_step naive_tryPush naive_tryPop (length vs))\<^sup>*\<^sup>* t t' \<and> cross_done (length vs) t'))"
proof -
  have "0 < cap" using assms by (simp add: good_capacity_def)
  then show ?thesis
    by (intro conjI [OF impI impI] spsc.cross_delivers [OF _ ring_queue_new [OF assms]]
        naive.cross_delivers [OF _ naive_queue_new [OF assms]])
qed

theorem measurement_delivers_witness:
  "\<exists>s. (cross_step naive_tryPush naive_tryPop 3)\<^sup>*\<^sup>* (cross_start (new_naive_ring 1024 0) [1, 2, 3 :: int]) s \<and> seen s = [1, 2, 3]"
proof -
  let ?start = "cross_start (new_naive_ring 1024 0) [1, 2, 3 :: int]"
  have n: "length [1, 2, 3 :: int] = 3" by simp
  note delivers = measurement_delivers [OF good_capacity_1024, of id "[1, 2, 3 :: int]" 0, unfolded n]
  have "(cross_step naive_tryPush naive_tryPop 3)\<^sup>*\<^sup>* ?start ?start" by simp
  then obtain s where s: "(cross_step naive_tryPush naive_tryPop 3)\<^sup>*\<^sup>* ?start s" "cross_done 3 s"
    using delivers by blast
  then have "seen s = [1, 2, 3]" using delivers by blast
  with s show ?thesis by blast
qed

text \<open>
  The percentiles are samples in order: for any number of samples an array can hold
  within the precision of a double, none of the indices leaves the array, the figures increase from the
  median to the maximum, the median is the lower middle one, and the maximum is the largest.
\<close>

theorem percentiles_ordered:
  assumes "xs \<noteq> []" and "length xs \<le> 2 ^ 53"
  shows "\<exists>p. computePercentiles xs = Some p \<and> {pc_p50 p, pc_p90 p, pc_p99 p, pc_p999 p} \<subseteq> set xs \<and>
    pc_p50 p \<le> pc_p90 p \<and> pc_p90 p \<le> pc_p99 p \<and> pc_p99 p \<le> pc_p999 p \<and> pc_p999 p \<le> pc_max p \<and>
    pc_p50 p = sort xs ! ((length xs - 1) div 2) \<and> pc_max p = Max (set xs)"
proof -
  let ?s = "sort xs" and ?i = "pick_index (length xs)"
  have len: "length ?s \<le> 2 ^ 53" using assms(2) by simp
  have ne: "?s \<noteq> []" using assms(1) by (metis length_0_conv length_sort)
  have pick: "pick ?s (fl q) = Some (?s ! ?i q)" if "0 \<le> q" "q \<le> 1" for q
    using pick_value [OF that ne len] by simp
  have below: "?i q < length xs" if "0 \<le> q" "q \<le> 1" for q
    using pick_index_bound(2) [OF that assms(2)] assms(1) by (cases xs) simp_all
  have mem: "?s ! ?i q \<in> set xs" if "0 \<le> q" "q \<le> 1" for q
    using nth_mem [of "?i q" ?s] below [OF that] by simp
  have mono: "?s ! ?i p \<le> ?s ! ?i q" if "0 \<le> p" "p \<le> q" "q \<le> 1" for p q
    using that below [of q] pick_index_mono [of p q] by (intro sorted_nth_mono) simp_all
  have max: "?s ! ?i q \<le> Max (set xs)" if "0 \<le> q" "q \<le> 1" for q
    using mem [OF that] by simp
  show ?thesis
    using assms(1) pick_index_median [OF assms(2)] mem [of "1 / 2"] mono [of "1 / 2" "9 / 10"]
    by (simp add: computePercentiles_def Let_def pick mem mono max sorted_last)
qed

theorem percentiles_ordered_witness:
  "\<exists>p. computePercentiles [30, 10, 20] = Some p \<and> pc_p50 p = 20 \<and> pc_max p = 30"
proof -
  have n: "length [30, 10, 20 :: int] = 3" "(3 :: nat) \<le> 2 ^ 53" by simp_all
  have "sort [30, 10, 20 :: int] = [10, 20, 30]" by simp
  with percentiles_ordered [of "[30, 10, 20]", unfolded n(1), OF _ n(2)] show ?thesis by auto
qed

text \<open>The benchmark always comes to its report.\<close>

lemma computePercentiles_some: "length xs \<le> 2 ^ 53 \<Longrightarrow> \<exists>p. computePercentiles xs = Some p"
proof (cases "xs = []")
  case False
  assume "length xs \<le> 2 ^ 53"
  moreover have "sort xs \<noteq> []" using False by (metis length_0_conv length_sort)
  ultimately have "pick (sort xs) (fl q) = Some (sort xs ! pick_index (length xs) q)" if "0 \<le> q" "q \<le> 1" for q
    using pick_value [OF that] by simp
  then show ?thesis using False by (simp add: computePercentiles_def Let_def)
qed (simp add: computePercentiles_def)

lemma repetitions_some: "\<exists>s. repetitions f = Some s"
  by (auto simp: repetitions_def summarize_def kRepetitions_def Let_def)

lemma bench_spsc_ring_returns: "\<exists>out. bench_spsc_ring b = Some (0, out)"
proof -
  obtain o1 where 1: "measureClockOverhead 200000 (br_clock b) = Some o1"
    using computePercentiles_some [of "map (\<lambda>i. snd (br_clock b i) - fst (br_clock b i)) [0..<200000]"]
    unfolding measureClockOverhead_def length_map length_upt by auto
  obtain h where 2: "benchHandoffLatency kLatencyItems (br_out b) (br_popped b) = Some h"
    using computePercentiles_some [of "map (\<lambda>i. br_popped b i - br_out b i) [0..<kLatencyItems]"]
    unfolding benchHandoffLatency_def length_map length_upt by (auto simp: kLatencyItems_def)
  have some: "those (map (\<lambda>x. Some (f x)) xs) = Some (map f xs)" for f :: "nat \<Rightarrow> double" and xs
    by (induction xs) simp_all
  show ?thesis
    unfolding bench_spsc_ring_def 1 2 benchSingleThreadedThroughput_value some bind.simps
    using repetitions_some by (metis (no_types, lifting) bind.simps(2) option.simps(9))
qed

end
