(* ===== verification/Bench_Transports.thy ===== *)
theory Bench_Transports
  imports Bench_Ring Seqlock_Slot Shared_Memory
begin

text \<open>
  The benchmark of the transports (\<open>benchmarks/bench_transports.cpp\<close>): messages over a pipe
  or a socket, echoed by a child, and over two seqlocks in shared memory, polled by both
  sides.  Reads and writes move as many bytes as the system pleases; the two processes of
  the shared-memory measurement are interleaved step by step, each load and store
  being one step.  The theory shows that every sample is the time of one round trip,
  whatever the cutting and the interleaving, and which resources the runs leave behind.
\<close>

section \<open>Model\<close>

definition kRoundTrips :: nat where
  "kRoundTrips = 20000"

definition kSpinBudgetNs :: int where
  "kSpinBudgetNs = 5000000000"

record transport_percentiles =
  tp_p50 :: int
  tp_p99 :: int
  tp_p999 :: int
  tp_max :: int

definition no_percentiles :: transport_percentiles where
  "no_percentiles = \<lparr>tp_p50 = 0, tp_p99 = 0, tp_p999 = 0, tp_max = 0\<rparr>"

definition percentilesOf :: "int list \<Rightarrow> transport_percentiles option" where
  "percentilesOf xs =
     (if xs = [] then Some no_percentiles
      else
        let s = sort xs in
        case (pick s (fl (1 / 2)), pick s (fl (99 / 100)), pick s (fl (999 / 1000))) of
          (Some a, Some b, Some c) \<Rightarrow> Some \<lparr>tp_p50 = a, tp_p99 = b, tp_p999 = c, tp_max = last s\<rparr>
        | _ \<Rightarrow> None)"

text \<open>A message as its eight words; the joints by their bits.\<close>

record Message =
  msg_sequence :: u64
  msg_stamp_ns :: int
  msg_joint :: "u64 list"

definition new_Message :: Message where
  "new_Message = \<lparr>msg_sequence = 0, msg_stamp_ns = 0, msg_joint = replicate 6 0\<rparr>"

definition message_words :: "Message \<Rightarrow> u64 list" where
  "message_words m = [msg_sequence m, word_of_int (msg_stamp_ns m)] @ msg_joint m"

definition words_message :: "u64 list \<Rightarrow> Message" where
  "words_message ws = \<lparr>msg_sequence = ws ! 0, msg_stamp_ns = sint (ws ! 1), msg_joint = drop 2 ws\<rparr>"

definition sizeof_Message :: nat where
  "sizeof_Message = 64"

text \<open>The bytes of a word, least significant first, and of a message.\<close>

definition word_bytes :: "u64 \<Rightarrow> u8 list" where
  "word_bytes w = map (\<lambda>i. of_nat (unat w div 256 ^ i)) [0..<8]"

definition bytes_word :: "u8 list \<Rightarrow> u64" where
  "bytes_word bs = of_nat (foldr (\<lambda>b n. unat b + 256 * n) bs 0)"

definition message_bytes :: "Message \<Rightarrow> u8 list" where
  "message_bytes m = concat (map word_bytes (message_words m))"

definition bytes_message :: "u8 list \<Rightarrow> Message" where
  "bytes_message bs = words_message (map (\<lambda>i. bytes_word (take 8 (drop (8 * i) bs))) [0..<8])"

subsection \<open>Descriptors\<close>

text \<open>
  The inner loops: \<open>cs\<close> are the counts the system would return, zero for the end or an
  error, and it returns no more than was asked for and than there is.
\<close>

fun read_full :: "nat \<Rightarrow> nat list \<Rightarrow> u8 list \<Rightarrow> u8 list \<Rightarrow> (u8 list \<times> nat list \<times> u8 list) option" where
  "read_full want [] inp got = (if want \<le> length got then Some (got, [], inp) else None)"
| "read_full want (c # cs) inp got =
     (if want \<le> length got then Some (got, c # cs, inp)
      else
        let k = min c (min (want - length got) (length inp)) in
        if k = 0 then None else read_full want cs (drop k inp) (got @ take k inp))"

fun write_full :: "nat list \<Rightarrow> u8 list \<Rightarrow> u8 list \<Rightarrow> bool \<times> nat list \<times> u8 list" where
  "write_full [] rest out = (rest = [], [], out)"
| "write_full (c # cs) rest out =
     (if rest = [] then (True, c # cs, out)
      else
        let k = min c (length rest) in
        if k = 0 then (False, cs, out) else write_full cs (drop k rest) (out @ take k rest))"

lemma read_full_shorter:
  "read_full want cs inp got = Some (got', cs', inp') \<Longrightarrow> length got < want \<Longrightarrow> length cs' < length cs"
proof (induction want cs inp got rule: read_full.induct)
  case (2 want c cs inp got)
  let ?k = "min c (min (want - length got) (length inp))"
  have k: "?k \<noteq> 0" and rec: "read_full want cs (drop ?k inp) (got @ take ?k inp) = Some (got', cs', inp')"
    using 2(2,3) by (auto simp: Let_def split: if_splits)
  show ?case
  proof (cases "length (got @ take ?k inp) < want")
    case True
    then show ?thesis using 2(1) [OF _ _ _ rec] 2(3) k by fastforce
  next
    case False
    then show ?thesis using rec by (cases cs) (auto split: if_splits)
  qed
qed simp

text \<open>The child: everything it has written when it exits.\<close>

function echoLoop :: "nat list \<Rightarrow> nat list \<Rightarrow> u8 list \<Rightarrow> u8 list \<Rightarrow> u8 list" where
  "echoLoop rs ws inp out =
     (case read_full sizeof_Message rs inp [] of
        None \<Rightarrow> out
      | Some (msg, rs', inp') \<Rightarrow>
          (case write_full ws msg out of
             (False, ws', out') \<Rightarrow> out'
           | (True, ws', out') \<Rightarrow> echoLoop rs' ws' inp' out'))"
  by pat_completeness auto
termination
  by (relation "measure (\<lambda>(rs, ws, inp, out). length rs)") (auto simp: sizeof_Message_def dest: read_full_shorter)

declare echoLoop.simps [simp del]

text \<open>One round trip as the parent sees it: its clock readings and the counts returned to it.\<close>

record round_trip =
  sent_at :: int
  back_at :: int
  written :: "nat list"
  readable :: "nat list"

text \<open>\<open>peer\<close> gives what has come back for all that was sent so far.\<close>

fun descriptor_rounds ::
  "(u8 list \<Rightarrow> u8 list) \<Rightarrow> nat \<Rightarrow> round_trip list \<Rightarrow> u8 list \<Rightarrow> nat \<Rightarrow> int list \<Rightarrow> int list" where
  "descriptor_rounds peer iteration [] out taken xs = xs"
| "descriptor_rounds peer iteration (r # rs) out taken xs =
     (let outgoing = new_Message\<lparr>msg_sequence := of_nat iteration, msg_stamp_ns := sent_at r\<rparr> in
      case write_full (written r) (message_bytes outgoing) out of
        (False, _, _) \<Rightarrow> xs
      | (True, _, out) \<Rightarrow>
          (case read_full sizeof_Message (readable r) (drop taken (peer out)) [] of
             None \<Rightarrow> xs
           | Some (incoming, _, _) \<Rightarrow>
               descriptor_rounds peer (Suc iteration) rs out (taken + sizeof_Message)
                 (xs @ [back_at r - msg_stamp_ns (bytes_message incoming)])))"

definition benchmarkDescriptorPair :: "(u8 list \<Rightarrow> u8 list) \<Rightarrow> (nat \<Rightarrow> round_trip) \<Rightarrow> transport_percentiles option" where
  "benchmarkDescriptorPair peer rounds =
     percentilesOf (descriptor_rounds peer 1 (map rounds [1..<Suc kRoundTrips]) [] 0 [])"

text \<open>The calls of the parent that concern its descriptors and its child.\<close>

datatype process_call = OpensPair int int | Forks int | Closes int | Waits int

definition runPipeBenchmark ::
  "(int \<times> int) option \<Rightarrow> (int \<times> int) option \<Rightarrow> int \<Rightarrow> transport_percentiles option \<Rightarrow>
   transport_percentiles option \<times> process_call list" where
  "runPipeBenchmark first second child measured =
     (case first of
        None \<Rightarrow> (Some no_percentiles, [])
      | Some (a, b) \<Rightarrow>
          (case second of
             None \<Rightarrow> (Some no_percentiles, [OpensPair a b])
           | Some (c, d) \<Rightarrow>
               if child < 0 then (Some no_percentiles, [OpensPair a b, OpensPair c d, Forks child])
               else (measured, [OpensPair a b, OpensPair c d, Forks child, Closes a, Closes d, Closes b, Closes c, Waits child])))"

definition runSocketBenchmark ::
  "(int \<times> int) option \<Rightarrow> int \<Rightarrow> transport_percentiles option \<Rightarrow> transport_percentiles option \<times> process_call list" where
  "runSocketBenchmark pair child measured =
     (case pair of
        None \<Rightarrow> (Some no_percentiles, [])
      | Some (a, b) \<Rightarrow>
          if child < 0 then (Some no_percentiles, [OpensPair a b, Forks child])
          else (measured, [OpensPair a b, Forks child, Closes b, Closes a, Waits child]))"

subsection \<open>Shared memory\<close>

text \<open>
  The parent: about to send an iteration, spinning for its answer until a deadline, or out of
  its loop, having timed out or not.  The child: not yet mapped, spinning for a message until
  its deadline, or exited.
\<close>

datatype parent_pc = PSend nat | PSpin nat int | PEnd bool

datatype child_pc = COpen | CSpin nat int | CExit int

text \<open>\<open>sent_times\<close> and \<open>back_times\<close> are the readings of the parent's clock around each round trip.\<close>

record shm_bench =
  sc_request :: seqlock
  sc_response :: seqlock
  parent :: parent_pc
  child :: child_pc
  parent_samples :: "int list"
  sent_times :: "int list"
  back_times :: "int list"

definition shm_bench_start :: shm_bench where
  "shm_bench_start =
     \<lparr>sc_request = new_seqlock 8, sc_response = new_seqlock 8, parent = PSend 1, child = COpen,
      parent_samples = [], sent_times = [], back_times = []\<rparr>"

definition outgoing_words :: "nat \<Rightarrow> int \<Rightarrow> u64 list" where
  "outgoing_words iteration now = message_words (new_Message\<lparr>msg_sequence := of_nat iteration, msg_stamp_ns := now\<rparr>)"

text \<open>What a load may find: the latest value, or nothing if it kept meeting a store.\<close>

definition may_load :: "seqlock \<Rightarrow> u64 list option \<Rightarrow> bool" where
  "may_load s found \<longleftrightarrow> found = None \<or> found = tryLoad 32 s"

definition carries :: "u64 list option \<Rightarrow> nat \<Rightarrow> bool" where
  "carries found n \<longleftrightarrow> (case found of None \<Rightarrow> False | Some ws \<Rightarrow> msg_sequence (words_message ws) = of_nat n)"

inductive shm_step :: "nat \<Rightarrow> shm_bench \<Rightarrow> shm_bench \<Rightarrow> bool" for round_trips :: nat where
  parent_sends: "parent s = PSend i \<Longrightarrow> i \<le> round_trips \<Longrightarrow> i64 now \<Longrightarrow>
    shm_step round_trips s (s\<lparr>sc_request := store (outgoing_words i now) (sc_request s),
      parent := PSpin i (later + kSpinBudgetNs), sent_times := sent_times s @ [now]\<rparr>)"
| parent_receives: "parent s = PSpin i deadline \<Longrightarrow> may_load (sc_response s) found \<Longrightarrow> carries found i \<Longrightarrow>
    shm_step round_trips s (s\<lparr>parent := PSend (Suc i),
      parent_samples := parent_samples s @ [now - msg_stamp_ns (words_message (the found))], back_times := back_times s @ [now]\<rparr>)"
| parent_times_out: "parent s = PSpin i deadline \<Longrightarrow> may_load (sc_response s) found \<Longrightarrow> \<not> carries found i \<Longrightarrow> deadline < now \<Longrightarrow>
    shm_step round_trips s (s\<lparr>parent := PEnd True\<rparr>)"
| parent_ends: "parent s = PSend i \<Longrightarrow> round_trips < i \<Longrightarrow> shm_step round_trips s (s\<lparr>parent := PEnd False\<rparr>)"
| child_unmapped: "child s = COpen \<Longrightarrow> shm_step round_trips s (s\<lparr>child := CExit 2\<rparr>)"
| child_mapped: "child s = COpen \<Longrightarrow> shm_step round_trips s (s\<lparr>child := CSpin 1 (now + kSpinBudgetNs)\<rparr>)"
| child_answers: "child s = CSpin n deadline \<Longrightarrow> n \<le> round_trips \<Longrightarrow> may_load (sc_request s) found \<Longrightarrow> carries found n \<Longrightarrow>
    shm_step round_trips s (s\<lparr>sc_response := store (the found) (sc_response s), child := CSpin (Suc n) deadline\<rparr>)"
| child_gives_up: "child s = CSpin n deadline \<Longrightarrow> n \<le> round_trips \<Longrightarrow> may_load (sc_request s) found \<Longrightarrow> \<not> carries found n \<Longrightarrow>
    deadline < now \<Longrightarrow> shm_step round_trips s (s\<lparr>child := CExit 5\<rparr>)"
| child_ends: "child s = CSpin n deadline \<Longrightarrow> round_trips < n \<Longrightarrow> shm_step round_trips s (s\<lparr>child := CExit 0\<rparr>)"

text \<open>The name and the mapping around the measurement: whether it took place, and the system calls.\<close>

definition sizeof_SharedChannel :: u64 where
  "sizeof_SharedChannel = 256"

definition shm_name :: "nat \<Rightarrow> string" where
  "shm_name pid = ''/safeedge_bench_'' @ decimal pid"

definition runSharedMemoryBenchmark :: "shm_answers \<Rightarrow> nat \<Rightarrow> int \<Rightarrow> int list \<Rightarrow> transport_percentiles option \<times> syscall list" where
  "runSharedMemoryBenchmark ans pid child_pid xs =
     (let name = Some (shm_name pid);
          before = unlinkName name;
          (region, calls) = create ans name sizeof_SharedChannel
      in if \<not> valid region then (Some no_percentiles, before @ calls @ snd (close region))
         else if child_pid < 0 then (Some no_percentiles, before @ calls @ snd (close region))
         else (percentilesOf xs, before @ calls @ unlinkName name @ snd (close region)))"

definition child_cpu_seconds :: "int \<Rightarrow> int \<Rightarrow> double" where
  "child_cpu_seconds user_sec user_usec = dadd (double_of_int user_sec) (ddiv (double_of_int user_usec) (Fin 1000000))"

subsection \<open>The report\<close>

definition printRow :: "string \<Rightarrow> transport_percentiles \<Rightarrow> string \<Rightarrow> string" where
  "printRow label p remark =
     ''| '' @ pad_right 26 label @ '' | '' @ pad_left 7 (decimal_int (tp_p50 p)) @ '' | ''
     @ pad_left 8 (decimal_int (tp_p99 p)) @ '' | '' @ pad_left 9 (decimal_int (tp_p999 p)) @ '' | ''
     @ pad_left 9 (decimal_int (tp_max p)) @ '' | '' @ pad_right 18 remark @ '' |'' @ nl"

definition bench_transports :: "transport_percentiles \<Rightarrow> transport_percentiles \<Rightarrow> transport_percentiles \<Rightarrow> double \<Rightarrow> string list" where
  "bench_transports shm pipes unix_stream cpu_seconds =
     [''# Cross-process transport round-trip latency'' @ nl @ nl,
      ''Message: '' @ decimal sizeof_Message @ '' bytes. Round trips per transport: '' @ decimal kRoundTrips @ ''.'' @ nl,
      ''Every figure is a full round trip -- parent to child and back --'' @ nl,
      ''so a one-way cost is roughly half.'' @ nl @ nl,
      ''| Transport                  |     p50 |      p99 |     p99.9 |       max | cost               |'' @ nl,
      ''|----------------------------|---------|----------|-----------|-----------|--------------------|'' @ nl,
      printRow ''shared memory (seqlock)'' shm ''spins a core'',
      printRow ''Unix socket (stream)'' unix_stream ''blocks, 2 syscalls'',
      printRow ''pipe'' pipes ''blocks, 2 syscalls'',
      nl @ ''All times in nanoseconds.'' @ nl @ nl]
     @ (if 0 < tp_p50 shm \<and> 0 < tp_p50 unix_stream then
          [''Shared memory is '' @ format_f 1 (ddiv (double_of_int (tp_p50 unix_stream)) (double_of_int (tp_p50 shm)))
            @ ''x faster than a Unix stream socket at the median.'' @ nl]
        else [])
     @ [''It also burned '' @ format_f 2 cpu_seconds @ '' s of CPU in the child to do it, for '' @ decimal kRoundTrips
          @ '' round trips.'' @ nl,
        nl,
        ''Read that CPU number carefully: it is low only because this'' @ nl,
        ''benchmark keeps both sides continuously busy, so the spin almost'' @ nl,
        ''never actually waits. A real consumer polling for messages that'' @ nl,
        ''arrive every millisecond spins through the other 99% of the time'' @ nl,
        ''and burns a whole core doing nothing.'' @ nl,
        nl,
        ''The tail is the more interesting column in any case. Shared memory'' @ nl,
        ''is tens of times faster at the median, but nearly three orders of'' @ nl,
        ''magnitude tighter at p99.9 -- and for a cycle that has to fit inside'' @ nl,
        ''a deadline, the tail is the number that decides whether it fits.'' @ nl]"

section \<open>Messages as bytes\<close>

lemma word_bytes_length [simp]: "length (word_bytes w) = 8"
  by (simp add: word_bytes_def)

lemma digits_value:
  "foldr (\<lambda>b m. unat b + 256 * m) (map (\<lambda>i. of_nat (n div 256 ^ i) :: u8) [j..<j + k]) 0 = n div 256 ^ j mod 256 ^ k"
proof (induction k arbitrary: j)
  case (Suc k)
  have "[j..<j + Suc k] = j # [Suc j..<Suc j + k]" by (simp add: upt_conv_Cons)
  moreover have "unat (of_nat (n div 256 ^ j) :: u8) = n div 256 ^ j mod 256" by (simp add: unat_of_nat)
  ultimately show ?case
    using Suc [of "Suc j"] by (simp add: div_mult2_eq [of n "256 ^ j" 256, simplified mult.commute] mod_mult2_eq mult.commute)
qed simp

lemma bytes_word_word_bytes [simp]: "bytes_word (word_bytes w) = w"
proof -
  have "unat w mod 256 ^ 8 = unat w" using unsigned_less [of w, where ?'a = nat] by simp
  then show ?thesis using digits_value [of "unat w" 0 8] by (simp add: bytes_word_def word_bytes_def)
qed

lemma nth_block:
  "i < length ws \<Longrightarrow> take 8 (drop (8 * i) (concat (map word_bytes ws))) = word_bytes (ws ! i)"
proof (induction ws arbitrary: i)
  case (Cons w ws)
  then show ?case by (cases i) simp_all
qed simp

lemma concat_word_bytes_length: "length (concat (map word_bytes ws)) = 8 * length ws"
  by (induction ws) simp_all

lemma message_bytes_length: "length (msg_joint m) = 6 \<Longrightarrow> length (message_bytes m) = sizeof_Message"
  by (simp add: message_bytes_def message_words_def concat_word_bytes_length sizeof_Message_def)

lemma words_message_words:
  assumes "i64 (msg_stamp_ns m)"
  shows "words_message (message_words m) = m"
proof -
  have "sint (word_of_int (msg_stamp_ns m) :: u64) = msg_stamp_ns m"
    using assms by (simp add: i64_def signed_of_int signed_take_bit_int_eq_self)
  then show ?thesis by (simp add: words_message_def message_words_def)
qed

lemma bytes_message_bytes:
  assumes "length (msg_joint m) = 6" and "i64 (msg_stamp_ns m)"
  shows "bytes_message (message_bytes m) = m"
proof -
  have len: "length (message_words m) = 8" using assms(1) by (simp add: message_words_def)
  have "map (\<lambda>i. bytes_word (take 8 (drop (8 * i) (message_bytes m)))) [0..<8] = map ((!) (message_words m)) [0..<8]"
    using nth_block [of _ "message_words m"] len by (auto simp: message_bytes_def simp del: upt_rec_numeral)
  also have "\<dots> = message_words m" using map_nth [of "message_words m"] by (simp only: len)
  finally show ?thesis using words_message_words [OF assms(2)] by (simp only: bytes_message_def)
qed

section \<open>Descriptors\<close>

text \<open>A system that keeps moving bytes.\<close>

definition obliging :: "nat \<Rightarrow> nat list \<Rightarrow> bool" where
  "obliging n cs \<longleftrightarrow> n \<le> length cs \<and> 0 \<notin> set cs"

lemma read_full_obliging:
  "obliging (want - length got) cs \<Longrightarrow> want - length got \<le> length inp \<Longrightarrow> length got \<le> want \<Longrightarrow>
   \<exists>cs'. read_full want cs inp got = Some (got @ take (want - length got) inp, cs', drop (want - length got) inp) \<and>
     obliging (length cs - (want - length got)) cs'"
proof (induction want cs inp got rule: read_full.induct)
  case (1 want inp got)
  then show ?case by (simp add: obliging_def)
next
  case (2 want c cs inp got)
  show ?case
  proof (cases "want \<le> length got")
    case True
    then show ?thesis using 2(2,4) by (simp add: obliging_def)
  next
    case False
    define k n where "k = min c (min (want - length got) (length inp))" and "n = want - length got"
    have "0 < c" using 2(2) by (auto simp: obliging_def)
    then have k: "k \<noteq> 0" "k \<le> n" "k \<le> length inp" using False 2(3) by (auto simp: k_def n_def)
    have left: "want - length (got @ take k inp) = n - k" using k by (simp add: n_def)
    have "obliging (n - k) cs" "n - k \<le> length (drop k inp)" "length (got @ take k inp) \<le> want"
      using 2(2,3) k False by (auto simp: obliging_def n_def)
    then obtain cs' where cs': "read_full want cs (drop k inp) (got @ take k inp) =
        Some ((got @ take k inp) @ take (n - k) (drop k inp), cs', drop (n - k) (drop k inp))"
      "obliging (length cs - (n - k)) cs'"
      using 2(1) [OF False k_def k(1), unfolded left] by blast
    have "take k inp @ take (n - k) (drop k inp) = take n inp" "drop (n - k) (drop k inp) = drop n inp"
      using k(2) by (simp_all add: take_add [symmetric])
    then have "read_full want (c # cs) inp got = Some (got @ take n inp, cs', drop n inp)"
      using cs'(1) k(1) False by (simp add: Let_def flip: k_def)
    moreover have "obliging (length (c # cs) - n) cs'" using cs'(2) k by (auto simp: obliging_def)
    ultimately show ?thesis unfolding n_def by blast
  qed
qed

lemma write_full_obliging:
  "obliging (length rest) cs \<Longrightarrow>
   \<exists>cs'. write_full cs rest out = (True, cs', out @ rest) \<and> obliging (length cs - length rest) cs'"
proof (induction cs rest out rule: write_full.induct)
  case (2 c cs rest out)
  show ?case
  proof (cases "rest = []")
    case False
    define k where "k = min c (length rest)"
    have k: "k \<noteq> 0" "k \<le> length rest" using 2(2) False by (auto simp: obliging_def k_def)
    have "obliging (length (drop k rest)) cs" using 2(2) k by (auto simp: obliging_def)
    then obtain cs' where cs': "write_full cs (drop k rest) (out @ take k rest) = (True, cs', (out @ take k rest) @ drop k rest)"
      "obliging (length cs - length (drop k rest)) cs'"
      using 2(1) [OF False k_def k(1)] by blast
    then have "write_full (c # cs) rest out = (True, cs', out @ rest)"
      using False k(1) by (simp add: Let_def flip: k_def)
    moreover have "obliging (length (c # cs) - length rest) cs'" using cs'(2) k by (auto simp: obliging_def)
    ultimately show ?thesis by blast
  qed (use 2 in \<open>simp add: obliging_def\<close>)
qed (simp add: obliging_def)

text \<open>Whatever the system does, the child returns nothing but what it was sent, in order.\<close>

lemma read_full_takes:
  "read_full want cs inp got = Some (got', cs', inp') \<Longrightarrow> got' @ inp' = got @ inp"
proof (induction want cs inp got rule: read_full.induct)
  case (2 want c cs inp got)
  show ?case
  proof (cases "want \<le> length got")
    case False
    define k where "k = min c (min (want - length got) (length inp))"
    have "k \<noteq> 0" and "read_full want cs (drop k inp) (got @ take k inp) = Some (got', cs', inp')"
      using 2(2) False by (simp_all add: Let_def split: if_splits flip: k_def)
    then have "got' @ inp' = (got @ take k inp) @ drop k inp" using 2(1) [OF False k_def] by blast
    then show ?thesis by simp
  qed (use 2 in simp)
qed (simp split: if_splits)

lemma write_full_prefix:
  "write_full cs rest out = (ok, cs', out') \<Longrightarrow> (\<exists>sent. out' = out @ sent \<and> prefix sent rest) \<and> (ok \<longrightarrow> out' = out @ rest)"
proof (induction cs rest out rule: write_full.induct)
  case (2 c cs rest out)
  show ?case
  proof (cases "rest = []")
    case False
    define k where "k = min c (length rest)"
    show ?thesis
    proof (cases "k = 0")
      case True
      then show ?thesis using 2(2) False by (auto simp: Let_def simp flip: k_def)
    next
      case k: False
      then have "write_full cs (drop k rest) (out @ take k rest) = (ok, cs', out')"
        using 2(2) False by (simp add: Let_def flip: k_def)
      then obtain sent where sent: "out' = (out @ take k rest) @ sent" "prefix sent (drop k rest)"
        "ok \<longrightarrow> out' = (out @ take k rest) @ drop k rest"
        using 2(1) [OF False k_def k] by blast
      then have "prefix (take k rest @ sent) rest" by (metis append_take_drop_id same_prefix_prefix)
      then show ?thesis using sent(1,3) by (intro conjI exI [of _ "take k rest @ sent"]) simp_all
    qed
  qed (use 2 in simp)
qed auto

lemma echo_prefix: "\<exists>sent. echoLoop rs ws inp out = out @ sent \<and> prefix sent inp"
proof (induction rs ws inp out rule: echoLoop.induct)
  case (1 rs ws inp out)
  show ?case
  proof (cases "read_full sizeof_Message rs inp []")
    case None
    then show ?thesis by (simp add: echoLoop.simps)
  next
    case (Some a)
    then obtain msg rs' inp' where read: "read_full sizeof_Message rs inp [] = Some (msg, rs', inp')" by (cases a) auto
    note inp = read_full_takes [OF read, simplified]
    obtain ok ws' out' where wr: "write_full ws msg out = (ok, ws', out')" using prod_cases3 by blast
    note sent = write_full_prefix [OF wr]
    show ?thesis
    proof (cases ok)
      case True
      then obtain more_sent where "echoLoop rs' ws' inp' out' = out' @ more_sent" "prefix more_sent inp'"
        using 1 [OF read refl refl wr [symmetric]] by (auto simp: wr)
      then show ?thesis using sent True read wr inp [symmetric] by (auto simp: echoLoop.simps)
    next
      case False
      then show ?thesis using sent read wr inp [symmetric] by (auto simp: echoLoop.simps prefix_def)
    qed
  qed
qed

lemma read_full_length: "read_full want cs inp got = Some (got', cs', inp') \<Longrightarrow> want \<le> length got'"
proof (induction want cs inp got rule: read_full.induct)
  case (2 want c cs inp got)
  show ?case
  proof (cases "want \<le> length got")
    case False
    define k where "k = min c (min (want - length got) (length inp))"
    have "k \<noteq> 0" and "read_full want cs (drop k inp) (got @ take k inp) = Some (got', cs', inp')"
      using 2(2) False by (simp_all add: Let_def split: if_splits flip: k_def)
    then show ?thesis using 2(1) [OF False k_def] by blast
  qed (use 2 in simp)
qed (simp split: if_splits)

lemma read_full_short: "length inp < want \<Longrightarrow> read_full want cs inp [] = None"
proof (rule ccontr)
  assume "length inp < want" and "read_full want cs inp [] \<noteq> None"
  then obtain got' cs' inp' where r: "read_full want cs inp [] = Some (got', cs', inp')" by auto
  have "length got' + length inp' = length inp" using arg_cong [OF read_full_takes [OF r], of length] by simp
  then show False using read_full_length [OF r] \<open>length inp < want\<close> by simp
qed

lemma obliging_mono: "obliging n cs \<Longrightarrow> m \<le> n \<Longrightarrow> obliging m cs"
  by (simp add: obliging_def)

text \<open>Over a system that keeps moving bytes, the child returns every whole message.\<close>

lemma echo_whole:
  "obliging (length inp) rs \<Longrightarrow> obliging (length inp) ws \<Longrightarrow>
   echoLoop rs ws inp out = out @ take (sizeof_Message * (length inp div sizeof_Message)) inp"
proof (induction "length inp" arbitrary: inp rs ws out rule: less_induct)
  case less
  let ?n = sizeof_Message
  have n: "0 < ?n" by (simp add: sizeof_Message_def)
  show ?case
  proof (cases "length inp < ?n")
    case True
    then show ?thesis by (simp add: echoLoop.simps [of rs] read_full_short)
  next
    case False
    obtain rs' where rd: "read_full ?n rs inp [] = Some (take ?n inp, rs', drop ?n inp)" "obliging (length rs - ?n) rs'"
      using read_full_obliging [of ?n "[]" rs inp] less.prems(1) False by (auto simp: obliging_def)
    obtain ws' where wr: "write_full ws (take ?n inp) out = (True, ws', out @ take ?n inp)" "obliging (length ws - ?n) ws'"
      using write_full_obliging [of "take ?n inp" ws out] less.prems(2) False by (auto simp: obliging_def)
    have smaller: "length (drop ?n inp) < length inp" "obliging (length (drop ?n inp)) rs'" "obliging (length (drop ?n inp)) ws'"
      using False n rd(2) wr(2) less.prems by (auto simp: obliging_def)
    have "length inp div ?n = Suc (length (drop ?n inp) div ?n)" using False n by (simp add: div_if)
    then have "take (?n * (length inp div ?n)) inp = take ?n inp @ take (?n * (length (drop ?n inp) div ?n)) (drop ?n inp)"
      by (simp add: take_add)
    then show ?thesis
      using less.hyps [OF smaller, of "out @ take ?n inp"] rd(1) wr(1) by (simp add: echoLoop.simps [of rs])
  qed
qed

text \<open>A round trip the system does not hinder.\<close>

definition unhindered :: "round_trip \<Rightarrow> bool" where
  "unhindered r \<longleftrightarrow> obliging sizeof_Message (written r) \<and> obliging sizeof_Message (readable r) \<and> i64 (sent_at r)"

lemma rounds_measured:
  assumes "list_all unhindered rounds" and "length out = sizeof_Message * j"
    and "obliging (sizeof_Message * (j + length rounds)) rs" and "obliging (sizeof_Message * (j + length rounds)) ws"
  shows "descriptor_rounds (\<lambda>sent. echoLoop rs ws sent []) iteration rounds out (sizeof_Message * j) xs =
    xs @ map (\<lambda>r. back_at r - sent_at r) rounds"
  using assms
proof (induction rounds arbitrary: iteration out j xs)
  case (Cons r rounds)
  define m where "m = new_Message\<lparr>msg_sequence := of_nat iteration, msg_stamp_ns := sent_at r\<rparr>"
  have joint: "length (msg_joint m) = 6" "msg_stamp_ns m = sent_at r" by (simp_all add: m_def new_Message_def)
  have r: "obliging sizeof_Message (written r)" "obliging sizeof_Message (readable r)" "i64 (sent_at r)"
    using Cons.prems(1) by (simp_all add: unhindered_def)
  note len = message_bytes_length [OF joint(1)]
  obtain cs where wr: "write_full (written r) (message_bytes m) out = (True, cs, out @ message_bytes m)"
    using write_full_obliging [of "message_bytes m" "written r" out] r(1) by (auto simp: len)
  have total: "length (out @ message_bytes m) = sizeof_Message * Suc j" using Cons.prems(2) len by simp
  have enough: "obliging (length (out @ message_bytes m)) rs" "obliging (length (out @ message_bytes m)) ws"
    unfolding total using Cons.prems(3,4) by (auto elim!: obliging_mono)
  have "0 < sizeof_Message" by (simp add: sizeof_Message_def)
  then have peer: "echoLoop rs ws (out @ message_bytes m) [] = out @ message_bytes m"
    using echo_whole [OF enough, of "[]"] Cons.prems(2) len unfolding total by simp
  obtain cs' where rd: "read_full sizeof_Message (readable r) (message_bytes m) [] = Some (message_bytes m, cs', [])"
    using read_full_obliging [of sizeof_Message "[]" "readable r" "message_bytes m"] r(2) by (auto simp: len)
  have "msg_stamp_ns (bytes_message (message_bytes m)) = sent_at r"
    using bytes_message_bytes [OF joint(1)] joint(2) r(3) by simp
  then have "descriptor_rounds (\<lambda>sent. echoLoop rs ws sent []) iteration (r # rounds) out (sizeof_Message * j) xs =
      descriptor_rounds (\<lambda>sent. echoLoop rs ws sent []) (Suc iteration) rounds (out @ message_bytes m) (sizeof_Message * Suc j)
        (xs @ [back_at r - sent_at r])"
    using wr rd peer Cons.prems(2) by (simp add: Let_def add.commute flip: m_def)
  then show ?case
    using Cons.IH [of "out @ message_bytes m" "Suc j"] Cons.prems(1,3,4) total by simp
qed simp

section \<open>Shared memory\<close>

definition slot_ok :: "seqlock \<Rightarrow> bool" where
  "slot_ok s \<longleftrightarrow> sequence s AND 1 = 0 \<and> length (seq_words s) = 8"

definition nth_message :: "int list \<Rightarrow> nat \<Rightarrow> u64 list" where
  "nth_message ts n = (if n = 0 then replicate 8 0 else outgoing_words n (ts ! (n - 1)))"

fun parent_ok :: "nat \<Rightarrow> parent_pc \<Rightarrow> nat \<Rightarrow> nat \<Rightarrow> bool" where
  "parent_ok N (PSend i) back sent \<longleftrightarrow> i = Suc back \<and> sent = back"
| "parent_ok N (PSpin i d) back sent \<longleftrightarrow> i = Suc back \<and> sent = i"
| "parent_ok N (PEnd timed_out) back sent \<longleftrightarrow> back \<le> sent \<and> (\<not> timed_out \<longrightarrow> back = N)"

fun child_ok :: "child_pc \<Rightarrow> bool" where
  "child_ok (CSpin n d) \<longleftrightarrow> 1 \<le> n"
| "child_ok _ \<longleftrightarrow> True"

definition shm_inv :: "nat \<Rightarrow> shm_bench \<Rightarrow> bool" where
  "shm_inv N s \<longleftrightarrow>
     slot_ok (sc_request s) \<and> slot_ok (sc_response s) \<and> length (sent_times s) \<le> N \<and> list_all i64 (sent_times s) \<and>
     seq_words (sc_request s) = nth_message (sent_times s) (length (sent_times s)) \<and>
     (\<exists>m\<le>length (sent_times s). seq_words (sc_response s) = nth_message (sent_times s) m) \<and>
     parent_ok N (parent s) (length (back_times s)) (length (sent_times s)) \<and> child_ok (child s) \<and>
     parent_samples s = map2 (-) (back_times s) (sent_times s)"

lemma outgoing_length [simp]: "length (outgoing_words i t) = 8"
  by (simp add: outgoing_words_def message_words_def new_Message_def)

lemma nth_message_length [simp]: "length (nth_message ts n) = 8"
  by (simp add: nth_message_def)

lemma nth_message_sequence: "nth_message ts n ! 0 = of_nat n"
  by (simp add: nth_message_def outgoing_words_def message_words_def)

lemma nth_message_stamp:
  "0 < n \<Longrightarrow> i64 (ts ! (n - 1)) \<Longrightarrow> msg_stamp_ns (words_message (nth_message ts n)) = ts ! (n - 1)"
  by (simp add: nth_message_def outgoing_words_def words_message_words)

lemma nth_message_append: "n \<le> length ts \<Longrightarrow> nth_message (ts @ [t]) n = nth_message ts n"
  by (auto simp: nth_message_def nth_append)

lemma slot_ok_store: "slot_ok s \<Longrightarrow> length v = 8 \<Longrightarrow> slot_ok (store v s) \<and> seq_words (store v s) = v"
  by (simp add: slot_ok_def store_words even_plus_2)

lemma carries_sequence:
  assumes "slot_ok s" and "may_load s found" and "carries found n" and "seq_words s = nth_message ts m"
    and "n < 2 ^ 64" and "m < 2 ^ 64"
  shows "found = Some (nth_message ts n) \<and> m = n"
proof -
  have load: "tryLoad 32 s = Some (seq_words s)"
    using tryLoad_stable [of s 31] assms(1) by (simp add: slot_ok_def del: tryLoad.simps)
  then have "found = Some (nth_message ts m)"
    using assms(2-4) by (auto simp: may_load_def carries_def simp del: tryLoad.simps)
  moreover from this have "(of_nat m :: u64) = of_nat n"
    using assms(3) by (simp add: carries_def words_message_def nth_message_sequence)
  moreover have "unat (of_nat m :: u64) = m" "unat (of_nat n :: u64) = n"
    using assms(5,6) by (simp_all add: unat_of_nat_small)
  ultimately show ?thesis by metis
qed

lemma shm_inv_start: "shm_inv N shm_bench_start"
  by (auto simp: shm_inv_def shm_bench_start_def slot_ok_def new_seqlock_def nth_message_def intro!: exI [of _ 0])

lemma shm_inv_step:
  assumes "shm_step N s s'" and "shm_inv N s" and "N < 2 ^ 64"
  shows "shm_inv N s'"
proof -
  note inv = assms(2) [unfolded shm_inv_def]
  obtain m where m: "m \<le> length (sent_times s)" "seq_words (sc_response s) = nth_message (sent_times s) m"
    using inv by blast
  have small: "m < 2 ^ 64" "length (sent_times s) < 2 ^ 64" using m(1) inv assms(3) by linarith+
  from assms(1) show ?thesis
  proof cases
    case (parent_sends i now later)
    have i: "i = Suc (length (sent_times s))" using inv parent_sends by simp
    have "slot_ok (store (outgoing_words i now) (sc_request s)) \<and> seq_words (store (outgoing_words i now) (sc_request s)) = outgoing_words i now"
      using inv by (intro slot_ok_store) simp_all
    moreover have "nth_message (sent_times s @ [now]) i = outgoing_words i now" by (simp add: nth_message_def i)
    moreover have "\<exists>m\<le>Suc (length (sent_times s)). seq_words (sc_response s) = nth_message (sent_times s @ [now]) m"
      using m by (intro exI [of _ m]) (simp add: nth_message_append)
    moreover have "map2 (-) (back_times s) (sent_times s @ [now]) = map2 (-) (back_times s) (sent_times s)"
      using inv parent_sends by (simp add: zip_append2)
    ultimately show ?thesis using inv parent_sends i by (simp add: shm_inv_def)
  next
    case (parent_receives i deadline found now)
    have i: "i = length (sent_times s)" "i = Suc (length (back_times s))" using inv parent_receives by simp_all
    have f: "found = Some (nth_message (sent_times s) i) \<and> m = i"
      using carries_sequence [OF _ parent_receives(3,4) m(2)] inv small i(1) by blast
    have "i64 (sent_times s ! (i - 1))" using inv i by (simp add: list_all_length)
    then have "msg_stamp_ns (words_message (the found)) = sent_times s ! (i - 1)"
      using nth_message_stamp [of i "sent_times s"] f i(2) by simp
    moreover have "map2 (-) (back_times s @ [now]) (sent_times s) = map2 (-) (back_times s) (sent_times s) @ [now - sent_times s ! (i - 1)]"
      using i by (cases "sent_times s" rule: rev_cases) (simp_all add: zip_append2 nth_append)
    ultimately show ?thesis using inv parent_receives i by (simp add: shm_inv_def)
  next
    case (child_answers n deadline found)
    have n: "1 \<le> n" "n < 2 ^ 64" using inv child_answers assms(3) by simp_all
    have f: "found = Some (nth_message (sent_times s) n) \<and> length (sent_times s) = n"
      using carries_sequence [OF _ child_answers(4,5) _ n(2) small(2)] inv by blast
    then have "slot_ok (store (the found) (sc_response s)) \<and> seq_words (store (the found) (sc_response s)) = nth_message (sent_times s) n"
      using inv slot_ok_store [of "sc_response s" "the found"] by simp
    then show ?thesis using inv child_answers f by (auto simp: shm_inv_def)
  qed (use inv in \<open>auto simp: shm_inv_def\<close>)
qed

lemma shm_reachable:
  assumes "(shm_step N)\<^sup>*\<^sup>* shm_bench_start s" and "N < 2 ^ 64"
  shows "shm_inv N s"
  using assms(1) by induction (auto intro: shm_inv_start shm_inv_step [OF _ _ assms(2)])

lemma parent_ok_sent: "parent_ok N p back sent \<Longrightarrow> back \<le> sent"
  by (cases p) auto

text \<open>
  The child's deadline is set once, before its first message: a child that has answered
  every message so far exits as soon as it has run for that long, although the parent is
  there and about to send the next.
\<close>

definition first_words :: "u64 list" where
  "first_words = outgoing_words 1 100"

definition answered :: shm_bench where
  "answered =
     \<lparr>sc_request = store first_words (new_seqlock 8), sc_response = store first_words (new_seqlock 8), parent = PSend 2,
      child = CSpin 2 kSpinBudgetNs, parent_samples = [600], sent_times = [100], back_times = [700]\<rparr>"

lemma first_load: "tryLoad 32 (store first_words (new_seqlock 8)) = Some first_words"
proof -
  have "slot_ok (new_seqlock 8)" by (simp add: slot_ok_def new_seqlock_def)
  then have "slot_ok (store first_words (new_seqlock 8)) \<and> seq_words (store first_words (new_seqlock 8)) = first_words"
    by (rule slot_ok_store) (simp add: first_words_def)
  then show ?thesis using tryLoad_stable [of "store first_words (new_seqlock 8)" 31] by (simp add: slot_ok_def del: tryLoad.simps)
qed

lemma first_message: "words_message first_words = new_Message\<lparr>msg_sequence := 1, msg_stamp_ns := 100\<rparr>"
  by (simp add: first_words_def outgoing_words_def words_message_words i64_def)

lemma first_carries: "carries (Some first_words) n \<longleftrightarrow> (of_nat n :: u64) = 1"
  by (auto simp: carries_def first_message)

lemma answered_reachable:
  assumes "1 \<le> N"
  shows "(shm_step N)\<^sup>*\<^sup>* shm_bench_start answered"
proof -
  let ?s1 = "shm_bench_start\<lparr>child := CSpin 1 kSpinBudgetNs\<rparr>"
  let ?s2 = "?s1\<lparr>sc_request := store first_words (new_seqlock 8), parent := PSpin 1 kSpinBudgetNs, sent_times := [100]\<rparr>"
  let ?s3 = "?s2\<lparr>sc_response := store first_words (new_seqlock 8), child := CSpin 2 kSpinBudgetNs\<rparr>"
  have "shm_step N shm_bench_start ?s1"
    using child_mapped [of shm_bench_start N 0] by (simp add: shm_bench_start_def)
  moreover have "shm_step N ?s1 ?s2"
    using parent_sends [of ?s1 1 N 100 0] assms by (simp add: shm_bench_start_def first_words_def i64_def)
  moreover have "shm_step N ?s2 ?s3"
    using child_answers [of ?s2 1 kSpinBudgetNs N "Some first_words"] assms
    by (simp add: shm_bench_start_def may_load_def first_load first_carries numeral_2_eq_2 del: tryLoad.simps)
  moreover have "shm_step N ?s3 answered"
    using parent_receives [of ?s3 1 kSpinBudgetNs "Some first_words" N 700]
    by (simp add: shm_bench_start_def answered_def may_load_def first_load first_carries first_message numeral_2_eq_2 del: tryLoad.simps)
  ultimately show ?thesis by (meson converse_rtranclp_into_rtranclp rtranclp.rtrancl_refl)
qed

lemma child_leaves_early:
  assumes "2 \<le> N"
  shows "\<exists>s. (shm_step N)\<^sup>*\<^sup>* shm_bench_start s \<and> child s = CExit 5 \<and> parent s = PSend 2"
proof -
  have "shm_step N answered (answered\<lparr>child := CExit 5\<rparr>)"
    using child_gives_up [of answered 2 kSpinBudgetNs N "Some first_words" 6000000000] assms
    by (simp add: answered_def may_load_def first_load first_carries kSpinBudgetNs_def del: tryLoad.simps)
  then show ?thesis
    using answered_reachable [of N] assms
    by (intro exI [of _ "answered\<lparr>child := CExit 5\<rparr>"] conjI) (auto simp: answered_def)
qed

section \<open>Resources\<close>

lemma shm_name_well_formed: "nameIsWellFormed (Some (shm_name pid))"
proof -
  have "CHR 0x2F \<notin> set (decimal n)" for n
    using decimal_digits [of "CHR 0x2F" n] by auto
  then show ?thesis by (simp add: nameIsWellFormed_def shm_name_def)
qed

text \<open>
  The name and the mapping of the measurement are gone afterwards, except that a failed
  fork leaves the name behind.
\<close>

lemma shm_benchmark_resources:
  assumes "mmap_not_null ans" and "runSharedMemoryBenchmark ans pid child_pid xs = (result, calls)"
  shows "replay ans calls L = L\<lparr>names :=
    (if valid (fst (create ans (Some (shm_name pid)) sizeof_SharedChannel)) \<and> child_pid < 0
     then insert (shm_name pid) (names L) else names L - {shm_name pid})\<rparr>"
proof -
  let ?name = "Some (shm_name pid)" and ?L = "L\<lparr>names := names L - {shm_name pid}\<rparr>"
  obtain region cs where cr: "create ans ?name sizeof_SharedChannel = (region, cs)" by fastforce
  have unlink: "unlinkName ?name = [ShmUnlink (shm_name pid)]" using shm_name_well_formed by (simp add: unlinkName_def)
  have app: "replay ans (a @ b) M = replay ans b (replay ans a M)" for a b M by (simp add: replay_def)
  have del: "replay ans (ShmUnlink n # cs) M = replay ans cs (M\<lparr>names := names M - {n}\<rparr>)" for n cs M
    by (simp add: replay_def)
  have "exclusive ans ?name ?L" by (simp add: exclusive_def split: sum.split)
  note made = create_ledger [OF assms(1) this cr]
  show ?thesis
    using assms(2) unfolding runSharedMemoryBenchmark_def Let_def cr unlink
    by (auto simp: app del made close_ledger holding_def insert_Diff_if split: if_splits)
qed

text \<open>The descriptors a run has open at its end.\<close>

fun descriptor_effect :: "process_call \<Rightarrow> int multiset \<Rightarrow> int multiset" where
  "descriptor_effect (OpensPair a b) D = add_mset a (add_mset b D)"
| "descriptor_effect (Closes a) D = D - {#a#}"
| "descriptor_effect _ D = D"

lemma pipe_benchmark_descriptors:
  assumes "runPipeBenchmark first second child_pid measured = (result, calls)"
  shows "fold descriptor_effect calls D =
    (case (first, second) of
       (Some (a, b), None) \<Rightarrow> add_mset a (add_mset b D)
     | (Some (a, b), Some (c, d)) \<Rightarrow> if child_pid < 0 then D + {#a, b, c, d#} else D
     | _ \<Rightarrow> D)"
  using assms by (auto simp: runPipeBenchmark_def split: option.splits prod.splits if_splits)

section \<open>Properties\<close>

text \<open>
  The child of the descriptor benchmarks is transparent: whatever the system returns
  from reads and writes, it sends back a prefix of what it was sent; and if the system
  keeps moving bytes, in pieces of any size, the statistics are those of the times
  between sending each message and having it back.
\<close>

theorem round_trips_exact:
  assumes "\<And>i. unhindered (rounds i)"
    and "obliging (sizeof_Message * kRoundTrips) rs" and "obliging (sizeof_Message * kRoundTrips) ws"
  shows "benchmarkDescriptorPair (\<lambda>sent. echoLoop rs ws sent []) rounds =
      percentilesOf (map (\<lambda>i. back_at (rounds i) - sent_at (rounds i)) [1..<Suc kRoundTrips]) \<and>
    prefix (echoLoop cs cs' inp []) inp"
proof -
  have "list_all unhindered (map rounds [1..<Suc kRoundTrips])" using assms(1) by (simp add: list_all_iff)
  from rounds_measured [OF this, of "[]" 0 rs ws 1 "[]"] assms(2,3)
  have "descriptor_rounds (\<lambda>sent. echoLoop rs ws sent []) 1 (map rounds [1..<Suc kRoundTrips]) [] 0 [] =
      map (\<lambda>i. back_at (rounds i) - sent_at (rounds i)) [1..<Suc kRoundTrips]"
    by (simp add: comp_def del: upt_Suc)
  then show ?thesis
    using echo_prefix [of cs cs' inp "[]"] by (auto simp: benchmarkDescriptorPair_def simp del: upt_Suc)
qed

theorem round_trips_exact_witness:
  "benchmarkDescriptorPair
     (\<lambda>sent. echoLoop (replicate (sizeof_Message * kRoundTrips) 3) (replicate (sizeof_Message * kRoundTrips) 10) sent [])
     (\<lambda>i. \<lparr>sent_at = 0, back_at = int i, written = replicate sizeof_Message 1, readable = replicate sizeof_Message 7\<rparr>) =
   percentilesOf (map int [1..<Suc kRoundTrips])"
  using round_trips_exact [of "\<lambda>i. \<lparr>sent_at = 0, back_at = int i, written = replicate sizeof_Message 1,
      readable = replicate sizeof_Message 7\<rparr>" "replicate (sizeof_Message * kRoundTrips) 3"
      "replicate (sizeof_Message * kRoundTrips) 10"]
  by (simp add: unhindered_def obliging_def i64_def del: upt_Suc)

text \<open>
  C40.  The samples of the shared-memory benchmark are round trips: in every interleaving of the
  two processes, even with loads that fail, each sample is the time between sending
  one message and receiving the answer to that very message, in order, and a run that ends
  without a timeout has all of them.
\<close>

theorem shm_samples_exact:
  assumes "(shm_step N)\<^sup>*\<^sup>* shm_bench_start s" and "N < 2 ^ 64"
  shows "parent_samples s = map2 (-) (back_times s) (sent_times s) \<and>
    length (back_times s) \<le> length (sent_times s) \<and> length (sent_times s) \<le> N \<and>
    (parent s = PEnd False \<longrightarrow> length (parent_samples s) = N)"
  using shm_reachable [OF assms] parent_ok_sent by (auto simp: shm_inv_def)

theorem shm_samples_exact_witness:
  "(shm_step 2)\<^sup>*\<^sup>* shm_bench_start answered \<and> parent_samples answered = [600] \<and>
   map2 (-) (back_times answered) (sent_times answered) = [600]"
  using shm_samples_exact [OF answered_reachable [of 2]] answered_reachable [of 2] by (simp add: answered_def)

end
