(* ===== verification/Spec2Isabelle.thy ===== *)
theory Spec2Isabelle
  imports Black_Channel Dual_Channel Spsc_Ring Seqlock_Slot Latency_Histogram No_Alloc_Guard Alloc_Threads Thread_Config Cyclic_Executor
    Safeedged Daemon_Process Daemon_Threads Live_Snapshot Opcua_Security Opcua_View Opcua_Probe Fuzz_Target
    Cycle_Report Bench_Ring Bench_Transports
begin

text \<open>
  \<^bold>\<open>A verification library for safeedge\<close>, a safety-oriented edge runtime in C++20.

  \<^bold>\<open>The program.\<close>  A daemon (\<open>src/apps/safeedged.cpp\<close>) runs a control loop at a fixed
  frequency.  The loop is executed by \<open>rt::CyclicExecutor\<close> on a thread configured for
  real time, under a guard that detects heap allocation, and is measured with latency
  histograms.  Each cycle sends a telegram over a black channel (sender, CRC-32 and
  receiver), evaluates a dual-channel safety supervisor made of two state machines,
  and publishes a snapshot through a sequence lock, in the process or in shared memory.
  An HTTP server serves health, readiness, safety state and metrics from that snapshot.
  Two threads watch for an emergency-stop file and an acknowledgement file.  A
  lock-free ring buffer connects other producers and consumers.  A second process
  (\<open>src/apps/safeedge_opcua.cpp\<close>) reads the snapshot from shared memory and presents it as an
  OPC UA address space with an event for every transition; a probe
  (\<open>src/apps/safeedge_opcua_probe.cpp\<close>) connects to it and measures.  An example, two
  benchmarks and a fuzz target exercise the parts.

  \<^bold>\<open>Conventions.\<close>  Unsigned integers are words of their width, so that wrap-around is the
  code's.  Signed 64-bit integers are mathematical integers, since their overflow is
  undefined in C++; \<open>i64\<close> states their range where it matters.  Structures are records,
  enumerations are datatypes, errors are values, and a call that does not return is
  \<open>None\<close>.  Calls of the operating system, clocks and other threads are arguments: a
  record of answers or one record per iteration, over which every theorem quantifies.
  Concurrent code is an interleaving of atomic accesses; the orders the code asks for
  are sequentially consistent, release and acquire, or relaxed on a single flag or counter.  Doubles are rationals with the
  rounding of IEEE 754 written out, infinities and not-a-number.

  \<^bold>\<open>Theories\<close>, in the order of the code:

  \<^item> \<open>Prelude\<close>: generic facts on words, lists, decimal text and character buffers;
    \<open>Float64\<close>: binary64 arithmetic, with monotonicity and exactness of rounding;
    \<open>Printf\<close>: \<open>snprintf\<close> and the \<open>%.6g\<close> conversion.

  \<^item> \<open>Crc32\<close> (\<open>safety/crc32\<close>): the table-driven checksum is the bit-serial reference and
    detects one to three flipped bits and bursts; the locale \<open>burst_checksum\<close> states what
    the black channel relies on.

  \<^item> \<open>Black_Channel\<close> (\<open>safety/black_channel\<close>): \<open>encode\<close>, \<open>receive\<close>, \<open>poll\<close> and
    \<open>acknowledgeAndReset\<close> with every early return and counter.  An exact
    characterisation of what is accepted, delivery of whole streams across the wrap of
    the consecutive number, rejection of corruption, misaddressing, loss and delay, and
    refinement to a specification of allowed histories.

  \<^item> \<open>Safety_State_Machine\<close> and \<open>Dual_Channel\<close> (\<open>safety/safety_state_machine\<close>,
    \<open>safety/dual_channel\<close>): what torque requires, that demands remove it, that faults
    latch until acknowledged, the transition diagram, timed stops, and the supervision
    of two channels.  The locale \<open>latching_channel\<close> is the contract of a channel.

  \<^item> \<open>Spsc_Ring\<close> (\<open>concurrent/spsc_ring.hpp\<close>): the ring as interleaved steps of a producer
    and a consumer; first-in first-out order, freedom from data races, and refinement
    to a bounded queue (locale \<open>bounded_queue\<close>).

  \<^item> \<open>Seqlock_Slot\<close> and \<open>Runtime_Snapshot\<close> (\<open>ipc/seqlock_slot.hpp\<close>,
    \<open>edge/runtime_snapshot.hpp\<close>): no torn reads in any interleaving, bounded reads, and
    the snapshot as the words that are copied; the locale \<open>latest_value_slot\<close> is
    interpreted for both.

  \<^item> \<open>Shared_Memory\<close> (\<open>ipc/shared_memory\<close>): creation is all or nothing, and every mapping
    has one owner over any sequence of moves and closes, on a ledger of system calls.

  \<^item> \<open>Latency_Histogram\<close> (\<open>rt/latency_histogram\<close>): bucket layout, percentiles that are
    never below the sample of their rank, and merging (locale \<open>sample_store\<close>).

  \<^item> \<open>No_Alloc_Guard\<close>, \<open>Alloc_Threads\<close> and \<open>Thread_Config\<close> (\<open>rt/no_alloc_guard\<close>, its hooks,
    \<open>rt/thread_config\<close>): the guard counts exactly the allocations in scope and aborts
    with a message built without allocating; the same for any number of threads, whose reports
    interleave access by access, with an executable counterpart of the step relation; the
    families of \<open>operator new\<close> and \<open>operator delete\<close> fit each other; the report of a
    thread's configuration is honest whatever the system answers.

  \<^item> \<open>Cyclic_Executor\<close> (\<open>rt/cyclic_executor\<close>): a run refines a schedule of deadlines, does
    not drift, returns, and counts the allocations of its callback.

  \<^item> \<open>Metrics\<close> and \<open>Http_Server\<close> (\<open>edge/metrics.cpp\<close>, \<open>edge/http_server\<close>): the exact sample
    lines of a scrape; the response to a request however it is cut up, and the lifecycle
    of the server's descriptor and thread.

  \<^item> \<open>Flag_Watcher\<close>, \<open>Control_Loop\<close>, \<open>Safeedged\<close> and \<open>Daemon_Process\<close> (\<open>apps/safeedged.cpp\<close>): the file
    watchers as interleaved threads; the cycle as a callback of the executor, composed
    of sender, receiver, supervisor and slot, which refines a machine of four modes; the
    endpoints, the startup with its exit codes and the health probe through the server;
    and the process from its start to its exit.

  \<^item> \<open>Daemon_Threads\<close> and \<open>Live_Snapshot\<close> (\<open>apps/safeedged.cpp\<close>): all threads of the daemon at once, with
    the watchers running and the cycle taken apart where it touches what they write; they
    refine the process of \<open>Daemon_Process\<close>, their log lines interleave on one output, and stages of completed steps lead from a file to
    the torque and back.  The loop with its slot at the grain of single words: a reader
    at any moment gets the whole snapshot of the last cycle published.

  \<^item> \<open>Opcua_Security\<close> and \<open>Opcua_View\<close> (\<open>opcua/security\<close>, \<open>opcua/address_space\<close>,
    \<open>opcua/events\<close>, \<open>apps/safeedge_opcua.cpp\<close>): the OPC UA library is a record of functions,
    and what the code relies on of it is the named predicates \<open>library_ok\<close> and \<open>serves\<close>, each
    met by a concrete instance.  The security configuration fails closed; every variable
    reads as the snapshot found or is marked as having no data; the events account
    for every transition of the control loop; startup and shutdown.

  \<^item> \<open>Opcua_Probe\<close> (\<open>apps/safeedge_opcua_probe.cpp\<close>) and \<open>Text_Format\<close> (the conversions of the
    C library it prints and reads with): the arguments, a session that connects only
    encrypted and releases what it acquired on every path, and the client's counts of events
    traced back to the transitions of the control loop.

  \<^item> \<open>Fuzz_Target\<close> (\<open>fuzz/fuzz_telegram_decode.cpp\<close>): no input makes the target trap.

  \<^item> \<open>Cycle_Report\<close> (\<open>examples/rt_cycle_report.cpp\<close>), \<open>Bench_Ring\<close> and \<open>Bench_Transports\<close>
    (\<open>benchmarks\<close>): the report describes a complete run of the executor; the plain ring
    of the benchmark is the same bounded queue as the padded one, through a second
    interpretation of \<open>bounded_queue\<close>, and both deliver in every interleaving; percentiles;
    the echoing child over any cutting of its reads and writes; and the
    shared-memory round trips as interleaved steps of two processes.

  \<^item> This theory: the properties that go through the whole program, from the emergency stop
    file over its watcher, the flag, the cycle, the supervisor and the published snapshot to the
    endpoints and to a client of the OPC UA view; from the acknowledgement file back to torque;
    and that torque never comes back without one.

  \<^bold>\<open>Bounds and termination.\<close>  Loops are structural recursion or proved to terminate; those
  that may run forever (the executor, its sleep, its skip loop) are partial functions
  with a theorem that they return under stated conditions.  \<open>tryLoad\<close> has the 32
  attempts of the code.  A connection ends with the list of answers of its socket, after
  which it times out.  The theorems on the daemon's modes need a period of at most the
  receiver's watchdog, that is, 20 Hz or more; below that the loop latches, which is
  proved too.

  The steps and publications that the properties across the components ask for (three steps
  of a watcher, two or three publications) are exact counts of the model's steps, in which a
  watcher looks, removes and sets in separate steps and a cycle under way may have read
  the flags before.

  \<^bold>\<open>Not modelled.\<close>  The OPC UA library itself, which is not part of the sources; weak-memory
  behaviour beyond the interleaving of the atomic accesses; the variants of the thread
  configuration and the executor for other operating systems.  Accessors that only return a member
  are the fields of the records, and the type-erased \<open>CycleCallback\<close> is the function it
  calls.  In the benchmarks a whole call on a ring or a slot is one
  step; the finer interleavings inside the calls are those of \<open>Spsc_Ring\<close> and
  \<open>Seqlock_Slot\<close>.  Elapsed times, sleeps, the delivery of notifications by the OPC UA client
  and the waiting of the main threads are arguments.
\<close>

section \<open>Properties across the components\<close>

text \<open>
  C1. An emergency stop goes all the way: in every interleaving of the daemon's threads, at every
  frequency from 20 Hz up, once the file is there and stays while its watcher makes
  three steps and the loop then publishes twice, the published snapshot denies torque and carries
  the latched fault with its cause, \<open>/readyz\<close> answers 503 and the line of \<open>/safety\<close> reads as
  torque off, whatever acknowledgements are given meanwhile.
\<close>

theorem emergency_stop_end_to_end:
  assumes "daemon_start sys getenv argv = Inr d" and "20 \<le> frequency_hz (d_settings d)"
    and "per = period (daemon_executor_config (frequency_hz (d_settings d)) (rt_priority (d_settings d)))"
    and "threads_run report per (threads_start d clock now estop_there ack_there) before t" and "estop_file t"
    and "threads_run report per t (es @ fs) t'" and "Removes_Estop \<notin> set (es @ fs)"
    and "3 \<le> count_list es Estop_Thread" and "2 \<le> length (filter is_publication fs)"
  shows "\<exists>s. read_snapshot (published (loop (proc t'))) = Some s \<and> s_torque_permitted s = 0 \<and> s_fault_latched s = 1 \<and>
    s_fault_reason s = of_nat (fault_value FR_EmergencyStop) \<and> status (readyz (handlers_see t')) = 503 \<and>
    map undecimal (fields_of [] (butlast (body (safety_endpoint (handlers_see t'))))) =
      [unat (s_safety_sequence s), 0, unat (s_safety_transition_monotonic_ns s)]"
proof -
  note inv = loop_inv_run [OF assms(4) loop_inv_start [OF assms(1-3)]]
  obtain s where s: "read_snapshot (published (loop (proc t'))) = Some s" "snapshot_mode Faulted s"
    using stopped_snapshot [OF inv assms(5-9)] by blast
  then show ?thesis
    using safety_line_exact [of "handlers_see t'"]
    by (simp add: snapshot_mode_def readyz_def handlers_see_def new_HttpResponse_def)
qed

theorem emergency_stop_end_to_end_witness:
  "\<exists>d es t. daemon_start willing_system (\<lambda>_. None) [''safeedged''] = Inr d \<and>
    threads_run new_ThreadConfigReport 1000000 (threads_start d \<lparr>tv_sec = 0, tv_nsec = 0\<rparr> 0 True True) es t \<and>
    status (readyz (handlers_see t)) = 503"
proof -
  obtain d where d: "daemon_start willing_system (\<lambda>_. None) [''safeedged''] = Inr d" using willing_starts by blast
  note f = willing_frequency [OF d]
  let ?t0 = "threads_start d \<lparr>tv_sec = 0, tv_nsec = 0\<rparr> 0 True True"
  obtain t es t' where t: "threads_run new_ThreadConfigReport 1000000 ?t0 [Control_Moves] t" "estop_file t"
    "threads_run new_ThreadConfigReport 1000000 t (replicate 3 Estop_Thread @ es) t'" "undisturbed es"
    "length (filter is_publication es) = 2"
    using willing_stops [OF d, where n = 2] by blast
  have "Removes_Estop \<notin> set (replicate 3 Estop_Thread @ es)" using t(4) by (auto simp: undisturbed_def)
  then have "status (readyz (handlers_see t')) = 503"
    using emergency_stop_end_to_end [OF d _ conjunct2 [OF f] t(1-3)] f t(5) by auto
  then show ?thesis using d threads_run_append [OF t(3,1)] by blast
qed





text \<open>
  C22. An emergency stop reaches the OPC UA client: with the stop standing as above, a pass of the
  view that reads the daemon's slot leaves a server whose variables for torque, latch and
  fault read false, true and the emergency stop, all marked good, whatever its earlier passes
  found.
\<close>

theorem emergency_stop_reaches_client:
  assumes "daemon_start sys getenv argv = Inr d" and "20 \<le> frequency_hz (d_settings d)"
    and "per = period (daemon_executor_config (frequency_hz (d_settings d)) (rt_priority (d_settings d)))"
    and "threads_run report per (threads_start d clock now estop_there ack_there) before t" and "estop_file t"
    and "threads_run report per t (es @ fs) t'" and "Removes_Estop \<notin> set (es @ fs)"
    and "3 \<le> count_list es Estop_Thread" and "2 \<le> length (filter is_publication fs)"
    and "serves srv decl rd" and "buildAddressSpace srv 0 (Some s0) = (True, ns, Some s1)"
    and "buildEventType srv ns (Some s1) = (True, Some s2)"
    and "publisher_loop srv ns (earlier @ [read_snapshot (published (loop (proc t')))]) (new_publisher, Some s2) = (events, p, server)"
  shows "\<exists>s. server = Some s \<and> client_view rd s ns kTorquePermitted = Some (T_BOOLEAN, Boolean False, GOOD) \<and>
    client_view rd s ns kFaultLatched = Some (T_BOOLEAN, Boolean True, GOOD) \<and>
    client_view rd s ns kFaultReason = Some (T_UINT32, UInt32 (of_nat (fault_value FR_EmergencyStop)), GOOD)"
proof -
  note inv = loop_inv_run [OF assms(4) loop_inv_start [OF assms(1-3)]]
  obtain x where x: "read_snapshot (published (loop (proc t'))) = Some x" "snapshot_mode Faulted x"
    using stopped_snapshot [OF inv assms(5-9)] by blast
  obtain s where "server = Some s" "shows_found rd s ns (Some x)"
    using view_reads_found [OF assms(10-12), of earlier "Some x"] assms(13) x(1) by auto
  then show ?thesis using shows_found_safety [of rd s ns x] x(2) by (simp add: snapshot_mode_def)
qed

theorem emergency_stop_reaches_client_witness:
  "\<exists>d es t s. daemon_start willing_system (\<lambda>_. None) [''safeedged''] = Inr d \<and>
    threads_run new_ThreadConfigReport 1000000 (threads_start d \<lparr>tv_sec = 0, tv_nsec = 0\<rparr> 0 True True) es t \<and>
    snd (snd (publisher_loop variable_server 2 [None, read_snapshot (published (loop (proc t)))] (new_publisher, Some event_variables))) = Some s \<and>
    client_view snd s 2 kTorquePermitted = Some (T_BOOLEAN, Boolean False, GOOD)"
proof -
  obtain d where d: "daemon_start willing_system (\<lambda>_. None) [''safeedged''] = Inr d" using willing_starts by blast
  note f = willing_frequency [OF d]
  let ?t0 = "threads_start d \<lparr>tv_sec = 0, tv_nsec = 0\<rparr> 0 True True"
  obtain t es t' where t: "threads_run new_ThreadConfigReport 1000000 ?t0 [Control_Moves] t" "estop_file t"
    "threads_run new_ThreadConfigReport 1000000 t (replicate 3 Estop_Thread @ es) t'" "undisturbed es"
    "length (filter is_publication es) = 2"
    using willing_stops [OF d, where n = 2] by blast
  have "Removes_Estop \<notin> set (replicate 3 Estop_Thread @ es)" using t(4) by (auto simp: undisturbed_def)
  moreover obtain events p server where loop: "publisher_loop variable_server 2 ([None] @ [read_snapshot (published (loop (proc t')))])
      (new_publisher, Some event_variables) = (events, p, server)" using prod_cases3 by blast
  ultimately obtain s where "server = Some s" "client_view snd s 2 kTorquePermitted = Some (T_BOOLEAN, Boolean False, GOOD)"
    using emergency_stop_reaches_client [OF d _ conjunct2 [OF f] t(1-3) _ _ _ variable_server_serves view_variables_built event_variables_built loop]
      f t(5) by auto
  then show ?thesis using d threads_run_append [OF t(3,1)] loop
    by (intro exI conjI) (assumption, assumption, simp_all)
qed

end
